(* ===== verification/Prelude.thy ===== *)
theory Prelude
  imports Complex_Main "HOL-Library.Word"
begin

text \<open>
  What the components share: names for the machine types of the program, the collections
  of facts the proofs draw on, and generic lemmas on lists, options and words that belong
  to no component.
\<close>

unbundle bit_operations_syntax

section \<open>Machine types\<close>

text \<open>
  \<open>uint8_t\<close>, \<open>uint16_t\<close> and \<open>uint32_t\<close> of the C sources. Plain \<open>int\<close> values that only
  count or index are \<open>nat\<close> or \<open>int\<close> where the component says so.
\<close>

type_synonym u8 = "8 word"
type_synonym u16 = "16 word"
type_synonym u32 = "32 word"

section \<open>Collections\<close>

named_theorems proto_simps \<open>unfolding of the bus protocol's constants and tables\<close>
named_theorems fp_order \<open>order facts of the floating point model\<close>
named_theorems step_defs \<open>definitions of the operations that change a component's state\<close>
named_theorems frame_simps \<open>what an operation leaves unchanged\<close>

section \<open>Lists and options\<close>

lemma list_update_length_append:
  "length xs = n \<Longrightarrow> (xs @ y # ys)[n := z] = xs @ z # ys"
  by (induction xs arbitrary: n) auto

lemma take_Suc_append_nth: "n < length xs \<Longrightarrow> take (Suc n) xs = take n xs @ [xs ! n]"
  by (simp add: take_Suc_conv_app_nth)

lemma distinct_map_filterI: "distinct (map f xs) \<Longrightarrow> distinct (map f (filter P xs))"
  by (simp add: distinct_map inj_on_def)

lemma distinct_subset_length:
  "distinct xs \<Longrightarrow> set xs \<subseteq> set ys \<Longrightarrow> length xs \<le> length ys"
  by (metis card_length card_mono distinct_card le_trans List.finite_set)

lemma span_find:
  "takeWhile (\<lambda>x. \<not> P x) xs @ dropWhile (\<lambda>x. \<not> P x) xs = xs"
  by simp

section \<open>Words\<close>

lemma word_AND_self_xor: "(x :: 'a::len word) XOR x = 0"
  by simp

lemma nibble_split: "(x :: u8) = (x AND 0x0F) OR (x AND 0xF0)"
proof -
  have "(x AND 0x0F) OR (x AND 0xF0) = x AND (0x0F OR 0xF0)"
    by (simp only: bit.conj_disj_distrib)
  also have "(0x0F OR 0xF0 :: u8) = -1"
    by simp
  finally show ?thesis by simp
qed

lemma even_number_of_xors:
  "even n \<Longrightarrow> ((\<lambda>s. s XOR (d :: 'a::len word)) ^^ n) s = s"
proof (induction n rule: nat_induct2)
  case (step n)
  then show ?case by (simp add: xor.assoc)
qed auto

end
