(* ===== verification/Cfloat.thy ===== *)
theory Cfloat
  imports Prelude
begin

text \<open>
  The \<open>float\<close> and \<open>double\<close> values of the C sources. A value is NaN, an infinity, a
  negative zero or a finite rational; every arithmetic operation computes the exact
  rational result and rounds it once to the format (round to nearest, ties to even,
  gradual underflow, overflow to infinity), as IEEE 754 and Annex F of C99 ask for.
  The formats are given by precision and largest exponent: \<open>(24, 127)\<close> for \<open>float\<close>,
  \<open>(53, 1023)\<close> for \<open>double\<close> on the communication module; on the AVR modules
  \<open>double\<close> has the format of \<open>float\<close>. All operations are executable.
  The main facts: rounding is monotone, hence so are multiplication by a positive
  constant and addition of a constant, which is what the bounds on the actuator values
  rest on.
\<close>

section \<open>Powers of two and the binary exponent\<close>

definition pow2 :: "int \<Rightarrow> rat" where
  "pow2 k = (if 0 \<le> k then 2 ^ nat k else 1 / 2 ^ nat (- k))"

lemma pow2_powi: "pow2 k = 2 powi k"
  by (simp add: pow2_def power_int_def field_simps)

lemma pow2_pos [simp]: "0 < pow2 k"
  by (simp add: pow2_def)

lemma pow2_nonneg [simp]: "0 \<le> pow2 k" "\<not> pow2 k < 0"
  using pow2_pos [of k] by (simp_all add: not_less less_imp_le del: pow2_pos)

lemma pow2_nz [simp]: "pow2 k \<noteq> 0"
  by (metis less_irrefl pow2_pos)

lemma pow2_add: "pow2 (a + b) = pow2 a * pow2 b"
  by (simp add: pow2_powi power_int_add)

lemma pow2_mono: "a \<le> b \<Longrightarrow> pow2 a \<le> pow2 b"
  by (simp add: pow2_powi power_int_increasing)

lemma pow2_less_iff [simp]: "pow2 a < pow2 b \<longleftrightarrow> a < b"
  by (metis linorder_not_less pow2_mono pow2_powi power_int_strict_increasing
      one_less_numeral_iff semiring_norm(76))

lemma pow2_nat: "pow2 (int n) = 2 ^ n"
  by (simp add: pow2_def)

text \<open>The number of binary digits, on \<open>int\<close> so that it evaluates on large numerals.\<close>

function ilen :: "int \<Rightarrow> int" where
  "ilen n = (if n \<le> 0 then 0 else 1 + ilen (n div 2))"
  by pat_completeness auto
termination
  by (relation "measure nat") auto

declare ilen.simps [simp del]

lemma ilen_nonneg: "0 \<le> ilen n"
proof (induction n rule: ilen.induct)
  case (1 n)
  then show ?case by (simp add: ilen.simps [of n])
qed

lemma ilen_bounds: "0 < n \<Longrightarrow> pow2 (ilen n - 1) \<le> of_int n \<and> of_int n < pow2 (ilen n)"
proof (induction n rule: ilen.induct)
  case (1 n)
  have step: "ilen n = 1 + ilen (n div 2)" using 1 by (simp add: ilen.simps [of n])
  show ?case
  proof (cases "n = 1")
    case True
    have "ilen 1 = 1" by (simp add: ilen.simps [of 1] ilen.simps [of 0])
    with True show ?thesis by (simp add: pow2_def)
  next
    case False
    with 1 have IH: "pow2 (ilen (n div 2) - 1) \<le> of_int (n div 2)"
        "of_int (n div 2) < pow2 (ilen (n div 2))" by auto
    let ?k = "ilen (n div 2)"
    have k: "1 \<le> ?k" using False 1 ilen_nonneg [of "n div 2 div 2"]
      by (simp add: ilen.simps [of "n div 2"])
    have two: "pow2 (?k + 1) = of_int (2 * 2 ^ nat ?k)" "pow2 ?k = of_int (2 * 2 ^ nat (?k - 1))"
        "pow2 ?k = of_int (2 ^ nat ?k)" "pow2 (?k - 1) = of_int (2 ^ nat (?k - 1))"
      using k by (simp_all add: pow2_def nat_add_distrib flip: power_Suc)
    have "2 ^ nat (?k - 1) \<le> n div 2" "n div 2 < 2 ^ nat ?k"
      using IH(1) [unfolded two(4)] IH(2) [unfolded two(3)] by (simp_all only: of_int_le_iff of_int_less_iff)
    then have "2 * 2 ^ nat (?k - 1) \<le> n" "n < 2 * 2 ^ nat ?k" by linarith+
    then have "pow2 ?k \<le> of_int n" "of_int n < pow2 (?k + 1)"
      by (simp_all only: two(1,2) of_int_le_iff of_int_less_iff)
    then show ?thesis by (simp add: step add.commute)
  qed
qed

definition ilog2 :: "rat \<Rightarrow> int" where
  "ilog2 x =
     (let (n, d) = quotient_of x; k = ilen n - ilen d
      in if pow2 k \<le> x then k else k - 1)"

lemma ilog2_bounds:
  assumes "0 < x"
  shows "pow2 (ilog2 x) \<le> x \<and> x < pow2 (ilog2 x + 1)"
proof -
  obtain n d where q: "quotient_of x = (n, d)" by fastforce
  with assms have d: "0 < d" and x: "x = of_int n / of_int d"
    by (simp_all add: quotient_of_denom_pos quotient_of_div)
  with assms have n: "0 < n" by (simp add: zero_less_divide_iff)
  let ?a = "ilen n" and ?b = "ilen d"
  have bn: "pow2 (?a - 1) \<le> of_int n" "of_int n < pow2 ?a"
    using ilen_bounds [OF n] by auto
  have bd: "pow2 (?b - 1) \<le> of_int d" "of_int d < pow2 ?b"
    using ilen_bounds [OF d] by auto
  have dq: "(0 :: rat) < of_int d" using d by simp
  have "x < pow2 ?a / of_int d"
    using bn dq by (simp add: x divide_strict_right_mono)
  also have "\<dots> \<le> pow2 ?a / pow2 (?b - 1)"
    using bd by (intro divide_left_mono mult_pos_pos dq pow2_pos) (simp_all add: less_imp_le)
  also have "\<dots> = pow2 (?a - ?b + 1)"
    using pow2_add [of "?a - ?b + 1" "?b - 1"] by (simp add: field_simps)
  finally have up: "x < pow2 (?a - ?b + 1)" .
  have "pow2 (?a - ?b - 1) = pow2 (?a - 1) / pow2 ?b"
    using pow2_add [of "?a - ?b - 1" ?b] by (simp add: field_simps)
  also have "\<dots> \<le> pow2 (?a - 1) / of_int d"
    using bd by (intro divide_left_mono mult_pos_pos dq pow2_pos) (simp_all add: less_imp_le)
  also have "\<dots> \<le> x"
    using bn dq by (simp add: x divide_right_mono)
  finally have lo: "pow2 (?a - ?b - 1) \<le> x" .
  have "ilog2 x = (if pow2 (?a - ?b) \<le> x then ?a - ?b else ?a - ?b - 1)"
    by (simp add: ilog2_def q Let_def)
  with up lo show ?thesis by auto
qed

lemma ilog2_less: "0 < x \<Longrightarrow> x < pow2 k \<Longrightarrow> ilog2 x < k"
  using ilog2_bounds [of x] by (metis order_le_less_trans pow2_less_iff)

lemma ilog2_ge: "0 < x \<Longrightarrow> pow2 k \<le> x \<Longrightarrow> k \<le> ilog2 x"
  using ilog2_bounds [of x] pow2_less_iff [of k "ilog2 x + 1"] by linarith

lemma ilog2_mono: "0 < x \<Longrightarrow> x \<le> y \<Longrightarrow> ilog2 x \<le> ilog2 y"
  using ilog2_bounds [of x] ilog2_ge [of y "ilog2 x"] by linarith

section \<open>Rounding\<close>

text \<open>To an integer, ties to even.\<close>

definition roundne :: "rat \<Rightarrow> int" where
  "roundne x =
     (let f = \<lfloor>x\<rfloor>; r = x - of_int f
      in if r < 1 / 2 then f else if 1 / 2 < r then f + 1 else if even f then f else f + 1)"

lemma roundne_of_int [simp]: "roundne (of_int k) = k"
  by (simp add: roundne_def)

lemma roundne_bounds: "\<lfloor>x\<rfloor> \<le> roundne x \<and> roundne x \<le> \<lfloor>x\<rfloor> + 1"
  by (auto simp: roundne_def Let_def)

lemma roundne_mono: "x \<le> y \<Longrightarrow> roundne x \<le> roundne y"
proof (cases "\<lfloor>x\<rfloor> = \<lfloor>y\<rfloor>")
  case True
  assume "x \<le> y"
  with True show ?thesis by (auto simp: roundne_def Let_def)
next
  case False
  assume "x \<le> y"
  then have "\<lfloor>x\<rfloor> \<le> \<lfloor>y\<rfloor>" by (rule floor_mono)
  with False have "\<lfloor>x\<rfloor> + 1 \<le> \<lfloor>y\<rfloor>" by simp
  with roundne_bounds [of x] roundne_bounds [of y] show ?thesis by linarith
qed

lemma roundne_le_int: "x \<le> of_int k \<Longrightarrow> roundne x \<le> k"
  using roundne_mono [of x "of_int k"] by simp

lemma roundne_ge_int: "of_int k \<le> x \<Longrightarrow> k \<le> roundne x"
  using roundne_mono [of "of_int k" x] by simp

lemma roundne_unit: "0 < u \<Longrightarrow> a = of_int n * u \<Longrightarrow> of_int (roundne (a / u)) * u = a"
  by simp

text \<open>A positive magnitude to a format of precision \<open>p\<close> and largest exponent \<open>em\<close>.\<close>

definition fexp :: "int \<Rightarrow> rat \<Rightarrow> int" where
  "fexp em a = max (ilog2 a) (1 - em)"

definition ulp :: "nat \<Rightarrow> int \<Rightarrow> rat \<Rightarrow> rat" where
  "ulp p em a = pow2 (fexp em a - int p + 1)"

definition mag :: "nat \<Rightarrow> int \<Rightarrow> rat \<Rightarrow> rat" where
  "mag p em a = of_int (roundne (a / ulp p em a)) * ulp p em a"

lemma ulp_pos [simp]: "0 < ulp p em a"
  by (simp add: ulp_def)

lemma mag_nonneg: "0 < a \<Longrightarrow> 0 \<le> mag p em a"
proof -
  assume "0 < a"
  then have "of_int 0 \<le> a / ulp p em a" by (simp add: less_imp_le)
  then have "0 \<le> roundne (a / ulp p em a)" by (rule roundne_ge_int)
  then show ?thesis by (simp add: mag_def less_imp_le)
qed

lemma mag_le_next:
  assumes "0 < a"
  shows "mag p em a \<le> pow2 (fexp em a + 1)"
proof -
  let ?e = "fexp em a"
  have "a < pow2 (?e + 1)"
    using ilog2_bounds [OF assms] pow2_mono [of "ilog2 a + 1" "?e + 1"]
    by (simp add: fexp_def)
  also have s: "pow2 (?e + 1) = 2 ^ p * ulp p em a"
    using pow2_add [of "int p" "?e - int p + 1"] by (simp add: ulp_def pow2_nat add.commute)
  finally have "a / ulp p em a \<le> of_int (2 ^ p)"
    by (simp add: divide_le_eq less_imp_le)
  then have "roundne (a / ulp p em a) \<le> 2 ^ p" by (rule roundne_le_int)
  then have "(of_int (roundne (a / ulp p em a)) :: rat) \<le> of_int (2 ^ p)"
    by (simp only: of_int_le_iff)
  then have "mag p em a \<le> of_int (2 ^ p) * ulp p em a"
    unfolding mag_def by (rule mult_right_mono) (simp add: less_imp_le)
  with s show ?thesis by simp
qed

lemma mag_ge_pow2:
  assumes "0 < a" "1 - em < ilog2 a" "0 < p"
  shows "pow2 (ilog2 a) \<le> mag p em a"
proof -
  let ?e = "ilog2 a"
  have e: "fexp em a = ?e" using assms(2) by (simp add: fexp_def)
  have s: "pow2 ?e = 2 ^ (p - 1) * ulp p em a"
    using pow2_add [of "int (p - 1)" "?e - int p + 1"] assms(3)
    by (simp add: ulp_def e flip: pow2_nat)
  with ilog2_bounds [OF assms(1)] have "of_int (2 ^ (p - 1)) \<le> a / ulp p em a"
    by (simp add: le_divide_eq)
  then have "2 ^ (p - 1) \<le> roundne (a / ulp p em a)" by (rule roundne_ge_int)
  then have "(of_int (2 ^ (p - 1)) :: rat) \<le> of_int (roundne (a / ulp p em a))"
    by (simp only: of_int_le_iff)
  then have "of_int (2 ^ (p - 1)) * ulp p em a \<le> mag p em a"
    unfolding mag_def by (rule mult_right_mono) (simp add: less_imp_le)
  with s show ?thesis by simp
qed

lemma mag_mono:
  assumes "0 < a" "a \<le> b" "0 < p"
  shows "mag p em a \<le> mag p em b"
proof (cases "fexp em a = fexp em b")
  case True
  then have u: "ulp p em b = ulp p em a" by (simp add: ulp_def)
  have "roundne (a / ulp p em a) \<le> roundne (b / ulp p em a)"
    using assms(2) by (intro roundne_mono divide_right_mono) (simp_all add: less_imp_le)
  then show ?thesis
    by (simp add: mag_def u mult_right_mono less_imp_le)
next
  case False
  have "ilog2 a \<le> ilog2 b" using assms by (simp add: ilog2_mono)
  with False have lt: "fexp em a + 1 \<le> ilog2 b" and big: "1 - em < ilog2 b"
    by (auto simp: fexp_def)
  have "mag p em a \<le> pow2 (fexp em a + 1)" by (rule mag_le_next [OF assms(1)])
  also have "\<dots> \<le> pow2 (ilog2 b)" using lt by (rule pow2_mono)
  also have "\<dots> \<le> mag p em b" using mag_ge_pow2 [of b em p] assms big by simp
  finally show ?thesis .
qed


text \<open>Multiples of a representable unit are not changed.\<close>

lemma mag_exact_less:
  assumes m: "0 < m" "m < 2 ^ p" and k: "2 - em - int p \<le> k"
  shows "mag p em (of_int m * pow2 k) = of_int m * pow2 k"
proof -
  let ?a = "of_int m * pow2 k :: rat"
  have a: "0 < ?a" using m by simp
  have "(of_int m :: rat) < of_int (2 ^ p)" using m(2) by (simp only: of_int_less_iff)
  then have "?a < pow2 (int p) * pow2 k" by (simp add: pow2_nat)
  then have "ilog2 ?a < int p + k" using a by (simp add: ilog2_less pow2_add)
  with k have d: "fexp em ?a - int p + 1 \<le> k" by (simp add: fexp_def)
  let ?d = "nat (k - (fexp em ?a - int p + 1))"
  from d have "pow2 (k - (fexp em ?a - int p + 1)) = 2 ^ ?d"
    by (simp add: pow2_def)
  then have "pow2 k = 2 ^ ?d * ulp p em ?a"
    using pow2_add [of "k - (fexp em ?a - int p + 1)" "fexp em ?a - int p + 1"]
    by (simp add: ulp_def)
  then have "?a = of_int m * (2 ^ ?d * ulp p em ?a)"
    by (rule arg_cong)
  then have "?a = of_int (m * 2 ^ ?d) * ulp p em ?a"
    by (simp only: of_int_mult of_int_power of_int_numeral mult.assoc)
  then show ?thesis
    unfolding mag_def by (rule roundne_unit [OF ulp_pos])
qed

lemma mag_exact:
  assumes m: "0 < m" "m \<le> 2 ^ p" and k: "2 - em - int p \<le> k" and p: "0 < p"
  shows "mag p em (of_int m * pow2 k) = of_int m * pow2 k"
proof (cases "m < 2 ^ p")
  case True
  with m k show ?thesis by (simp add: mag_exact_less)
next
  case False
  with m have "m = 2 ^ (p - 1) * 2" using p by (simp flip: power_Suc2)
  then have eq: "of_int m * pow2 k = of_int (2 ^ (p - 1)) * pow2 (k + 1)"
    by (simp add: pow2_add) (simp add: pow2_def)
  have "(2 :: int) ^ (p - 1) < 2 ^ p" using p by simp
  with k show ?thesis unfolding eq by (intro mag_exact_less) simp_all
qed

lemma mag_idem:
  assumes "0 < a" "0 < p"
  shows "mag p em a = 0 \<or> mag p em (mag p em a) = mag p em a"
proof -
  let ?n = "roundne (a / ulp p em a)" and ?k = "fexp em a - int p + 1"
  have eq: "mag p em a = of_int ?n * pow2 ?k" by (simp add: mag_def ulp_def)
  have "of_int ?n * pow2 ?k \<le> of_int (2 ^ p) * pow2 ?k"
    using mag_le_next [OF assms(1), of p em] pow2_add [of "int p" ?k]
    by (simp add: eq pow2_nat add.commute)
  then have "?n \<le> 2 ^ p" by (simp only: mult_le_cancel_right_pos pow2_pos of_int_le_iff)
  moreover have "0 \<le> ?n" by (rule roundne_ge_int) (simp add: assms less_imp_le)
  moreover have "2 - em - int p \<le> ?k" by (simp add: fexp_def)
  ultimately show ?thesis unfolding eq
    using assms(2) mag_exact [of ?n p em ?k] by (cases "?n = 0") auto
qed

text \<open>A signed rational.\<close>

definition smag :: "nat \<Rightarrow> int \<Rightarrow> rat \<Rightarrow> rat" where
  "smag p em x = (if x = 0 then 0 else if x < 0 then - mag p em (- x) else mag p em x)"

lemma smag_mono:
  assumes "x \<le> y" "0 < p"
  shows "smag p em x \<le> smag p em y"
proof -
  consider "0 < x" | "y < 0" | "x \<le> 0" "0 \<le> y" using assms by linarith
  then show ?thesis
  proof cases
    case 1
    then show ?thesis using assms by (simp add: smag_def mag_mono)
  next
    case 2
    then show ?thesis using assms mag_mono [of "- y" "- x" p em] by (simp add: smag_def)
  next
    case 3
    have "smag p em x \<le> 0" using 3 mag_nonneg [of "- x" p em] by (simp add: smag_def)
    also have "0 \<le> smag p em y" using 3 mag_nonneg [of y p em] by (simp add: smag_def)
    finally show ?thesis .
  qed
qed

lemma smag_idem: "0 < p \<Longrightarrow> smag p em (smag p em x) = smag p em x"
  using mag_idem [of x p em] mag_idem [of "- x" p em] mag_nonneg [of x p em] mag_nonneg [of "- x" p em]
  by (auto simp: smag_def)


section \<open>Values\<close>

text \<open>\<open>Inf True\<close> is minus infinity; \<open>Fin 0\<close> is the positive zero.\<close>

datatype fp = NaN | Inf bool | NZero | Fin rat

primrec fval :: "fp \<Rightarrow> rat" where
  "fval (Fin x) = x"
| "fval NZero = 0"
| "fval NaN = 0"
| "fval (Inf s) = 0"

primrec is_fin :: "fp \<Rightarrow> bool" where
  "is_fin (Fin x) = True"
| "is_fin NZero = True"
| "is_fin NaN = False"
| "is_fin (Inf s) = False"

text \<open>The sign bit.\<close>

primrec is_neg :: "fp \<Rightarrow> bool" where
  "is_neg (Fin x) = (x < 0)"
| "is_neg NZero = True"
| "is_neg NaN = False"
| "is_neg (Inf s) = s"

definition rnd :: "nat \<Rightarrow> int \<Rightarrow> rat \<Rightarrow> fp" where
  "rnd p em x =
     (let r = smag p em x
      in if pow2 (em + 1) \<le> r then Inf False
         else if r \<le> - pow2 (em + 1) then Inf True
         else if r = 0 \<and> x < 0 then NZero else Fin r)"

lemma is_fin_not [simp]: "is_fin a \<Longrightarrow> a \<noteq> NaN" "is_fin a \<Longrightarrow> a \<noteq> Inf s"
  by auto

lemma rnd_not_NaN [simp]: "rnd p em x \<noteq> NaN" "NaN \<noteq> rnd p em x"
  by (auto simp: rnd_def Let_def)

lemma rnd_idem: "0 < p \<Longrightarrow> rnd p em x = Fin r \<Longrightarrow> rnd p em r = Fin r"
  by (auto simp: rnd_def Let_def smag_idem split: if_splits)

subsection \<open>Evaluating a rounding in integers\<close>

function ip2 :: "int \<Rightarrow> int" where
  "ip2 k = (if k \<le> 0 then 1 else if even k then (let h = ip2 (k div 2) in h * h) else 2 * ip2 (k - 1))"
  by pat_completeness auto
termination
  by (relation "measure nat") auto

declare ip2.simps [simp del]

lemma ip2_eq: "0 \<le> k \<Longrightarrow> ip2 k = 2 ^ nat k"
proof (induction k rule: ip2.induct)
  case (1 k)
  consider "k = 0" | "0 < k" "even k" | "0 < k" "odd k" using 1 by linarith
  then show ?case
  proof cases
    case 1
    then show ?thesis by (simp add: ip2.simps [of 0])
  next
    case 2
    then obtain j where j: "k = 2 * j" "0 < j" by (auto elim: evenE)
    then have "nat k = nat j + nat j" by arith
    with 2 j "1.IH"(1) show ?thesis by (simp add: ip2.simps [of "2 * j"] Let_def power_add)
  next
    case 3
    then have "nat k = Suc (nat (k - 1))" by arith
    with 3 "1.IH"(2) show ?thesis by (simp add: ip2.simps [of k])
  qed
qed

lemma pow2_ip2: "pow2 k = (if 0 \<le> k then of_int (ip2 k) else 1 / of_int (ip2 (- k)))"
  by (simp add: pow2_def ip2_eq)

definition round_div :: "int \<Rightarrow> int \<Rightarrow> int" where
  "round_div a b =
     (let f = a div b; r = 2 * (a mod b)
      in if r < b then f else if b < r then f + 1 else if even f then f else f + 1)"

lemma frac_half:
  assumes "0 < b"
  shows "(of_int r / of_int b :: rat) < 1 / 2 \<longleftrightarrow> 2 * r < b"
    and "1 / 2 < (of_int r / of_int b :: rat) \<longleftrightarrow> b < 2 * r"
proof -
  have b: "(0 :: rat) < of_int b" using assms by simp
  have "(of_int r / of_int b :: rat) < 1 / 2 \<longleftrightarrow> (of_int (2 * r) :: rat) < of_int b"
    using b by (simp add: divide_less_eq mult.commute)
  then show "(of_int r / of_int b :: rat) < 1 / 2 \<longleftrightarrow> 2 * r < b"
    by (simp only: of_int_less_iff)
  have "1 / 2 < (of_int r / of_int b :: rat) \<longleftrightarrow> (of_int b :: rat) < of_int (2 * r)"
    using b by (simp add: less_divide_eq mult.commute)
  then show "1 / 2 < (of_int r / of_int b :: rat) \<longleftrightarrow> b < 2 * r"
    by (simp only: of_int_less_iff)
qed

lemma roundne_div:
  assumes "0 < b"
  shows "roundne (of_int a / of_int b) = round_div a b"
proof -
  have f: "\<lfloor>of_int a / of_int b :: rat\<rfloor> = a div b" by (simp add: floor_divide_of_int_eq)
  have b: "(0 :: rat) < of_int b" using assms by simp
  have "(of_int a :: rat) = of_int b * of_int (a div b) + of_int (a mod b)"
    by (metis mult_div_mod_eq of_int_add of_int_mult)
  then have "(of_int a / of_int b :: rat) = (of_int b * of_int (a div b) + of_int (a mod b)) / of_int b"
    by (rule arg_cong)
  also have "\<dots> = of_int (a div b) + of_int (a mod b) / of_int b"
    using b by (simp add: add_divide_distrib)
  finally have r: "of_int a / of_int b - of_int (a div b) = (of_int (a mod b) / of_int b :: rat)"
    by (simp only: add_diff_cancel_left')
  show ?thesis
    unfolding roundne_def round_div_def Let_def f r frac_half [OF assms] by simp
qed

definition scale_num :: "int \<Rightarrow> int \<Rightarrow> int" where
  "scale_num t a = (if t \<le> 0 then a * ip2 (- t) else a)"

definition scale_den :: "int \<Rightarrow> int \<Rightarrow> int" where
  "scale_den t d = (if t \<le> 0 then d else d * ip2 t)"

lemma scale:
  assumes "0 < d"
  shows "of_int a / of_int d / pow2 t = of_int (scale_num t a) / (of_int (scale_den t d) :: rat)"
    and "0 < scale_den t d"
  using assms by (auto simp: scale_num_def scale_den_def pow2_def ip2_eq field_simps)

lemma ilog2_code [code]:
  "ilog2 x =
     (let (n, d) = quotient_of x; k = ilen n - ilen d
      in if scale_den k d \<le> scale_num k n then k else k - 1)"
proof -
  obtain n d where q: "quotient_of x = (n, d)" by fastforce
  then have d: "0 < d" and x: "x = of_int n / of_int d"
    by (simp_all add: quotient_of_denom_pos quotient_of_div)
  have "pow2 k \<le> x \<longleftrightarrow> 1 \<le> x / pow2 k" for k by (simp add: le_divide_eq)
  also have "\<dots> k \<longleftrightarrow> scale_den k d \<le> scale_num k n" for k
    using scale(2) [OF d, of k] unfolding x scale(1) [OF d]
    by (simp add: le_divide_eq)
  finally show ?thesis by (simp add: ilog2_def q Let_def)
qed

lemma mag_code [code]:
  "mag p em a =
     (let (n, d) = quotient_of a; t = fexp em a - int p + 1;
          m = round_div (scale_num t n) (scale_den t d)
      in if 0 \<le> t then of_int (m * ip2 t) else of_int m / of_int (ip2 (- t)))"
proof -
  obtain n d where q: "quotient_of a = (n, d)" by fastforce
  then have d: "0 < d" and a: "a = of_int n / of_int d"
    by (simp_all add: quotient_of_denom_pos quotient_of_div)
  let ?t = "fexp em a - int p + 1"
  have "roundne (a / pow2 ?t) = round_div (scale_num ?t n) (scale_den ?t d)"
    unfolding roundne_div [OF scale(2) [OF d, of ?t], symmetric] scale(1) [OF d, symmetric]
    by (simp only: a [symmetric])
  then show ?thesis
    by (simp add: mag_def ulp_def q Let_def pow2_ip2 [of ?t])
qed

declare pow2_ip2 [code]

text \<open>The overflow test is needed in the last binade only.\<close>

lemma rnd_code [code]:
  "rnd p em x =
     (let r = smag p em x
      in if em \<le> fexp em \<bar>x\<bar> \<and> pow2 (em + 1) \<le> r then Inf False
         else if em \<le> fexp em \<bar>x\<bar> \<and> r \<le> - pow2 (em + 1) then Inf True
         else if r = 0 \<and> x < 0 then NZero else Fin r)"
proof -
  have *: "mag p em a < pow2 (em + 1)" if "0 < a" "fexp em a < em" for a
    using mag_le_next [OF that(1), of p em] that(2) pow2_less_iff [of "fexp em a + 1" "em + 1"]
    by linarith
  have neg: "- smag p em x = smag p em (- x)" by (simp add: smag_def)
  have big: "em \<le> fexp em \<bar>y\<bar>" if "pow2 (em + 1) \<le> smag p em y" for y
  proof (rule ccontr)
    assume "\<not> em \<le> fexp em \<bar>y\<bar>"
    moreover have "0 < y"
    proof (rule ccontr)
      assume "\<not> 0 < y"
      then have "smag p em y \<le> 0" using mag_nonneg [of "- y" p em] by (simp add: smag_def)
      with that pow2_pos [of "em + 1"] show False by linarith
    qed
    ultimately have "smag p em y < pow2 (em + 1)" using * [of y] by (simp add: smag_def)
    with that show False by simp
  qed
  have e1: "(em \<le> fexp em \<bar>x\<bar> \<and> pow2 (em + 1) \<le> smag p em x) = (pow2 (em + 1) \<le> smag p em x)"
    using big [of x] by blast
  have e2: "(em \<le> fexp em \<bar>x\<bar> \<and> smag p em x \<le> - pow2 (em + 1)) = (smag p em x \<le> - pow2 (em + 1))"
    using big [of "- x"] neg by auto
  show ?thesis unfolding rnd_def Let_def e1 e2 by simp
qed

section \<open>Comparison\<close>

definition fle :: "fp \<Rightarrow> fp \<Rightarrow> bool" where
  "fle a b \<longleftrightarrow> a \<noteq> NaN \<and> b \<noteq> NaN \<and>
     (a = Inf True \<or> b = Inf False \<or> is_fin a \<and> is_fin b \<and> fval a \<le> fval b)"

definition flt :: "fp \<Rightarrow> fp \<Rightarrow> bool" where
  "flt a b \<longleftrightarrow> a \<noteq> NaN \<and> b \<noteq> NaN \<and> \<not> fle b a"

lemma fle_refl [fp_order]: "fle a a \<longleftrightarrow> a \<noteq> NaN"
  by (cases a) (auto simp: fle_def)

lemma fle_trans [fp_order]: "fle a b \<Longrightarrow> fle b c \<Longrightarrow> fle a c"
  by (cases a; cases b; cases c) (auto simp: fle_def)

lemma fle_total: "a \<noteq> NaN \<Longrightarrow> b \<noteq> NaN \<Longrightarrow> fle a b \<or> fle b a"
  by (cases a; cases b) (auto simp: fle_def)

lemma flt_imp_fle: "flt a b \<Longrightarrow> fle a b"
  using fle_total [of a b] by (auto simp: flt_def)

lemma flt_NaN [simp]: "\<not> flt NaN b" "\<not> flt a NaN"
  by (simp_all add: flt_def)

lemma fle_NaN [simp]: "\<not> fle NaN b" "\<not> fle a NaN"
  by (simp_all add: fle_def)

lemma fle_fin: "is_fin a \<Longrightarrow> is_fin b \<Longrightarrow> fle a b \<longleftrightarrow> fval a \<le> fval b"
  by (cases a; cases b) (auto simp: fle_def)

lemma flt_fin: "is_fin a \<Longrightarrow> is_fin b \<Longrightarrow> flt a b \<longleftrightarrow> fval a < fval b"
  by (cases a; cases b) (auto simp: flt_def fle_def)

lemma fle_between_fin: "fle (Fin l) a \<Longrightarrow> fle a (Fin h) \<Longrightarrow> is_fin a \<and> l \<le> fval a \<and> fval a \<le> h"
  by (cases a) (auto simp: fle_def)

lemma fle_NZero: "fle NZero a = fle (Fin 0) a" "fle a NZero = fle a (Fin 0)"
  by (cases a; auto simp: fle_def)+

lemma rnd_mono:
  assumes "x \<le> y" "0 < p"
  shows "fle (rnd p em x) (rnd p em y)"
  using smag_mono [OF assms, of em] pow2_pos [of "em + 1"]
  by (auto simp: rnd_def Let_def fle_def simp del: pow2_pos)

section \<open>Arithmetic\<close>

primrec fneg :: "fp \<Rightarrow> fp" where
  "fneg (Fin x) = (if x = 0 then NZero else Fin (- x))"
| "fneg NZero = Fin 0"
| "fneg NaN = NaN"
| "fneg (Inf s) = Inf (\<not> s)"

definition szero :: "bool \<Rightarrow> fp" where
  "szero s = (if s then NZero else Fin 0)"

definition fadd :: "nat \<Rightarrow> int \<Rightarrow> fp \<Rightarrow> fp \<Rightarrow> fp" where
  "fadd p em a b =
     (if a = NaN \<or> b = NaN then NaN
      else case (a, b) of
        (Inf s, Inf t) \<Rightarrow> if s = t then Inf s else NaN
      | (Inf s, _) \<Rightarrow> Inf s
      | (_, Inf t) \<Rightarrow> Inf t
      | (NZero, NZero) \<Rightarrow> NZero
      | _ \<Rightarrow> rnd p em (fval a + fval b))"

definition fsub :: "nat \<Rightarrow> int \<Rightarrow> fp \<Rightarrow> fp \<Rightarrow> fp" where
  "fsub p em a b = fadd p em a (fneg b)"

definition fmul :: "nat \<Rightarrow> int \<Rightarrow> fp \<Rightarrow> fp \<Rightarrow> fp" where
  "fmul p em a b =
     (let s = (is_neg a \<noteq> is_neg b)
      in if a = NaN \<or> b = NaN then NaN
         else if is_fin a \<and> is_fin b then
           (if fval a * fval b = 0 then szero s else rnd p em (fval a * fval b))
         else if is_fin a \<and> fval a = 0 \<or> is_fin b \<and> fval b = 0 then NaN
         else Inf s)"

definition fdiv :: "nat \<Rightarrow> int \<Rightarrow> fp \<Rightarrow> fp \<Rightarrow> fp" where
  "fdiv p em a b =
     (let s = (is_neg a \<noteq> is_neg b)
      in if a = NaN \<or> b = NaN then NaN
         else if \<not> is_fin a then (if is_fin b then Inf s else NaN)
         else if \<not> is_fin b then szero s
         else if fval b = 0 then (if fval a = 0 then NaN else Inf s)
         else if fval a = 0 then szero s else rnd p em (fval a / fval b))"

text \<open>Conversion between the formats, and truncation to an integer (\<open>None\<close> where C leaves
  the conversion undefined).\<close>

primrec fconv :: "nat \<Rightarrow> int \<Rightarrow> fp \<Rightarrow> fp" where
  "fconv p em (Fin x) = rnd p em x"
| "fconv p em NZero = NZero"
| "fconv p em NaN = NaN"
| "fconv p em (Inf s) = Inf s"

definition ftrunc :: "fp \<Rightarrow> int option" where
  "ftrunc a = (if is_fin a then Some (if fval a < 0 then - \<lfloor>- fval a\<rfloor> else \<lfloor>fval a\<rfloor>) else None)"


lemma szero_simps [simp]: "is_fin (szero s)" "fval (szero s) = 0" "szero s \<noteq> NaN"
  by (simp_all add: szero_def)

lemma fneg_simps [simp]: "is_fin (fneg a) = is_fin a" "fval (fneg a) = - fval a"
  "fneg a = NaN \<longleftrightarrow> a = NaN"
  by (cases a; simp)+

lemma fneg_fneg [simp]: "fneg (fneg a) = a"
  by (cases a) auto

lemma fle_szero: "fle (szero s) a = fle (Fin 0) a" "fle a (szero s) = fle a (Fin 0)"
  by (simp_all add: szero_def fle_NZero)

lemma rnd_zero [simp]: "rnd p em 0 = Fin 0"
  using pow2_pos [of "em + 1"] by (simp add: rnd_def smag_def not_le del: pow2_pos)

text \<open>Up to the sign of a zero, the product of finite values is the rounded exact product.\<close>

lemma fle_fmul_fin:
  assumes "is_fin a" "is_fin b"
  shows "fle (fmul p em a b) c = fle (rnd p em (fval a * fval b)) c"
    and "fle c (fmul p em a b) = fle c (rnd p em (fval a * fval b))"
  using assms by (auto simp: fmul_def fle_szero Let_def)

lemma fle_fadd_fin:
  assumes "is_fin a" "is_fin b"
  shows "fle (fadd p em a b) c = fle (rnd p em (fval a + fval b)) c"
    and "fle c (fadd p em a b) = fle c (rnd p em (fval a + fval b))"
  using assms by (cases a; cases b; auto simp: fadd_def fle_NZero)+

lemma fle_fdiv_fin:
  assumes "is_fin a" "is_fin b" "fval b \<noteq> 0"
  shows "fle (fdiv p em a b) c = fle (rnd p em (fval a / fval b)) c"
    and "fle c (fdiv p em a b) = fle c (rnd p em (fval a / fval b))"
  using assms by (auto simp: fdiv_def fle_szero Let_def)

text \<open>Monotonicity of the operations the actuator values go through.\<close>

lemma fmul_mono [fp_order]:
  assumes "is_fin a" "is_fin b" "is_fin c" "fval a \<le> fval b" "0 \<le> fval c" "0 < p"
  shows "fle (fmul p em a c) (fmul p em b c)"
  using assms by (simp add: fle_fmul_fin rnd_mono mult_right_mono)

lemma fadd_mono [fp_order]:
  assumes "is_fin a" "is_fin b" "is_fin c" "fval a \<le> fval b" "0 < p"
  shows "fle (fadd p em c a) (fadd p em c b)"
  using assms by (simp add: fle_fadd_fin rnd_mono)

lemma fdiv_mono [fp_order]:
  assumes "is_fin a" "is_fin b" "is_fin c" "fval a \<le> fval b" "0 < fval c" "0 < p"
  shows "fle (fdiv p em a c) (fdiv p em b c)"
  using assms by (simp add: fle_fdiv_fin rnd_mono divide_right_mono)

text \<open>
  A finite value between two others. A chain of monotone operations keeps it between the
  results of the ends, as long as those stay finite.
\<close>

definition between :: "fp \<Rightarrow> fp \<Rightarrow> fp \<Rightarrow> bool" where
  "between a x b \<longleftrightarrow> is_fin a \<and> is_fin x \<and> is_fin b \<and> fval a \<le> fval x \<and> fval x \<le> fval b"

definition fmono :: "(fp \<Rightarrow> fp) \<Rightarrow> bool" where
  "fmono f \<longleftrightarrow> (\<forall>a b. is_fin a \<longrightarrow> is_fin b \<longrightarrow> fval a \<le> fval b \<longrightarrow> fle (f a) (f b))"

lemma betweenI: "fle a x \<Longrightarrow> fle x b \<Longrightarrow> is_fin a \<Longrightarrow> is_fin b \<Longrightarrow> between a x b"
  by (cases a; cases x; cases b) (auto simp: between_def fle_def)

lemma between_fmono:
  assumes "between a x b" "fmono f" "is_fin (f a)" "is_fin (f b)"
  shows "between (f a) (f x) (f b)"
  using assms by (intro betweenI) (auto simp: between_def fmono_def)

lemma fmono_mul: "is_fin c \<Longrightarrow> 0 \<le> fval c \<Longrightarrow> 0 < p \<Longrightarrow> fmono (\<lambda>x. fmul p em x c)"
  by (simp add: fmono_def fmul_mono)

lemma fmul_commute: "fmul p em a b = fmul p em b a"
  by (cases a; cases b) (auto simp: fmul_def Let_def mult.commute)

lemma fmono_mul_left: "is_fin c \<Longrightarrow> 0 \<le> fval c \<Longrightarrow> 0 < p \<Longrightarrow> fmono (\<lambda>x. fmul p em c x)"
  using fmono_mul [of c p em] by (simp add: fmul_commute [of p em c])

lemma fmono_add: "is_fin c \<Longrightarrow> 0 < p \<Longrightarrow> fmono (\<lambda>x. fadd p em c x)"
  by (simp add: fmono_def fadd_mono)

lemma fmono_div: "is_fin c \<Longrightarrow> 0 < fval c \<Longrightarrow> 0 < p \<Longrightarrow> fmono (\<lambda>x. fdiv p em x c)"
  by (simp add: fmono_def fdiv_mono)

lemma trunc_mono:
  fixes r s :: rat
  assumes "r \<le> s"
  shows "(if r < 0 then - \<lfloor>- r\<rfloor> else \<lfloor>r\<rfloor>) \<le> (if s < 0 then - \<lfloor>- s\<rfloor> else \<lfloor>s\<rfloor>)"
proof -
  consider "s < 0" | "0 \<le> r" | "r < 0" "0 \<le> s" by linarith
  then show ?thesis
  proof cases
    case 1
    with assms show ?thesis by (simp add: floor_mono)
  next
    case 2
    with assms show ?thesis by (simp add: floor_mono)
  next
    case 3
    then have "0 \<le> \<lfloor>- r\<rfloor>" "0 \<le> \<lfloor>s\<rfloor>" by simp_all
    then have "- \<lfloor>- r\<rfloor> \<le> \<lfloor>s\<rfloor>" by linarith
    with 3 show ?thesis by simp
  qed
qed

text \<open>Truncation of a value between two others lies between theirs.\<close>

lemma between_ftrunc:
  assumes "between a x b" "ftrunc a = Some l" "ftrunc b = Some h"
  shows "\<exists>k. ftrunc x = Some k \<and> l \<le> k \<and> k \<le> h"
  using assms trunc_mono [of "fval a" "fval x"] trunc_mono [of "fval x" "fval b"]
  by (auto simp: between_def ftrunc_def split del: if_split)

lemma ftrunc_bounds:
  assumes "is_fin a" "of_int l \<le> fval a" "fval a < of_int h" "0 \<le> l"
  shows "\<exists>k. ftrunc a = Some k \<and> l \<le> k \<and> k < h"
proof -
  have "(0 :: rat) \<le> of_int l" using assms(4) by simp
  with assms have "0 \<le> fval a" by linarith
  with assms show ?thesis by (auto simp: ftrunc_def le_floor_iff floor_less_iff)
qed

section \<open>The formats of the program\<close>

text \<open>\<open>float\<close> everywhere and \<open>double\<close> on the AVR; \<open>double\<close> on the communication module.\<close>

abbreviation f32 :: "rat \<Rightarrow> fp" where "f32 \<equiv> rnd 24 127"
abbreviation f64 :: "rat \<Rightarrow> fp" where "f64 \<equiv> rnd 53 1023"
abbreviation add32 :: "fp \<Rightarrow> fp \<Rightarrow> fp" where "add32 \<equiv> fadd 24 127"
abbreviation sub32 :: "fp \<Rightarrow> fp \<Rightarrow> fp" where "sub32 \<equiv> fsub 24 127"
abbreviation mul32 :: "fp \<Rightarrow> fp \<Rightarrow> fp" where "mul32 \<equiv> fmul 24 127"
abbreviation div32 :: "fp \<Rightarrow> fp \<Rightarrow> fp" where "div32 \<equiv> fdiv 24 127"
abbreviation to32 :: "fp \<Rightarrow> fp" where "to32 \<equiv> fconv 24 127"
abbreviation sub64 :: "fp \<Rightarrow> fp \<Rightarrow> fp" where "sub64 \<equiv> fsub 53 1023"
abbreviation add64 :: "fp \<Rightarrow> fp \<Rightarrow> fp" where "add64 \<equiv> fadd 53 1023"
abbreviation div64 :: "fp \<Rightarrow> fp \<Rightarrow> fp" where "div64 \<equiv> fdiv 53 1023"
abbreviation mul64 :: "fp \<Rightarrow> fp \<Rightarrow> fp" where "mul64 \<equiv> fmul 53 1023"

text \<open>A value a variable of the format can hold.\<close>

definition fp_ok :: "nat \<Rightarrow> int \<Rightarrow> fp \<Rightarrow> bool" where
  "fp_ok p em a = (case a of Fin x \<Rightarrow> rnd p em x = Fin x | _ \<Rightarrow> True)"

lemma fp_ok_simps [simp]:
  "fp_ok p em NaN" "fp_ok p em (Inf s)" "fp_ok p em NZero" "fp_ok p em (Fin 0)"
  "fp_ok p em (szero s)"
  by (simp_all add: fp_ok_def szero_def)

lemma fp_ok_rnd [simp]: "0 < p \<Longrightarrow> fp_ok p em (rnd p em x)"
  using rnd_idem [of p em x] by (auto simp: fp_ok_def split: fp.splits)

lemma fp_ok_ops [simp]:
  "0 < p \<Longrightarrow> fp_ok p em (fadd p em a b)"
  "0 < p \<Longrightarrow> fp_ok p em (fsub p em a b)"
  "0 < p \<Longrightarrow> fp_ok p em (fmul p em a b)"
  "0 < p \<Longrightarrow> fp_ok p em (fdiv p em a b)"
  "0 < p \<Longrightarrow> fp_ok p em (fconv p em a)"
  by (auto simp: fadd_def fsub_def fmul_def fdiv_def Let_def split: fp.split)
     (cases a; simp)


section \<open>The 32-bit representation\<close>

text \<open>
  What the four bytes of a \<open>float\<close> mean, and the bytes of a value. All NaNs are one
  value here; it is written as the quiet NaN with an empty payload.
\<close>

definition bits32 :: "fp \<Rightarrow> u32" where
  "bits32 a =
     (case a of
        NaN \<Rightarrow> 0x7FC00000
      | Inf s \<Rightarrow> (if s then 0xFF800000 else 0x7F800000)
      | NZero \<Rightarrow> 0x80000000
      | Fin x \<Rightarrow>
          if x = 0 then 0
          else let e = fexp 127 \<bar>x\<bar>;
                   m = \<lfloor>\<bar>x\<bar> / pow2 (e - 23)\<rfloor>;
                   f = (if m < 2 ^ 23 then m else (e + 127) * 2 ^ 23 + (m - 2 ^ 23))
               in word_of_int (if x < 0 then 2 ^ 31 + f else f))"

definition of_bits32 :: "u32 \<Rightarrow> fp" where
  "of_bits32 w =
     (let n = uint w; s = (2 ^ 31 \<le> n); e = n div 2 ^ 23 mod 2 ^ 8; m = n mod 2 ^ 23;
          v = (if e = 0 then of_int m * pow2 (- 149)
               else of_int (2 ^ 23 + m) * pow2 (e - 150))
      in if e = 255 then (if m = 0 then Inf s else NaN)
         else if v = 0 then szero s
         else Fin (if s then - v else v))"


lemma of_bits32_fields:
  assumes "0 \<le> E" "E < 255" "0 \<le> M" "M < 2 ^ 23"
    and "v = (if E = 0 then of_int M * pow2 (- 149) else of_int (2 ^ 23 + M) * pow2 (E - 150))"
    and "v \<noteq> 0"
  shows "of_bits32 (word_of_int ((if s then 2 ^ 31 else 0) + (E * 2 ^ 23 + M))) = Fin (if s then - v else v)"
proof -
  let ?f = "E * 2 ^ 23 + M" and ?n = "(if s then 2 ^ 31 else 0) + (E * 2 ^ 23 + M)"
  have r: "0 \<le> ?f" "?f < 2 ^ 31" using assms by auto
  then have n: "0 \<le> ?n" "?n < 2 ^ LENGTH(32)" by auto
  have u: "uint (word_of_int ?n :: u32) = ?n"
    unfolding uint_word_of_int using n by (rule mod_pos_pos_trivial)
  have s: "2 ^ 31 \<le> ?n \<longleftrightarrow> s" using r by auto
  have "?n = M + ((if s then 2 ^ 8 else 0) + E) * 2 ^ 23" by simp
  then have "?n div 2 ^ 23 = (if s then 2 ^ 8 else 0) + E" and m: "?n mod 2 ^ 23 = M"
    using assms by (simp_all only: div_mult_self1 mod_mult_self1) auto
  then have e: "?n div 2 ^ 23 mod 2 ^ 8 = E" using assms by auto
  show ?thesis
    unfolding of_bits32_def Let_def u s m e assms(5) [symmetric] using assms(2,6) by simp
qed

lemma mag_fix_decomp:
  assumes X: "0 < X" and fx: "mag 24 127 X = X" and small: "X < pow2 128"
  defines "e \<equiv> fexp 127 X"
  defines "N \<equiv> \<lfloor>X / pow2 (e - 23)\<rfloor>"
  shows "X = of_int N * pow2 (e - 23)" "0 < N" "N < 2 ^ 24" "e \<le> 127"
    and "N < 2 ^ 23 \<Longrightarrow> e = - 126" "- 126 \<le> e"
proof -
  have u: "ulp 24 127 X = pow2 (e - 23)" by (simp add: ulp_def e_def)
  have "X / pow2 (e - 23) = of_int (roundne (X / pow2 (e - 23)))"
    using fx by (simp add: mag_def u field_simps)
  then have NX: "X / pow2 (e - 23) = of_int N"
    unfolding N_def by (metis floor_of_int)
  then show eq: "X = of_int N * pow2 (e - 23)" by (simp add: field_simps)
  show "0 < N" using X eq by (simp add: zero_less_mult_iff)
  have lo: "X < pow2 (e + 1)"
    using ilog2_bounds [OF X] pow2_mono [of "ilog2 X + 1" "e + 1"] by (simp add: e_def fexp_def)
  have "pow2 (e + 1) = of_int (2 ^ 24) * pow2 (e - 23)"
    using pow2_add [of 24 "e - 23"] by (simp add: pow2_def [of 24] add.commute)
  with lo eq have "of_int N * pow2 (e - 23) < of_int (2 ^ 24) * pow2 (e - 23)" by simp
  then show "N < 2 ^ 24" by (simp only: mult_less_cancel_right_pos pow2_pos of_int_less_iff)
  have "ilog2 X < 128" using X small by (rule ilog2_less)
  then show "e \<le> 127" by (simp add: e_def fexp_def)
  show "- 126 \<le> e" by (simp add: e_def fexp_def)
  show "e = - 126" if "N < 2 ^ 23"
  proof (rule ccontr)
    assume "e \<noteq> - 126"
    then have "ilog2 X = e" by (auto simp: e_def fexp_def)
    then have "pow2 e \<le> X" using ilog2_bounds [OF X] by simp
    moreover have "pow2 e = of_int (2 ^ 23) * pow2 (e - 23)"
      using pow2_add [of 23 "e - 23"] by (simp add: pow2_def [of 23])
    ultimately have "of_int (2 ^ 23) * pow2 (e - 23) \<le> of_int N * pow2 (e - 23)" using eq by simp
    then have "2 ^ 23 \<le> N" by (simp only: mult_le_cancel_right_pos pow2_pos of_int_le_iff)
    with that show False by simp
  qed
qed

lemma of_bits32_bits32_Fin:
  assumes "fp_ok 24 127 (Fin x)" "x \<noteq> 0"
  shows "of_bits32 (bits32 (Fin x)) = Fin x"
proof -
  let ?X = "\<bar>x\<bar>" and ?e = "fexp 127 \<bar>x\<bar>"
  let ?N = "\<lfloor>?X / pow2 (?e - 23)\<rfloor>"
  from assms have "rnd 24 127 x = Fin x" by (simp add: fp_ok_def)
  then have "smag 24 127 x = x" "x < pow2 128" "- pow2 128 < x"
    by (auto simp: rnd_def Let_def split: if_splits)
  then have d: "mag 24 127 ?X = ?X" "?X < pow2 128" "0 < ?X"
    using assms(2) by (auto simp: smag_def split: if_splits)
  note N = mag_fix_decomp [OF d(3,1,2)]
  let ?E = "if ?N < 2 ^ 23 then 0 else ?e + 127" and ?M = "if ?N < 2 ^ 23 then ?N else ?N - 2 ^ 23"
  have "of_bits32 (word_of_int ((if x < 0 then 2 ^ 31 else 0) + (?E * 2 ^ 23 + ?M)))
      = Fin (if x < 0 then - ?X else ?X)"
    using N assms(2) by (intro of_bits32_fields) (auto simp: zero_le_divide_iff)
  also have "word_of_int ((if x < 0 then 2 ^ 31 else 0) + (?E * 2 ^ 23 + ?M)) = bits32 (Fin x)"
    using assms(2) by (simp add: bits32_def Let_def)
  finally show ?thesis by auto
qed

lemma of_bits32_special:
  "of_bits32 0x7FC00000 = NaN" "of_bits32 0xFF800000 = Inf True" "of_bits32 0x7F800000 = Inf False"
  "of_bits32 0x80000000 = NZero" "of_bits32 0 = Fin 0"
  by code_simp+

text \<open>Storing a value in the four bytes of a \<open>float\<close> and reading it back gives the value.\<close>

lemma of_bits32_bits32 [simp]:
  assumes "fp_ok 24 127 a"
  shows "of_bits32 (bits32 a) = a"
proof (cases a)
  case (Fin x)
  have "bits32 (Fin 0) = 0" by (simp add: bits32_def)
  with assms Fin show ?thesis
    using of_bits32_bits32_Fin [of x] by (cases "x = 0") (simp_all only: of_bits32_special not_False_eq_True simp_thms)
next
  case (Inf s)
  then show ?thesis by (cases s) (simp_all only: bits32_def fp.case if_True if_False of_bits32_special)
qed (simp_all only: bits32_def fp.case of_bits32_special)


text \<open>The bytes in memory: both processors are little-endian.\<close>

definition bytes32 :: "u32 \<Rightarrow> u8 list" where
  "bytes32 w = [ucast w, ucast (drop_bit 8 w), ucast (drop_bit 16 w), ucast (drop_bit 24 w)]"

definition le32 :: "u8 list \<Rightarrow> u32" where
  "le32 bs = ucast (bs ! 0) OR push_bit 8 (ucast (bs ! 1)) OR push_bit 16 (ucast (bs ! 2))
     OR push_bit 24 (ucast (bs ! 3))"

definition float_bytes :: "fp \<Rightarrow> u8 list" where
  "float_bytes a = bytes32 (bits32 a)"

definition bytes_float :: "u8 list \<Rightarrow> fp" where
  "bytes_float bs = of_bits32 (le32 bs)"

lemma length_float_bytes [simp]: "length (float_bytes a) = 4"
  by (simp add: float_bytes_def bytes32_def)

lemma le32_bytes32 [simp]: "le32 (bytes32 w) = w"
proof -
  have e: "le32 (bytes32 w) =
      ucast (ucast w :: u8) OR push_bit 8 (ucast (ucast (drop_bit 8 w) :: u8))
      OR push_bit 16 (ucast (ucast (drop_bit 16 w) :: u8)) OR push_bit 24 (ucast (ucast (drop_bit 24 w) :: u8))"
    by (simp add: le32_def bytes32_def)
  show ?thesis
  proof (rule bit_word_eqI)
    fix n
    assume "n < LENGTH(32)"
    then have n: "n < 32" by simp
    consider "n < 8" | "8 \<le> n" "n < 16" | "16 \<le> n" "n < 24" | "24 \<le> n" by linarith
    then show "bit (le32 (bytes32 w)) n = bit w n"
      unfolding e using n
      by cases (simp_all add: bit_or_iff bit_push_bit_iff bit_ucast_iff bit_drop_bit_eq, auto)
  qed
qed

lemma bytes_float_roundtrip [simp]: "fp_ok 24 127 a \<Longrightarrow> bytes_float (float_bytes a) = a"
  by (simp add: bytes_float_def float_bytes_def)

section \<open>The clock of the AVR modules\<close>

text \<open>\<open>F_CPU\<close> as the Makefile defines it, in the expressions where it meets a \<open>double\<close>.\<close>

definition F_CPU :: fp where
  "F_CPU = f32 16000000"

lemma F_CPU_value [code]: "F_CPU = Fin 16000000"
  by code_simp

end
