(* ===== verification/Protocol.thy ===== *)
theory Protocol
  imports Prelude
begin

text \<open>
  The bus protocol of \<^verbatim>\<open>src/spi/protocol.h\<close> and \<^verbatim>\<open>src/spi/protocol.c\<close>: the command
  tables of the two slaves and the byte that carries a command and its checksum.
  A pointer into the tables is a value of \<open>bc_ptr\<close>; a \<open>void *\<close> with a length is the list of
  the bytes it points to, and a read outside it is \<open>None\<close>. The bit-fields of
  \<open>struct cmd_sum\<close> are laid out as GCC does for the two targets: the first member, the
  command, is the low nibble.
\<close>

section \<open>Commands and tables\<close>

definition SLAVE_SENS :: nat where "SLAVE_SENS = 0"
definition SLAVE_CTRL :: nat where "SLAVE_CTRL = 1"

record bus_cmd =
  valid :: bool
  cmd :: u8
  "write" :: bool
  slave :: nat
  len :: nat

definition BB_INVALID :: u8 where "BB_INVALID = 0"

definition BF_WRITE :: u8 where "BF_WRITE = 8"
definition BF_VEL_ROT :: u8 where "BF_VEL_ROT = 4"
definition BF_MOD_REG :: u8 where "BF_MOD_REG = 2"
definition BF_ERR_VAL :: u8 where "BF_ERR_VAL = 1"
definition BF_KP_KD :: u8 where "BF_KP_KD = 1"

definition BBC_RST :: u8 where "BBC_RST = 0x01"
definition BBC_SYN :: u8 where "BBC_SYN = 0x02"
definition BBC_ROT_KD :: u8 where "BBC_ROT_KD = BF_WRITE"
definition BBC_ROT_KP :: u8 where "BBC_ROT_KP = BF_WRITE OR BF_KP_KD"
definition BBC_ROT_VAL :: u8 where "BBC_ROT_VAL = BF_WRITE OR BF_MOD_REG"
definition BBC_ROT_ERR :: u8 where "BBC_ROT_ERR = BF_WRITE OR BF_MOD_REG OR BF_ERR_VAL"
definition BBC_VEL_KD :: u8 where "BBC_VEL_KD = BF_WRITE OR BF_VEL_ROT"
definition BBC_VEL_KP :: u8 where "BBC_VEL_KP = BF_WRITE OR BF_VEL_ROT OR BF_KP_KD"
definition BBC_VEL_VAL :: u8 where "BBC_VEL_VAL = BF_WRITE OR BF_VEL_ROT OR BF_MOD_REG"
definition BBC_VEL_ERR :: u8 where
  "BBC_VEL_ERR = BF_WRITE OR BF_VEL_ROT OR BF_MOD_REG OR BF_ERR_VAL"

text \<open>An initialiser \<open>{0}\<close>, and the sizes of the payloads.\<close>

definition BC_ZERO :: bus_cmd where
  "BC_ZERO = \<lparr>valid = False, cmd = 0, write = False, slave = 0, len = 0\<rparr>"

definition SIZEOF_CTRL_VAL :: nat where "SIZEOF_CTRL_VAL = 4"
definition SIZEOF_SENS_DATA :: nat where "SIZEOF_SENS_DATA = 4 * 4"

definition ctrl_write :: "u8 \<Rightarrow> bus_cmd" where
  "ctrl_write c = \<lparr>valid = True, cmd = c, write = True, slave = SLAVE_CTRL, len = SIZEOF_CTRL_VAL\<rparr>"

definition BCCS :: "bus_cmd list" where
  "BCCS =
    [\<lparr>valid = False, cmd = BB_INVALID, write = False, slave = 0, len = 0\<rparr>,
     \<lparr>valid = True, cmd = BBC_RST, write = False, slave = SLAVE_CTRL, len = 0\<rparr>,
     \<lparr>valid = True, cmd = BBC_SYN, write = False, slave = SLAVE_CTRL, len = 0\<rparr>,
     BC_ZERO,
     BC_ZERO, BC_ZERO, BC_ZERO, BC_ZERO,
     ctrl_write BBC_ROT_KD, ctrl_write BBC_ROT_KP, ctrl_write BBC_ROT_VAL, ctrl_write BBC_ROT_ERR,
     ctrl_write BBC_VEL_KD, ctrl_write BBC_VEL_KP, ctrl_write BBC_VEL_VAL, ctrl_write BBC_VEL_ERR]"

definition BBS_RST :: u8 where "BBS_RST = 0x01"
definition BBS_SYN :: u8 where "BBS_SYN = 0x02"
definition BBS_GET :: u8 where "BBS_GET = 0x03"

definition BCSS :: "bus_cmd list" where
  "BCSS =
    [\<lparr>valid = False, cmd = BB_INVALID, write = False, slave = 0, len = 0\<rparr>,
     \<lparr>valid = True, cmd = BBS_RST, write = False, slave = SLAVE_SENS, len = 0\<rparr>,
     \<lparr>valid = True, cmd = BBS_SYN, write = False, slave = SLAVE_SENS, len = 0\<rparr>,
     \<lparr>valid = True, cmd = BBS_GET, write = False, slave = SLAVE_SENS, len = SIZEOF_SENS_DATA\<rparr>,
     BC_ZERO, BC_ZERO, BC_ZERO, BC_ZERO,
     BC_ZERO, BC_ZERO, BC_ZERO, BC_ZERO,
     BC_ZERO, BC_ZERO, BC_ZERO, BC_ZERO]"

definition MAX_DATA_LENGTH :: nat where "MAX_DATA_LENGTH = 16"

definition CTRL_ACK :: u8 where "CTRL_ACK = 0xC7"
definition SENS_ACK :: u8 where "SENS_ACK = 0x53"

definition BCMDS :: "bus_cmd list list" where "BCMDS = [BCSS, BCCS]"
definition ACKS :: "u8 list" where "ACKS = [SENS_ACK, CTRL_ACK]"

lemmas flag_defs [proto_simps] =
  BB_INVALID_def BF_WRITE_def BF_VEL_ROT_def BF_MOD_REG_def BF_ERR_VAL_def BF_KP_KD_def

lemmas cmd_defs [proto_simps] =
  BBC_RST_def BBC_SYN_def BBC_ROT_KD_def BBC_ROT_KP_def BBC_ROT_VAL_def BBC_ROT_ERR_def
  BBC_VEL_KD_def BBC_VEL_KP_def BBC_VEL_VAL_def BBC_VEL_ERR_def BBS_RST_def BBS_SYN_def BBS_GET_def

lemmas table_defs [proto_simps] =
  SLAVE_SENS_def SLAVE_CTRL_def BC_ZERO_def SIZEOF_CTRL_VAL_def SIZEOF_SENS_DATA_def
  ctrl_write_def BCCS_def BCSS_def BCMDS_def ACKS_def CTRL_ACK_def SENS_ACK_def

text \<open>A pointer to a table entry. The scheduler compares commands by address.\<close>

datatype bc_ptr = BCSS_at u8 | BCCS_at u8

fun bc :: "bc_ptr \<Rightarrow> bus_cmd" where
  "bc (BCSS_at i) = BCSS ! unat i"
| "bc (BCCS_at i) = BCCS ! unat i"

declare bc.simps [simp del, proto_simps]

text \<open>The entries a caller may schedule.\<close>

definition bc_ok :: "bc_ptr \<Rightarrow> bool" where
  "bc_ok p = (case p of BCSS_at i \<Rightarrow> unat i < 16 \<and> valid (bc p)
                      | BCCS_at i \<Rightarrow> unat i < 16 \<and> valid (bc p))"

definition bc_valid_ptrs :: "bc_ptr list" where
  "bc_valid_ptrs =
     map BCSS_at [BBS_RST, BBS_SYN, BBS_GET] @
     map BCCS_at [BBC_RST, BBC_SYN, BBC_ROT_KD, BBC_ROT_KP, BBC_ROT_VAL, BBC_ROT_ERR,
                  BBC_VEL_KD, BBC_VEL_KP, BBC_VEL_VAL, BBC_VEL_ERR]"

lemma length_tables [simp]: "length BCSS = 16" "length BCCS = 16"
  by (simp_all add: BCSS_def BCCS_def)

text \<open>Sixteen cases: the low nibble of a byte.\<close>

lemma nibble_cases:
  assumes "unat (i :: u8) < 16"
  shows "i \<in> set [0, 1, 2, 3, 4, 5, 6, 7, 8, 9, 10, 11, 12, 13, 14, 15]"
proof -
  have "i = word_of_nat (unat i)" by simp
  moreover have "unat i \<in> set [0..<16]" using assms by simp
  ultimately have "i \<in> word_of_nat ` set [0..<16]" by blast
  then show ?thesis by (simp add: upt_rec)
qed

lemma unat_AND_15: "unat (x AND 0x0F :: u8) < 16"
proof -
  have "unat (x AND 0x0F) \<le> unat (0x0F :: u8)"
    by (rule word_and_le1 [THEN word_le_nat_alt [THEN iffD1]])
  then show ?thesis by simp
qed

lemma bc_ok_iff: "bc_ok p \<longleftrightarrow> p \<in> set bc_valid_ptrs"
proof
  assume ok: "bc_ok p"
  show "p \<in> set bc_valid_ptrs"
  proof (cases p)
    case (BCSS_at i)
    with ok have "i \<in> set [0, 1, 2, 3, 4, 5, 6, 7, 8, 9, 10, 11, 12, 13, 14, 15]"
      by (intro nibble_cases) (simp add: bc_ok_def)
    with ok BCSS_at show ?thesis by (auto simp: bc_ok_def bc_valid_ptrs_def proto_simps)
  next
    case (BCCS_at i)
    with ok have "i \<in> set [0, 1, 2, 3, 4, 5, 6, 7, 8, 9, 10, 11, 12, 13, 14, 15]"
      by (intro nibble_cases) (simp add: bc_ok_def)
    with ok BCCS_at show ?thesis by (auto simp: bc_ok_def bc_valid_ptrs_def proto_simps)
  qed
next
  assume "p \<in> set bc_valid_ptrs"
  then show "bc_ok p" by (auto simp: bc_ok_def bc_valid_ptrs_def proto_simps)
qed

lemma bc_ok_fields:
  assumes "bc_ok p"
  shows "valid (bc p)" "slave (bc p) < 2" "len (bc p) \<le> MAX_DATA_LENGTH" "unat (cmd (bc p)) < 16"
    and "even (len (bc p))" "BCMDS ! slave (bc p) ! unat (cmd (bc p)) = bc p"
  using assms by (auto simp: bc_ok_iff bc_valid_ptrs_def MAX_DATA_LENGTH_def proto_simps)

text \<open>The entries the communication module schedules.\<close>

lemma bc_entries [simp]:
  "bc (BCCS_at BBC_RST) = \<lparr>valid = True, cmd = BBC_RST, write = False, slave = SLAVE_CTRL, len = 0\<rparr>"
  "bc (BCCS_at BBC_ROT_KD) = ctrl_write BBC_ROT_KD" "bc (BCCS_at BBC_ROT_KP) = ctrl_write BBC_ROT_KP"
  "bc (BCCS_at BBC_ROT_VAL) = ctrl_write BBC_ROT_VAL" "bc (BCCS_at BBC_ROT_ERR) = ctrl_write BBC_ROT_ERR"
  "bc (BCCS_at BBC_VEL_KD) = ctrl_write BBC_VEL_KD" "bc (BCCS_at BBC_VEL_KP) = ctrl_write BBC_VEL_KP"
  "bc (BCCS_at BBC_VEL_VAL) = ctrl_write BBC_VEL_VAL" "bc (BCCS_at BBC_VEL_ERR) = ctrl_write BBC_VEL_ERR"
  "bc (BCSS_at BBS_RST) = \<lparr>valid = True, cmd = BBS_RST, write = False, slave = SLAVE_SENS, len = 0\<rparr>"
  "bc (BCSS_at BBS_GET) = \<lparr>valid = True, cmd = BBS_GET, write = False, slave = SLAVE_SENS, len = SIZEOF_SENS_DATA\<rparr>"
  by (simp_all add: proto_simps)

lemma ctrl_write_fields [simp]:
  "valid (ctrl_write c)" "cmd (ctrl_write c) = c" "write (ctrl_write c)"
  "slave (ctrl_write c) = SLAVE_CTRL" "len (ctrl_write c) = SIZEOF_CTRL_VAL"
  by (simp_all add: ctrl_write_def)

lemma bc_ok_entries [simp]:
  "bc_ok (BCCS_at BBC_RST)" "bc_ok (BCCS_at BBC_ROT_KD)" "bc_ok (BCCS_at BBC_ROT_KP)"
  "bc_ok (BCCS_at BBC_ROT_VAL)" "bc_ok (BCCS_at BBC_ROT_ERR)" "bc_ok (BCCS_at BBC_VEL_KD)"
  "bc_ok (BCCS_at BBC_VEL_KP)" "bc_ok (BCCS_at BBC_VEL_VAL)" "bc_ok (BCCS_at BBC_VEL_ERR)"
  "bc_ok (BCSS_at BBS_RST)" "bc_ok (BCSS_at BBS_GET)"
  by (simp_all add: bc_ok_iff bc_valid_ptrs_def)

section \<open>The command byte\<close>

type_synonym cs_t = u8

text \<open>\<open>struct cmd_sum\<close> with both members assigned, and the members.\<close>

definition cs_pack :: "u8 \<Rightarrow> u8 \<Rightarrow> cs_t" where
  "cs_pack c s = (c AND 0x0F) OR push_bit 4 (s AND 0x0F)"

definition cs_cmd :: "cs_t \<Rightarrow> u8" where
  "cs_cmd cs = cs AND 0x0F"

definition cs_sum :: "cs_t \<Rightarrow> u8" where
  "cs_sum cs = drop_bit 4 cs"

text \<open>
  The loop of \<open>calc_sum\<close>: it runs \<open>len\<close> times and reads through \<open>data\<close> every time, which
  it never advances.
\<close>

primrec sum_loop :: "nat \<Rightarrow> u8 list \<Rightarrow> u8 \<Rightarrow> u8 option" where
  "sum_loop 0 data acc = Some acc"
| "sum_loop (Suc k) data acc =
     (case data of [] \<Rightarrow> None
      | d # _ \<Rightarrow> sum_loop k data ((acc XOR d) XOR drop_bit 4 d))"

definition calc_sum :: "u8 \<Rightarrow> u8 list \<Rightarrow> nat \<Rightarrow> u8 option" where
  "calc_sum c data n = map_option (\<lambda>acc. acc AND 0x0F) (sum_loop n data (0 XOR c))"

definition cs_create :: "u8 \<Rightarrow> u8 list \<Rightarrow> nat \<Rightarrow> cs_t option" where
  "cs_create c data n =
     map_option (\<lambda>acc. cs_pack c acc) (calc_sum c data n)"

definition cs_check :: "cs_t \<Rightarrow> u8 list \<Rightarrow> nat \<Rightarrow> bool option" where
  "cs_check cs data n = map_option (\<lambda>acc. cs_sum cs = acc) (calc_sum (cs_cmd cs) data n)"

text \<open>
  The checksum the technical report documents: the exclusive or of the two nibbles of every
  byte of the data and of the command.
\<close>

primrec doc_sum :: "u8 \<Rightarrow> u8 list \<Rightarrow> u8" where
  "doc_sum c [] = c AND 0x0F"
| "doc_sum c (d # ds) = ((d XOR drop_bit 4 d) AND 0x0F) XOR doc_sum c ds"

subsection \<open>The nibbles of the command byte\<close>

lemma cs_fields [simp]:
  "cs_cmd (cs_pack c s) = c AND 0x0F"
  "cs_sum (cs_pack c s) = s AND 0x0F"
proof -
  have mask: "(0x0F :: u8) = mask 4" by (simp add: mask_eq_exp_minus_1)
  show "cs_cmd (cs_pack c s) = c AND 0x0F"
    unfolding cs_cmd_def cs_pack_def mask by (rule bit_eqI) (auto simp: bit_simps)
  show "cs_sum (cs_pack c s) = s AND 0x0F"
    unfolding cs_sum_def cs_pack_def mask by (rule bit_eqI) (auto simp: bit_simps)
qed

lemma cs_cmd_bound: "unat (cs_cmd cs) < 16"
  by (simp add: cs_cmd_def unat_AND_15)

lemma xor_eq_right: "(a :: u8) XOR b = b \<longleftrightarrow> a = 0"
proof
  assume e: "a XOR b = b"
  have "a = (a XOR b) XOR b" by (simp add: xor.assoc)
  with e show "a = 0" by simp
qed simp

lemma nibble_id: "unat (c :: u8) < 16 \<Longrightarrow> c AND 0x0F = c"
  using nibble_cases [of c] by auto

subsection \<open>What the checksum covers\<close>

lemma sum_loop_Cons:
  "sum_loop k (d # ds) s = Some (if even k then s else (s XOR d) XOR drop_bit 4 d)"
proof (induction k arbitrary: s)
  case (Suc k)
  have "(((s XOR d) XOR drop_bit 4 d) XOR d) XOR drop_bit 4 d = s"
    by (metis (no_types, lifting) xor.assoc xor.commute xor_self_eq xor.right_neutral)
  with Suc show ?case by simp
qed simp

lemma calc_sum_Cons:
  "calc_sum c (d # ds) n =
     Some ((if even n then c else (c XOR d) XOR drop_bit 4 d) AND 0x0F)"
  by (simp add: calc_sum_def sum_loop_Cons)

lemma calc_sum_0 [simp]: "calc_sum c data 0 = Some (c AND 0x0F)"
  by (simp add: calc_sum_def)

lemma calc_sum_None_iff: "calc_sum c data n = None \<longleftrightarrow> data = [] \<and> 0 < n"
  by (cases data; cases n) (simp_all add: calc_sum_Cons, simp add: calc_sum_def)

lemma calc_sum_nibble: "calc_sum (c AND 0x0F) data n = calc_sum c data n"
proof -
  have "(((c AND 0x0F) XOR d) XOR e) AND 0x0F = ((c XOR d) XOR e) AND (0x0F :: u8)" for d e
    by (rule bit_eqI) (auto simp: bit_and_iff bit_xor_iff)
  then show ?thesis
    by (cases data; cases n) (simp_all add: calc_sum_Cons, simp_all add: calc_sum_def)
qed

text \<open>With an even length, which every command of the tables has, no data byte counts.\<close>

lemma calc_sum_even:
  assumes "even n" "n \<le> length data"
  shows "calc_sum c data n = Some (c AND 0x0F)"
  using assms by (cases data) (simp_all add: calc_sum_Cons)

lemma calc_sum_bc:
  assumes "bc_ok p" "len (bc p) \<le> length data"
  shows "calc_sum c data (len (bc p)) = Some (c AND 0x0F)"
  using bc_ok_fields [OF assms(1)] assms(2) by (simp add: calc_sum_even)

lemma cs_create_bc:
  assumes "bc_ok p" "len (bc p) \<le> length data"
  shows "cs_create c data (len (bc p)) = Some (cs_pack c c)"
  using calc_sum_bc [OF assms] by (simp add: cs_create_def cs_pack_def)

lemma cs_check_bc:
  assumes "bc_ok p" "len (bc p) \<le> length data"
  shows "cs_check cs data (len (bc p)) = Some (cs_sum cs = cs_cmd cs)"
  using calc_sum_bc [OF assms] by (simp add: cs_check_def cs_cmd_def)

lemma cs_check_Some: "n \<le> length data \<Longrightarrow> \<exists>ok. cs_check cs data n = Some ok"
  using calc_sum_None_iff [of "cs_cmd cs" data n] by (auto simp: cs_check_def)

lemma bc_ok_index:
  "bc_ok (BCSS_at i) \<Longrightarrow> cmd (bc (BCSS_at i)) = i \<and> slave (bc (BCSS_at i)) = 0"
  "bc_ok (BCCS_at i) \<Longrightarrow> cmd (bc (BCCS_at i)) = i \<and> slave (bc (BCCS_at i)) = 1"
  by (auto simp: bc_ok_iff bc_valid_ptrs_def proto_simps)

lemma table_entry:
  assumes "slv < 2" and v: "valid (BCMDS ! slv ! unat (cs_cmd cs))"
  shows "\<exists>p. bc_ok p \<and> slave (bc p) = slv \<and> cmd (bc p) = cs_cmd cs \<and> BCMDS ! slv ! unat (cs_cmd cs) = bc p"
proof -
  let ?i = "cs_cmd cs"
  have "slv = 0 \<or> slv = 1" using assms by auto
  then show ?thesis
  proof
    assume 0: "slv = 0"
    with v have "bc_ok (BCSS_at ?i)" by (simp add: bc_ok_def bc.simps BCMDS_def cs_cmd_bound)
    with bc_ok_index(1) [OF this] 0 show ?thesis
      by (intro exI [of _ "BCSS_at ?i"]) (simp add: bc.simps BCMDS_def)
  next
    assume 1: "slv = 1"
    with v have "bc_ok (BCCS_at ?i)" by (simp add: bc_ok_def bc.simps BCMDS_def cs_cmd_bound)
    with bc_ok_index(2) [OF this] 1 show ?thesis
      by (intro exI [of _ "BCCS_at ?i"]) (simp add: bc.simps BCMDS_def)
  qed
qed

section \<open>Properties\<close>

text \<open>Round trip of the command byte: whatever command and payload it is made from, the byte
  yields the command's low nibble again and passes its own check.\<close>

theorem cs_roundtrip:
  assumes "cs_create c data n = Some cs"
  shows "cs_cmd cs = c AND 0x0F \<and> cs_check cs data n = Some True"
proof -
  from assms obtain s where s: "calc_sum c data n = Some s"
    and cs: "cs = cs_pack c s"
    by (auto simp: cs_create_def)
  from s have "s AND 0x0F = s" by (auto simp: calc_sum_def ac_simps)
  with s show ?thesis
    using calc_sum_nibble [of c data n] by (simp add: cs cs_check_def)
qed

theorem cs_roundtrip_witness:
  "cs_create BBC_ROT_VAL [0x12, 0x34, 0x56] 3 = Some 0x9A \<and> cs_cmd 0x9A = BBC_ROT_VAL AND 0x0F
     \<and> cs_check 0x9A [0x12, 0x34, 0x56] 3 = Some True"
proof -
  have "cs_create BBC_ROT_VAL [0x12, 0x34, 0x56] 3 = Some 0x9A" by code_simp
  with cs_roundtrip [OF this] show ?thesis by simp
qed

text \<open>The checksum never covers the payload: for every command either slave knows, every
  payload passes the check of a command byte that any other payload passes.\<close>

theorem checksum_ignores_payload:
  assumes "bc_ok p" "length data = len (bc p)" "length data' = len (bc p)"
  shows "cs_create (cmd (bc p)) data (len (bc p)) = cs_create (cmd (bc p)) data' (len (bc p))
    \<and> cs_check cs data (len (bc p)) = cs_check cs data' (len (bc p))"
  using cs_create_bc [OF assms(1)] cs_check_bc [OF assms(1)] assms(2,3) by (simp only: order_refl)

theorem checksum_ignores_payload_witness:
  "cs_check 0xAA [0, 0, 0, 0] 4 = cs_check 0xAA [1, 2, 3, 4] 4"
  using checksum_ignores_payload [of "BCCS_at BBC_ROT_VAL" "[0, 0, 0, 0]" "[1, 2, 3, 4]" "0xAA"]
  by (simp add: SIZEOF_CTRL_VAL_def)

text \<open>The code computes the documented checksum, the exclusive or of all nibbles, for
  exactly those payloads whose own nibbles cancel out.\<close>

lemma doc_sum_command: "doc_sum c data = doc_sum 0 data XOR (c AND 0x0F)"
  by (induction data) (simp_all add: xor.assoc)

theorem checksum_not_documented:
  assumes "bc_ok p" "length data = len (bc p)"
  shows "calc_sum c data (len (bc p)) = Some (doc_sum c data) \<longleftrightarrow> doc_sum 0 data = 0"
proof -
  show ?thesis
    using xor_eq_right assms doc_sum_command [of c data] by (simp add: calc_sum_bc eq_commute [of "c AND 0x0F"])
qed

theorem checksum_not_documented_witness:
  "calc_sum BBC_VEL_VAL [0x12, 0x34, 0x56, 0x78] 4 \<noteq> Some (doc_sum BBC_VEL_VAL [0x12, 0x34, 0x56, 0x78])"
  using checksum_not_documented [of "BCCS_at BBC_VEL_VAL" "[0x12, 0x34, 0x56, 0x78]" BBC_VEL_VAL]
  by (simp add: SIZEOF_CTRL_VAL_def)

end
