(* ===== verification/Spi.thy ===== *)
theory Spi
  imports Protocol
begin

text \<open>
  The two ends of the SPI bus. SPI is full duplex: for every byte the master clocks out it
  clocks one in. A piece of code that exchanges bytes is a process: it returns, it offers a
  byte and continues with the byte received, or it has left defined behaviour.
  Master: \<open>receive\<close> and \<open>transmit\<close> of \<^verbatim>\<open>src/comm/bus.c\<close> over \<open>spi_tranceive\<close> and
  \<open>spi_sync\<close> of \<^verbatim>\<open>src/comm/spi.c\<close> (the build with \<open>PI\<close> defined).
  Slave: \<open>spi_tranceive\<close>, \<open>spi_accept\<close> and \<open>spi_return\<close> of \<^verbatim>\<open>src/avr/bus.c\<close>.
  Kernel driver and SPI hardware deliver every byte to a slave that is waiting for it; what
  the wire does to the bytes is a parameter of the composition.
\<close>

section \<open>Processes\<close>

datatype 'a proc = Ret 'a | Xfer u8 "u8 \<Rightarrow> 'a proc" | Crash

primrec bind :: "'a proc \<Rightarrow> ('a \<Rightarrow> 'b proc) \<Rightarrow> 'b proc" where
  "bind (Ret a) k = k a"
| "bind (Xfer b f) k = Xfer b (\<lambda>r. bind (f r) k)"
| "bind Crash k = Crash"

text \<open>
  Master and slave coupled by a wire. \<open>wire t\<close> is what happens to the byte from master to
  slave and to the byte from slave to master in the \<open>t\<close>-th exchange.
\<close>

type_synonym wire = "nat \<Rightarrow> (u8 \<Rightarrow> u8) \<times> (u8 \<Rightarrow> u8)"

definition perfect :: wire where
  "perfect = (\<lambda>t. (id, id))"

primrec exch :: "'m proc \<Rightarrow> wire \<Rightarrow> nat \<Rightarrow> 's proc \<Rightarrow> 'm proc \<times> 's proc" where
  "exch (Ret a) w t s = (Ret a, s)"
| "exch Crash w t s = (Crash, s)"
| "exch (Xfer m f) w t s =
     (case s of
        Xfer b g \<Rightarrow> exch (f (snd (w t) b)) w (Suc t) (g (fst (w t) m))
      | _ \<Rightarrow> (Xfer m f, s))"

section \<open>Slave side\<close>

fun slave_tranceive :: "u8 list \<Rightarrow> nat \<Rightarrow> nat \<Rightarrow> u8 list proc" where
  "slave_tranceive data i 0 = Ret data"
| "slave_tranceive data i (Suc k) =
     (if i < length data
      then Xfer (data ! i) (\<lambda>b. slave_tranceive (data[i := b]) (Suc i) k)
      else Crash)"

text \<open>
  \<open>spi_accept\<close>. Inside the interrupt the command byte is already in \<open>SPDR\<close>; outside it is
  waited for, and \<open>junk\<close> is the uninitialised byte sent meanwhile. The result is the value
  returned and the caller's buffer.
\<close>

definition spi_accept :: "u8 list \<Rightarrow> bool \<Rightarrow> nat \<Rightarrow> u8 \<Rightarrow> u8 \<Rightarrow> (u8 \<times> u8 list) proc" where
  "spi_accept data inside_isr slv spdr junk =
     bind (if inside_isr then Ret spdr
           else bind (slave_tranceive [junk] 0 1) (\<lambda>d. Ret (d ! 0)))
       (\<lambda>cs.
          let c = cs_cmd cs; b = BCMDS ! slv ! unat c; ack = ACKS ! slv
          in if \<not> valid b then Ret (BB_INVALID, data)
             else if write b then
               bind (slave_tranceive data 0 (len b))
                 (\<lambda>data'.
                    case cs_check cs data' (len b) of
                      None \<Rightarrow> Crash
                    | Some ok \<Rightarrow>
                        if \<not> ok then Ret (BB_INVALID, data')
                        else bind (slave_tranceive [ack] 0 1) (\<lambda>_. Ret (c, data')))
             else bind (slave_tranceive [ack] 0 1) (\<lambda>_. Ret (c, data)))"

definition spi_return :: "u8 \<Rightarrow> u8 list \<Rightarrow> nat \<Rightarrow> u8 list proc" where
  "spi_return c data n =
     (case cs_create c data n of
        None \<Rightarrow> Crash
      | Some cs \<Rightarrow> bind (slave_tranceive [cs] 0 1) (\<lambda>_. slave_tranceive data 0 n))"

section \<open>Master side\<close>

text \<open>
  One \<open>SPI_IOC_MESSAGE\<close> transfer: the bytes of \<open>src\<close>, or zeros where \<open>src\<close> is null; the result
  is what was clocked in.
\<close>

primrec clock_bytes :: "u8 list \<Rightarrow> u8 list proc" where
  "clock_bytes [] = Ret []"
| "clock_bytes (b # bs) = Xfer b (\<lambda>r. bind (clock_bytes bs) (\<lambda>rs. Ret (r # rs)))"

definition master_tranceive :: "u8 list option \<Rightarrow> nat \<Rightarrow> u8 list proc" where
  "master_tranceive src n =
     (case src of
        None \<Rightarrow> clock_bytes (replicate n 0)
      | Some bs \<Rightarrow> if n \<le> length bs then clock_bytes (take n bs) else Crash)"

primrec spi_sync :: "nat \<Rightarrow> unit proc" where
  "spi_sync 0 = Ret ()"
| "spi_sync (Suc k) = bind (master_tranceive (Some [0, 0, 0, 0]) 1) (\<lambda>_. spi_sync k)"

text \<open>\<open>receive\<close>: success, and the contents of \<open>dst\<close> where they were written.\<close>

definition receive :: "bus_cmd \<Rightarrow> (bool \<times> u8 list option) proc" where
  "receive b =
     (case cs_create (cmd b) [] 0 of
        None \<Rightarrow> Crash
      | Some cs \<Rightarrow>
          bind (master_tranceive (Some [cs]) 1) (\<lambda>_.
          bind (master_tranceive None 1) (\<lambda>ack.
          if ack ! 0 = ACKS ! slave b then
            bind (master_tranceive None 1) (\<lambda>cs_recv.
            bind (master_tranceive None (len b)) (\<lambda>dst.
              case cs_check (cs_recv ! 0) dst (len b) of
                None \<Rightarrow> Crash
              | Some ok \<Rightarrow> Ret (ok, Some dst)))
          else Ret (False, None))))"

definition transmit :: "bus_cmd \<Rightarrow> u8 list \<Rightarrow> bool proc" where
  "transmit b msg =
     (case cs_create (cmd b) msg (len b) of
        None \<Rightarrow> Crash
      | Some cs \<Rightarrow>
          bind (master_tranceive (Some [cs]) 1) (\<lambda>_.
          bind (if 0 < len b then master_tranceive (Some msg) (len b) else Ret []) (\<lambda>_.
          bind (master_tranceive None 1) (\<lambda>ack.
            Ret (ack ! 0 = ACKS ! slave b)))))"

section \<open>Facts about processes\<close>

lemma bind_assoc: "bind (bind p f) g = bind p (\<lambda>x. bind (f x) g)"
  by (induction p) auto

lemma bind_Ret [simp]: "bind p Ret = p"
  by (induction p) auto

lemma slave_tranceive_1 [simp]: "slave_tranceive [b] 0 (Suc 0) = Xfer b (\<lambda>r. Ret [r])"
  by simp

lemma exch_bind_master:
  "exch p w t s = (Ret a, s') \<Longrightarrow> \<exists>t'. exch (bind p k) w t s = exch (k a) w t' s'"
proof (induction p arbitrary: t s)
  case (Xfer b f)
  then show ?case by (cases s) auto
qed auto

text \<open>Both sides in the middle of a block transfer.\<close>

definition to_slave :: "wire \<Rightarrow> nat \<Rightarrow> u8 list \<Rightarrow> u8 list" where
  "to_slave w t bs = map (\<lambda>(i, b). fst (w (t + i)) b) (enumerate 0 bs)"

definition to_master :: "wire \<Rightarrow> nat \<Rightarrow> u8 list \<Rightarrow> u8 list" where
  "to_master w t bs = map (\<lambda>(i, b). snd (w (t + i)) b) (enumerate 0 bs)"

lemma enumerate_shift:
  "map (\<lambda>(i, b). f (t + i) b) (enumerate (Suc n) bs) = map (\<lambda>(i, b). f (Suc t + i) b) (enumerate n bs)"
  by (induction bs arbitrary: n) auto

lemma wire_Nil [simp]: "to_slave w t [] = []" "to_master w t [] = []"
  by (simp_all add: to_slave_def to_master_def)

lemma wire_Cons [simp]:
  "to_slave w t (b # bs) = fst (w t) b # to_slave w (Suc t) bs"
  "to_master w t (b # bs) = snd (w t) b # to_master w (Suc t) bs"
  using enumerate_shift [of "\<lambda>t. fst (w t)" t 0 bs] enumerate_shift [of "\<lambda>t. snd (w t)" t 0 bs]
  by (simp_all add: to_slave_def to_master_def)

lemma wire_length [simp]: "length (to_slave w t bs) = length bs" "length (to_master w t bs) = length bs"
  by (simp_all add: to_slave_def to_master_def)

lemma wire_perfect [simp]: "to_slave perfect t bs = bs" "to_master perfect t bs = bs"
  by (induction bs arbitrary: t) (simp_all add: perfect_def)

lemma exch_block:
  fixes k :: "u8 list \<Rightarrow> 'm proc"
  assumes "i + length bs \<le> length data"
  shows "exch (bind (clock_bytes bs) k) w t (bind (slave_tranceive data i (length bs)) g)
    = exch (k (to_master w t (take (length bs) (drop i data)))) w (t + length bs)
        (g (take i data @ to_slave w t bs @ drop (i + length bs) data))"
  using assms
proof (induction bs arbitrary: i data t k)
  case Nil
  then show ?case by simp
next
  case (Cons b bs)
  let ?data = "data[i := fst (w t) b]"
  have IH: "exch (bind (clock_bytes bs) k') w (Suc t) (bind (slave_tranceive ?data (Suc i) (length bs)) g)
    = exch (k' (to_master w (Suc t) (take (length bs) (drop (Suc i) data)))) w (Suc t + length bs)
        (g (take i data @ fst (w t) b # to_slave w (Suc t) bs @ drop (Suc i + length bs) data))" for k' :: "u8 list \<Rightarrow> 'm proc"
    using Cons.IH [of "Suc i" ?data k' "Suc t"] Cons.prems
    by (simp add: take_Suc_append_nth)
  from Cons.prems have "drop i data = data ! i # drop (Suc i) data"
    by (simp add: Cons_nth_drop_Suc)
  with Cons.prems show ?case by (simp add: bind_assoc IH)
qed


section \<open>A transmission and its acceptance\<close>

text \<open>The master's side of a write, as the bytes it clocks.\<close>

lemma transmit_bc:
  assumes "bc_ok p" "length msg = len (bc p)" "write (bc p)"
  shows "transmit (bc p) msg =
    Xfer (cs_pack (cmd (bc p)) (cmd (bc p)))
      (\<lambda>_. bind (clock_bytes msg) (\<lambda>_. Xfer 0 (\<lambda>ack. Ret (ack = ACKS ! slave (bc p)))))"
proof -
  have "0 < len (bc p)" using assms(1,3) by (auto simp: bc_ok_iff bc_valid_ptrs_def proto_simps)
  then show ?thesis
    using assms by (simp add: transmit_def cs_create_bc master_tranceive_def bind_assoc)
qed

lemma spi_accept_write:
  assumes "bc_ok p" "write (bc p)" "cs_cmd cs = cmd (bc p)" "slv = slave (bc p)"
    "length data = len (bc p)"
  shows "spi_accept data True slv cs junk =
    bind (slave_tranceive data 0 (len (bc p)))
      (\<lambda>data'. case cs_check cs data' (len (bc p)) of None \<Rightarrow> Crash
        | Some ok \<Rightarrow> if \<not> ok then Ret (BB_INVALID, data')
            else Xfer (ACKS ! slave (bc p)) (\<lambda>_. Ret (cmd (bc p), data')))"
  using assms bc_ok_fields [OF assms(1)] by (simp add: spi_accept_def Let_def cong: option.case_cong if_cong)

lemma spi_accept_outside:
  "spi_accept data False slv spdr junk = Xfer junk (\<lambda>cs. spi_accept data True slv cs junk)"
  by (simp add: spi_accept_def)

text \<open>
  A write over a wire that may change the payload, but neither the command byte nor the
  acknowledgement.
\<close>

lemma exch_write:
  assumes p: "bc_ok p" "write (bc p)" and msg: "length msg = len (bc p)" "length data = len (bc p)"
    and wire: "\<And>b. fst (w t) b = b" "\<And>b. snd (w (t + len (bc p) + 1)) b = b"
  shows "exch (transmit (bc p) msg) w t (spi_accept data False (slave (bc p)) spdr junk)
    = (Ret True, Ret (cmd (bc p), to_slave w (Suc t) msg))"
proof -
  let ?c = "cmd (bc p)" and ?m = "to_slave w (Suc t) msg"
  let ?cs = "cs_pack ?c ?c"
  have c: "cs_cmd ?cs = ?c"
    using nibble_id [of ?c] bc_ok_fields [OF p(1)] by simp
  have chk: "cs_check ?cs ?m (len (bc p)) = Some True"
    using cs_check_bc [OF p(1), of ?m ?cs] msg by simp
  have "exch (transmit (bc p) msg) w t (spi_accept data False (slave (bc p)) spdr junk)
    = exch (bind (clock_bytes msg) (\<lambda>_. Xfer 0 (\<lambda>ack. Ret (ack = ACKS ! slave (bc p))))) w (Suc t)
        (spi_accept data True (slave (bc p)) ?cs junk)"
    by (simp add: transmit_bc p msg spi_accept_outside wire)
  also have "\<dots> = exch (Xfer 0 (\<lambda>ack. Ret (ack = ACKS ! slave (bc p)))) w (Suc t + len (bc p))
      (case cs_check ?cs ?m (len (bc p)) of None \<Rightarrow> Crash
        | Some ok \<Rightarrow> if \<not> ok then Ret (BB_INVALID, ?m)
            else Xfer (ACKS ! slave (bc p)) (\<lambda>_. Ret (?c, ?m)))"
    using exch_block [of 0 msg data "\<lambda>_. Xfer 0 (\<lambda>ack. Ret (ack = ACKS ! slave (bc p)))" w "Suc t"] msg
    by (simp only: spi_accept_write [OF p c refl msg(2)]) simp
  also have "\<dots> = (Ret True, Ret (?c, ?m))"
    using wire(2) by (simp add: chk)
  finally show ?thesis .
qed


section \<open>A read\<close>

lemma spi_accept_read:
  assumes "bc_ok p" "\<not> write (bc p)" "cs_cmd cs = cmd (bc p)" "slv = slave (bc p)"
  shows "spi_accept data True slv cs junk = Xfer (ACKS ! slave (bc p)) (\<lambda>_. Ret (cmd (bc p), data))"
  using assms bc_ok_fields [OF assms(1)] by (simp add: spi_accept_def Let_def)

lemma receive_bc:
  assumes "bc_ok p"
  shows "receive (bc p) =
    Xfer (cs_pack (cmd (bc p)) (cmd (bc p))) (\<lambda>_. Xfer 0 (\<lambda>ack.
      if ack = ACKS ! slave (bc p) then
        Xfer 0 (\<lambda>cs_recv. bind (clock_bytes (replicate (len (bc p)) 0)) (\<lambda>dst.
          case cs_check cs_recv dst (len (bc p)) of None \<Rightarrow> Crash | Some ok \<Rightarrow> Ret (ok, Some dst)))
      else Ret (False, None)))"
  by (simp add: receive_def cs_create_def cs_pack_def master_tranceive_def numeral_2_eq_2
      cong: if_cong)

text \<open>
  The answer of a slave that accepts a read and returns a payload, over a wire that may
  change the payload only.
\<close>

lemma exch_read:
  assumes p: "bc_ok p" "\<not> write (bc p)" and payload: "length payload = len (bc p)"
    and wire: "\<And>b. fst (w t) b = b" "\<And>b. snd (w (t + 1)) b = b" "\<And>b. snd (w (t + 2)) b = b"
  shows "exch (receive (bc p)) w t
      (Xfer spdr (\<lambda>cs. bind (spi_accept data True (slave (bc p)) cs junk)
         (\<lambda>(c, _). bind (spi_return c payload (len (bc p))) k)))
    = (Ret (True, Some (to_master w (t + 3) payload)),
       k (to_slave w (t + 3) (replicate (len (bc p)) 0)))"
proof -
  let ?c = "cmd (bc p)" and ?n = "len (bc p)" and ?m = "to_master w (Suc (Suc (Suc t))) payload"
  have c: "cs_cmd (cs_pack ?c ?c) = ?c"
    using nibble_id [of ?c] bc_ok_fields [OF p(1)] by simp
  have ret: "spi_return ?c payload ?n = Xfer (cs_pack ?c ?c) (\<lambda>_. slave_tranceive payload 0 ?n)"
    by (simp add: spi_return_def cs_create_bc [OF p(1)] payload)
  have chk: "cs_check (cs_pack ?c ?c) ?m ?n = Some True"
    using cs_check_bc [OF p(1), of ?m] payload by simp
  let ?k = "\<lambda>dst. case cs_check (cs_pack ?c ?c) dst ?n of None \<Rightarrow> Crash | Some ok \<Rightarrow> Ret (ok, Some dst)"
  have "exch (bind (clock_bytes (replicate ?n 0)) ?k) w (Suc (Suc (Suc t)))
          (bind (slave_tranceive payload 0 ?n) k)
      = (Ret (True, Some ?m), k (to_slave w (Suc (Suc (Suc t))) (replicate ?n 0)))"
    using exch_block [of 0 "replicate ?n 0" payload ?k w "Suc (Suc (Suc t))" k] payload by (simp add: chk)
  with wire show ?thesis
    by (simp add: receive_bc [OF p(1)] spi_accept_read [OF p c refl] ret eval_nat_numeral)
qed

section \<open>All results of a process\<close>

text \<open>Whatever is received, the process does not leave defined behaviour and returns a \<open>P\<close>.\<close>

primrec leaves :: "('a \<Rightarrow> bool) \<Rightarrow> 'a proc \<Rightarrow> bool" where
  "leaves P (Ret a) = P a"
| "leaves P (Xfer b f) = (\<forall>r. leaves P (f r))"
| "leaves P Crash = False"

lemma leaves_bind: "leaves Q p \<Longrightarrow> (\<And>a. Q a \<Longrightarrow> leaves P (k a)) \<Longrightarrow> leaves P (bind p k)"
  by (induction p) auto

lemma leaves_clock: "leaves (\<lambda>rs. length rs = length bs) (clock_bytes bs)"
  by (induction bs) (auto intro: leaves_bind)

lemma leaves_exch: "leaves P p \<Longrightarrow> leaves P (fst (exch p w t s))"
proof (induction p arbitrary: t s)
  case (Xfer b f)
  then show ?case by (cases s) auto
qed auto

lemma leaves_transmit:
  "len b \<le> length msg \<Longrightarrow> leaves (\<lambda>ok. True) (transmit b msg)"
  using calc_sum_None_iff [of "cmd b" msg "len b"]
  by (auto simp: transmit_def cs_create_def master_tranceive_def
      intro!: leaves_bind [OF leaves_clock] split: option.splits)

lemma leaves_receive:
  "leaves (\<lambda>(ok, dst). case dst of None \<Rightarrow> True | Some d \<Rightarrow> length d = len b) (receive b)"
proof -
  have "leaves (\<lambda>(ok, dst). case dst of None \<Rightarrow> True | Some d \<Rightarrow> length d = len b)
      (case cs_check c dst (len b) of None \<Rightarrow> Crash | Some ok \<Rightarrow> Ret (ok, Some dst))"
    if "length dst = len b" for c dst
    using that cs_check_Some [of "len b" dst c] by auto
  then show ?thesis
    by (auto simp: receive_def cs_create_def master_tranceive_def intro!: leaves_bind [OF leaves_clock])
qed

section \<open>Synchronisation\<close>

text \<open>
  A slave is a loop around a body that starts by receiving a command byte. \<open>slave_run\<close>
  feeds the bytes the master clocks to the current body and collects what finished bodies
  returned; what the slave sends is not looked at.
\<close>

fun slave_run :: "'r proc \<Rightarrow> 'r proc \<Rightarrow> u8 list \<Rightarrow> 'r list \<times> 'r proc" where
  "slave_run body cur [] = ([], cur)"
| "slave_run body cur (b # bs) =
     (case cur of
        Xfer s g \<Rightarrow>
          (case g b of
             Ret r \<Rightarrow> (let (rs, c) = slave_run body body bs in (r # rs, c))
           | c \<Rightarrow> slave_run body c bs)
      | _ \<Rightarrow> ([], cur))"

text \<open>At most \<open>n\<close> bytes until the body returns, whatever they are.\<close>

primrec depth_le :: "'a proc \<Rightarrow> nat \<Rightarrow> bool" where
  "depth_le (Ret a) n = True"
| "depth_le Crash n = False"
| "depth_le (Xfer b f) n = (case n of 0 \<Rightarrow> False | Suc m \<Rightarrow> \<forall>r. depth_le (f r) m)"

lemma depth_le_Xfer: "depth_le (Xfer b f) n \<longleftrightarrow> 0 < n \<and> (\<forall>r. depth_le (f r) (n - 1))"
  by (cases n) auto

lemma depth_le_mono: "depth_le p m \<Longrightarrow> m \<le> n \<Longrightarrow> depth_le p n"
proof (induction p arbitrary: m n)
  case (Xfer b f)
  from Xfer.prems obtain m' n' where "m = Suc m'" "n = Suc n'" "m' \<le> n'"
    by (cases m; cases n) auto
  with Xfer.prems show ?case by (auto intro: Xfer.IH [OF rangeI])
qed auto

lemma depth_le_bind:
  "depth_le p m \<Longrightarrow> (\<And>a. depth_le (k a) n) \<Longrightarrow> depth_le (bind p k) (m + n)"
proof (induction p arbitrary: m)
  case (Ret a)
  then show ?case using depth_le_mono [of "k a" n "m + n"] by simp
next
  case (Xfer b f)
  then show ?case by (cases m) auto
qed auto

lemma depth_slave_tranceive: "i + n \<le> length data \<Longrightarrow> depth_le (slave_tranceive data i n) n"
  by (induction data i n rule: slave_tranceive.induct) auto

lemma slave_tranceive_results:
  "i + n \<le> length data \<Longrightarrow> (\<And>d. length d = length data \<Longrightarrow> depth_le (k d) m) \<Longrightarrow>
   depth_le (bind (slave_tranceive data i n) k) (n + m)"
  by (induction data i n rule: slave_tranceive.induct) auto

text \<open>After the command byte, a payload of at most \<open>m\<close> bytes and the acknowledgement.\<close>

lemma depth_spi_accept:
  assumes slv: "slv < 2"
    and fits: "\<And>p. bc_ok p \<Longrightarrow> slave (bc p) = slv \<Longrightarrow> write (bc p) \<Longrightarrow>
      len (bc p) \<le> length data \<and> len (bc p) \<le> m"
  shows "depth_le (spi_accept data True slv cs junk) (m + 1)"
proof (cases "valid (BCMDS ! slv ! unat (cs_cmd cs))")
  case False
  then show ?thesis by (simp add: spi_accept_def Let_def)
next
  case True
  from table_entry [OF slv this] obtain p where p: "bc_ok p" "slave (bc p) = slv"
    "BCMDS ! slv ! unat (cs_cmd cs) = bc p" by blast
  show ?thesis
  proof (cases "write (bc p)")
    case True
    with fits p have len: "len (bc p) \<le> length data" "len (bc p) \<le> m" by auto
    let ?k = "\<lambda>d. case cs_check cs d (len (bc p)) of None \<Rightarrow> Crash
        | Some ok \<Rightarrow> if \<not> ok then Ret (BB_INVALID, d)
            else bind (slave_tranceive [ACKS ! slv] 0 1) (\<lambda>_. Ret (cs_cmd cs, d))"
    have "depth_le (?k d) 1" if "length d = length data" for d
      using that len cs_check_Some [of "len (bc p)" d cs] by auto
    then have "depth_le (bind (slave_tranceive data 0 (len (bc p))) ?k) (len (bc p) + 1)"
      using len by (intro slave_tranceive_results) auto
    then have "depth_le (spi_accept data True slv cs junk) (len (bc p) + 1)"
      using p True bc_ok_fields(1) [OF p(1)] by (simp add: spi_accept_def Let_def)
    then show ?thesis using len(2) by (auto elim: depth_le_mono)
  next
    case False
    then show ?thesis using p bc_ok_fields(1) [OF p(1)] by (simp add: spi_accept_def Let_def)
  qed
qed

lemma spi_accept_zero: "slv < 2 \<Longrightarrow> spi_accept data True slv 0 junk = Ret (BB_INVALID, data)"
  by (cases slv) (auto simp: spi_accept_def cs_cmd_def Let_def BCMDS_def BCSS_def BCCS_def less_Suc_eq)

lemma slave_run_append:
  "slave_run body cur (xs @ ys) =
     (let (rs, c) = slave_run body cur xs; (rs', c') = slave_run body c ys in (rs @ rs', c'))"
proof (induction body cur xs rule: slave_run.induct)
  case (2 body cur b bs)
  then show ?case
    by (cases cur; cases ys) (auto simp: Let_def split: proc.splits prod.splits)
qed simp


text \<open>Feeding a block of bytes to a slave in the middle of a block transfer.\<close>

lemma slave_run_block:
  assumes "\<And>d. length d = n \<Longrightarrow> \<exists>s f. g d = Xfer s f"
    and "length data = n" "i + length bs \<le> n"
  shows "slave_run body (bind (slave_tranceive data i (length bs)) g) (bs @ rest)
    = slave_run body (g (take i data @ bs @ drop (i + length bs) data)) rest"
  using assms(2,3)
proof (induction bs arbitrary: i data)
  case (Cons b bs)
  let ?data = "data[i := b]"
  have IH: "slave_run body (bind (slave_tranceive ?data (Suc i) (length bs)) g) (bs @ rest)
    = slave_run body (g (take i data @ b # bs @ drop (Suc i + length bs) data)) rest"
    using Cons.IH [of ?data "Suc i"] Cons.prems by (simp add: take_Suc_append_nth)
  have "\<exists>s f. bind (slave_tranceive ?data (Suc i) (length bs)) g = Xfer s f"
    using assms(1) [of ?data] Cons.prems by (cases bs) simp_all
  then obtain s f where busy: "bind (slave_tranceive ?data (Suc i) (length bs)) g = Xfer s f" by blast
  have "slave_run body (bind (slave_tranceive data i (length (b # bs))) g) ((b # bs) @ rest)
    = slave_run body (bind (slave_tranceive ?data (Suc i) (length bs)) g) (bs @ rest)"
    using Cons.prems by (simp add: busy)
  with IH show ?case by simp
qed simp

lemma slave_tranceive_add:
  "slave_tranceive data i (m + n) = bind (slave_tranceive data i m) (\<lambda>d. slave_tranceive d (i + m) n)"
  by (induction data i m rule: slave_tranceive.induct) auto

text \<open>The contract of a slave's loop, and what it gives the master's synchronisation.\<close>

locale slave_loop =
  fixes body :: "'r proc" and n :: nat
  assumes starts: "\<exists>s g. body = Xfer s g"
    and bounded: "depth_le body (Suc n)"
    and zero_idle: "body = Xfer s g \<Longrightarrow> \<exists>r. g 0 = Ret r"
begin

lemma run_idle_zeros: "snd (slave_run body body (replicate k 0)) = body"
proof (induction k)
  case (Suc k)
  obtain s g where b: "body = Xfer s g" using starts by blast
  with zero_idle obtain r where "g 0 = Ret r" by blast
  with Suc b show ?case by (simp add: split_beta Let_def)
qed simp

lemma run_busy_zeros:
  assumes "depth_le (Xfer s g) m" "m \<le> k"
  shows "snd (slave_run body (Xfer s g) (replicate k 0)) = body"
  using assms
proof (induction m arbitrary: s g k)
  case (Suc m)
  then obtain k' where k: "k = Suc k'" "m \<le> k'" by (cases k) auto
  from Suc.prems have d: "depth_le (g 0) m" by simp
  show ?case
  proof (cases "g 0")
    case (Ret r)
    then show ?thesis using run_idle_zeros [of k'] by (simp add: k split_beta Let_def)
  next
    case (Xfer s' g')
    with d k have "snd (slave_run body (Xfer s' g') (replicate k' 0)) = body"
      by (intro Suc.IH) simp_all
    with Xfer k show ?thesis by simp
  next
    case Crash
    with d show ?thesis by simp
  qed
qed simp

lemma run_state:
  assumes "cur = body \<or> (\<exists>s g. cur = Xfer s g \<and> depth_le cur n)"
  shows "snd (slave_run body cur bs) = body \<or>
    (\<exists>s g. snd (slave_run body cur bs) = Xfer s g \<and> depth_le (snd (slave_run body cur bs)) n)"
  using assms
proof (induction bs arbitrary: cur)
  case (Cons b bs)
  have dd: "depth_le cur (Suc n)"
    using Cons.prems bounded depth_le_mono [of cur n "Suc n"] by auto
  obtain s g where cur: "cur = Xfer s g" using Cons.prems starts by blast
  with dd have d: "depth_le (g b) n" by simp
  show ?case
  proof (cases "g b")
    case (Ret r)
    then show ?thesis using Cons.IH [of body] by (simp add: cur split_beta Let_def)
  next
    case (Xfer s' g')
    then show ?thesis using Cons.IH [of "g b"] d by (simp add: cur)
  next
    case Crash
    with d show ?thesis by simp
  qed
qed auto

theorem resync:
  assumes "n \<le> k"
  shows "snd (slave_run body body (bs @ replicate k 0)) = body"
proof -
  let ?c = "snd (slave_run body body bs)"
  have "snd (slave_run body ?c (replicate k 0)) = body"
    using run_state [of body bs] run_idle_zeros [of k] run_busy_zeros assms by metis
  then show ?thesis by (simp add: slave_run_append split_beta Let_def)
qed

end

text \<open>\<open>spi_sync\<close> clocks zeros and looks at no answer.\<close>

lemma spi_sync_Suc: "spi_sync (Suc k) = Xfer 0 (\<lambda>_. spi_sync k)"
  by (simp add: master_tranceive_def)

end
