(* ===== verification/Ctrl.thy ===== *)
theory Ctrl
  imports Cfloat Spi
begin

text \<open>
  The control module, \<^verbatim>\<open>src/avr/ctrl.c\<close>: two PD regulators, the commands that set and
  drive them, and the two PWM compare registers they end in. On this target \<open>double\<close> has
  the format of \<open>float\<close>, so every constant is rounded to it. The values received are the
  four bytes of a \<open>float\<close>, any of them: NaN and infinities are inputs.
\<close>

section \<open>Constants\<close>

definition VEL_K :: fp where "VEL_K = f32 (58 / 1000)"
definition DUTY_MAX :: fp where "DUTY_MAX = f32 (10 / 100)"
definition DUTY_NEUTRAL :: fp where "DUTY_NEUTRAL = f32 (75 / 1000)"
definition VEL_MIN :: fp where "VEL_MIN = f32 (- (2 / 10))"
definition VEL_NEUTRAL :: fp where "VEL_NEUTRAL = f32 (6 / 100)"
definition VEL_MAX :: fp where "VEL_MAX = f32 (2 / 10)"
definition ROT_MIN :: fp where "ROT_MIN = f32 (- 1)"
definition ROT_MAX :: fp where "ROT_MAX = f32 1"

definition PWM_T :: fp where "PWM_T = f32 (20 / 1000)"
definition PWM_PSC :: fp where "PWM_PSC = f32 16"
definition KS_T :: fp where "KS_T = f32 (2 / 10)"
definition KS_PSC :: fp where "KS_PSC = f32 64"

text \<open>Their values in the format, for evaluation.\<close>

lemma const_values [code]:
  "VEL_K = Fin (1946157 / 33554432)"
  "DUTY_MAX = Fin (13421773 / 134217728)"
  "DUTY_NEUTRAL = Fin (5033165 / 67108864)"
  "VEL_MIN = Fin (- (13421773 / 67108864))"
  "VEL_NEUTRAL = Fin (16106127 / 268435456)"
  "VEL_MAX = Fin (13421773 / 67108864)"
  "ROT_MIN = Fin (- 1)"
  "ROT_MAX = Fin 1"
  "PWM_T = Fin (5368709 / 268435456)"
  "PWM_PSC = Fin 16"
  "KS_T = Fin (13421773 / 67108864)"
  "KS_PSC = Fin 64"
  by code_simp+

text \<open>
  \<open>PWM_TOP\<close> and \<open>KS_TOP\<close> are macros without parentheses: in \<open>x*PWM_TOP\<close> the product with
  \<open>F_CPU\<close> is taken first.
\<close>

definition times_PWM_TOP :: "fp \<Rightarrow> fp" where
  "times_PWM_TOP x = div32 (mul32 (mul32 x F_CPU) PWM_T) PWM_PSC"

definition PWM_TOP :: fp where
  "PWM_TOP = div32 (mul32 F_CPU PWM_T) PWM_PSC"

definition KS_TOP :: fp where
  "KS_TOP = div32 (mul32 F_CPU KS_T) KS_PSC"

definition VEL_KP_DEF :: fp where "VEL_KP_DEF = f32 1"
definition VEL_KI_DEF :: fp where "VEL_KI_DEF = f32 0"
definition VEL_KD_DEF :: fp where "VEL_KD_DEF = f32 0"
definition ROT_KP_DEF :: fp where "ROT_KP_DEF = f32 (25 / 10)"
definition ROT_KI_DEF :: fp where "ROT_KI_DEF = f32 0"
definition ROT_KD_DEF :: fp where "ROT_KD_DEF = f32 (19 / 10)"

section \<open>State\<close>

record pd_values =
  kp :: fp
  ki :: fp
  kd :: fp
  err :: fp
  err_prev :: fp
  err_sum :: fp

definition PD_EMPTY :: pd_values where
  "PD_EMPTY = \<lparr>kp = Fin 0, ki = Fin 0, kd = Fin 0, err = Fin 0, err_prev = Fin 0, err_sum = Fin 0\<rparr>"

text \<open>
  The globals and the registers the code writes. \<open>sei\<close> is the global interrupt flag;
  a conversion to a 16-bit register that C leaves undefined sets \<open>ub\<close>.
\<close>

record ctrl_state =
  vel :: pd_values
  rot :: pd_values
  OCR_VEL :: int
  OCR_ROT :: int
  KS_TCNT :: int
  sei :: bool
  ub :: bool

definition store16 :: "(int \<Rightarrow> ctrl_state \<Rightarrow> ctrl_state) \<Rightarrow> fp \<Rightarrow> ctrl_state \<Rightarrow> ctrl_state" where
  "store16 put x s =
     (case ftrunc x of
        None \<Rightarrow> s\<lparr>ub := True\<rparr>
      | Some k \<Rightarrow> if 0 \<le> k \<and> k < 65536 then put k s else s\<lparr>ub := True\<rparr>)"

abbreviation put_vel :: "int \<Rightarrow> ctrl_state \<Rightarrow> ctrl_state" where
  "put_vel k s \<equiv> s\<lparr>OCR_VEL := k\<rparr>"

abbreviation put_rot :: "int \<Rightarrow> ctrl_state \<Rightarrow> ctrl_state" where
  "put_rot k s \<equiv> s\<lparr>OCR_ROT := k\<rparr>"

section \<open>Operations\<close>

definition reset :: "ctrl_state \<Rightarrow> ctrl_state" where
  "reset s0 =
     (let s1 = s0\<lparr>sei := False,
                  vel := PD_EMPTY\<lparr>kp := VEL_KP_DEF, ki := VEL_KI_DEF, kd := VEL_KD_DEF\<rparr>,
                  rot := PD_EMPTY\<lparr>kp := ROT_KP_DEF, ki := ROT_KI_DEF, kd := ROT_KD_DEF\<rparr>\<rparr>;
          s2 = store16 put_vel (times_PWM_TOP DUTY_NEUTRAL) s1;
          s3 = store16 put_rot (times_PWM_TOP DUTY_NEUTRAL) s2
      in s3\<lparr>sei := True\<rparr>)"

definition pd_ctrl :: "pd_values \<Rightarrow> fp" where
  "pd_ctrl v =
     (let proportion = mul32 (err v) (kp v);
          integration = mul32 (err_sum v) (ki v);
          derivative = mul32 (sub32 (err v) (err_prev v)) (kd v)
      in add32 (add32 proportion integration) derivative)"

text \<open>The macros \<open>MIN\<close> and \<open>MAX\<close>; a comparison with NaN is false.\<close>

definition C_MIN :: "fp \<Rightarrow> fp \<Rightarrow> fp" where
  "C_MIN a b = (if flt a b then a else b)"

definition C_MAX :: "fp \<Rightarrow> fp \<Rightarrow> fp" where
  "C_MAX a b = (if flt b a then a else b)"

definition clamp :: "fp \<Rightarrow> fp \<Rightarrow> fp \<Rightarrow> fp" where
  "clamp mn mx x = C_MIN (C_MAX mn x) mx"

definition duty_of :: "fp \<Rightarrow> fp" where
  "duty_of x = add32 DUTY_NEUTRAL (mul32 x (sub32 DUTY_MAX DUTY_NEUTRAL))"

definition flag :: "u8 \<Rightarrow> u8 \<Rightarrow> bool" where
  "flag command f \<longleftrightarrow> command AND f \<noteq> 0"

text \<open>The regulator a command is about, \<open>pdv\<close>.\<close>

definition get_pdv :: "u8 \<Rightarrow> ctrl_state \<Rightarrow> pd_values" where
  "get_pdv command s = (if flag command BF_VEL_ROT then vel s else rot s)"

definition put_pdv :: "u8 \<Rightarrow> pd_values \<Rightarrow> ctrl_state \<Rightarrow> ctrl_state" where
  "put_pdv command v s = (if flag command BF_VEL_ROT then s\<lparr>vel := v\<rparr> else s\<lparr>rot := v\<rparr>)"

text \<open>A new error value: the regulator decides.\<close>

definition regulate :: "u8 \<Rightarrow> fp \<Rightarrow> ctrl_state \<Rightarrow> fp \<times> ctrl_state" where
  "regulate command value s =
     (let v = get_pdv command s;
          v' = v\<lparr>err_prev := err v, err := value, err_sum := add32 (err_sum v) value\<rparr>
      in (pd_ctrl v', put_pdv command v' (s\<lparr>sei := True\<rparr>)))"

text \<open>A value for the actuator itself: the regulator's memory is cleared.\<close>

definition direct :: "u8 \<Rightarrow> fp \<Rightarrow> ctrl_state \<Rightarrow> fp \<times> ctrl_state" where
  "direct command value s =
     (let v = get_pdv command s;
          v' = v\<lparr>err := Fin 0, err_sum := Fin 0\<rparr>;
          value_new =
            (if flag command BF_VEL_ROT then
               (if fle value (Fin 0) then value
                else add32 VEL_NEUTRAL (mul32 value VEL_K))
             else value)
      in (value_new, put_pdv command v' (s\<lparr>sei := True\<rparr>)))"

definition drive :: "u8 \<Rightarrow> fp \<Rightarrow> ctrl_state \<Rightarrow> ctrl_state" where
  "drive command value_new s =
     (let mn = (if flag command BF_VEL_ROT then VEL_MIN else ROT_MIN);
          mx = (if flag command BF_VEL_ROT then VEL_MAX else ROT_MAX);
          duty = duty_of (clamp mn mx value_new)
      in if flag command BF_VEL_ROT then store16 put_vel (times_PWM_TOP duty) s
         else store16 put_rot (times_PWM_TOP duty) s)"

definition set_gain :: "u8 \<Rightarrow> fp \<Rightarrow> ctrl_state \<Rightarrow> ctrl_state" where
  "set_gain command value s =
     (let v = get_pdv command s
      in put_pdv command (if flag command BF_KP_KD then v\<lparr>kp := value\<rparr> else v\<lparr>kd := value\<rparr>)
           (s\<lparr>sei := True\<rparr>))"

text \<open>One iteration of the main loop, from what \<open>spi_accept\<close> returned and stored.\<close>

definition ctrl_step :: "u8 \<Rightarrow> fp \<Rightarrow> ctrl_state \<Rightarrow> ctrl_state" where
  "ctrl_step command value s0 =
     (if command = BB_INVALID then s0
      else
        let s = s0\<lparr>KS_TCNT := 0\<rparr>
        in if flag command BF_WRITE then
             (if flag command BF_MOD_REG then
                (let (value_new, s1) =
                       (if flag command BF_ERR_VAL then regulate command value s
                        else direct command value s)
                 in drive command value_new s1)
              else set_gain command value s)
           else if command = BBC_RST then reset s
           else s)"

text \<open>Power-up: the globals are zero, \<open>main\<close> initialises and resets.\<close>

definition ctrl_zero :: ctrl_state where
  "ctrl_zero = \<lparr>vel = PD_EMPTY, rot = PD_EMPTY, OCR_VEL = 0, OCR_ROT = 0, KS_TCNT = 0,
                sei = False, ub = False\<rparr>"

definition ctrl_init :: ctrl_state where
  "ctrl_init = reset ctrl_zero"

fun ctrl_run :: "(u8 \<times> fp) list \<Rightarrow> ctrl_state \<Rightarrow> ctrl_state" where
  "ctrl_run [] s = s"
| "ctrl_run ((c, x) # cs) s = ctrl_run cs (ctrl_step c x s)"

lemmas const_defs = VEL_K_def DUTY_MAX_def DUTY_NEUTRAL_def VEL_MIN_def VEL_NEUTRAL_def VEL_MAX_def
  ROT_MIN_def ROT_MAX_def F_CPU_def PWM_T_def PWM_PSC_def KS_T_def KS_PSC_def

lemmas [step_defs] = reset_def regulate_def direct_def drive_def set_gain_def ctrl_step_def
  get_pdv_def put_pdv_def store16_def


section \<open>The way from a regulated value to the compare register\<close>

text \<open>The clamp as the macros compute it: NaN comes out as the upper limit.\<close>

lemma clamp_between:
  assumes "is_fin mn" "is_fin mx" "fval mn \<le> fval mx"
  shows "between mn (clamp mn mx x) mx"
  using assms
  by (cases x; cases mn; cases mx)
     (auto simp: clamp_def C_MIN_def C_MAX_def between_def flt_def fle_def)

lemma clamp_NaN [simp]: "clamp mn mx NaN = mx"
  by (simp add: clamp_def C_MIN_def C_MAX_def)

lemma clamp_upper:
  assumes "is_fin mn" "is_fin mx" "is_fin u" "fval mn \<le> fval u" "fval u < fval mx" "fle x u"
  shows "between mn (clamp mn mx x) u"
  using assms
  by (cases x; cases mn; cases mx; cases u)
     (auto simp: clamp_def C_MIN_def C_MAX_def between_def flt_def fle_def)

lemma fmono_duty_scale: "fmono (\<lambda>x. mul32 x (sub32 DUTY_MAX DUTY_NEUTRAL))"
  by (rule fmono_mul) (code_simp, code_simp, simp)

lemma fmono_duty_offset: "fmono (\<lambda>x. add32 DUTY_NEUTRAL x)"
  by (rule fmono_add) (code_simp, simp)

lemma fmono_clock: "fmono (\<lambda>x. mul32 x F_CPU)" "fmono (\<lambda>x. mul32 x PWM_T)" "fmono (\<lambda>x. div32 x PWM_PSC)"
  by (rule fmono_mul, code_simp, code_simp, simp)+ (rule fmono_div, code_simp, code_simp, simp)

text \<open>No stage overflows for this value.\<close>

definition pwm_finite :: "fp \<Rightarrow> bool" where
  "pwm_finite x \<longleftrightarrow>
     (let a = mul32 x (sub32 DUTY_MAX DUTY_NEUTRAL); b = add32 DUTY_NEUTRAL a;
          c = mul32 b F_CPU; d = mul32 c PWM_T
      in is_fin a \<and> is_fin b \<and> is_fin c \<and> is_fin d \<and> is_fin (div32 d PWM_PSC))"

lemma pwm_between:
  assumes "between a x b" "pwm_finite a" "pwm_finite b"
  shows "between (times_PWM_TOP (duty_of a)) (times_PWM_TOP (duty_of x)) (times_PWM_TOP (duty_of b))"
proof -
  have "between (duty_of a) (duty_of x) (duty_of b)"
    unfolding duty_of_def
    using assms
    by (intro between_fmono [OF _ fmono_duty_offset] between_fmono [OF _ fmono_duty_scale])
       (simp_all add: pwm_finite_def Let_def)
  then show ?thesis
    unfolding times_PWM_TOP_def
    using assms
    by (intro between_fmono [OF _ fmono_clock(3)] between_fmono [OF _ fmono_clock(2)]
          between_fmono [OF _ fmono_clock(1)])
       (simp_all add: pwm_finite_def Let_def duty_of_def)
qed

lemma pwm_ends:
  "pwm_finite VEL_MIN" "pwm_finite VEL_MAX" "pwm_finite ROT_MIN" "pwm_finite ROT_MAX" "pwm_finite (Fin 0)"
  by code_simp+

lemma pwm_end_values:
  "ftrunc (times_PWM_TOP (duty_of VEL_MIN)) = Some 1400"
  "ftrunc (times_PWM_TOP (duty_of VEL_MAX)) = Some 1600"
  "ftrunc (times_PWM_TOP (duty_of ROT_MIN)) = Some 1000"
  "ftrunc (times_PWM_TOP (duty_of ROT_MAX)) = Some 2000"
  "ftrunc (times_PWM_TOP (duty_of (Fin 0))) = Some 1500"
  "ftrunc (times_PWM_TOP DUTY_NEUTRAL) = Some 1500"
  by code_simp+

lemma limits:
  "is_fin VEL_MIN" "is_fin VEL_MAX" "is_fin ROT_MIN" "is_fin ROT_MAX"
  "fval VEL_MIN \<le> fval VEL_MAX" "fval ROT_MIN \<le> fval ROT_MAX"
  "fval VEL_MIN \<le> 0" "0 < fval VEL_MAX"
  by code_simp+

lemma pwm_vel_range:
  "\<exists>k. ftrunc (times_PWM_TOP (duty_of (clamp VEL_MIN VEL_MAX x))) = Some k \<and> 1400 \<le> k \<and> k \<le> 1600"
  using between_ftrunc [OF pwm_between [OF clamp_between [OF limits(1,2,5)] pwm_ends(1,2)]
      pwm_end_values(1,2)] .

lemma pwm_rot_range:
  "\<exists>k. ftrunc (times_PWM_TOP (duty_of (clamp ROT_MIN ROT_MAX x))) = Some k \<and> 1000 \<le> k \<and> k \<le> 2000"
  using between_ftrunc [OF pwm_between [OF clamp_between [OF limits(3,4,6)] pwm_ends(3,4)]
      pwm_end_values(3,4)] .

lemma pwm_vel_backward:
  assumes "fle x (Fin 0)"
  shows "\<exists>k. ftrunc (times_PWM_TOP (duty_of (clamp VEL_MIN VEL_MAX x))) = Some k \<and> 1400 \<le> k \<and> k \<le> 1500"
proof -
  have "between VEL_MIN (clamp VEL_MIN VEL_MAX x) (Fin 0)"
    using assms limits by (intro clamp_upper) auto
  from between_ftrunc [OF pwm_between [OF this pwm_ends(1,5)] pwm_end_values(1,5)]
  show ?thesis .
qed


section \<open>The slave's loop\<close>

text \<open>
  \<open>spi_accept\<close> with the four bytes of \<open>value_retrieved\<close> as buffer, and the step with what
  it delivers. The buffer and the byte sent while waiting are uninitialised.
\<close>

definition CTRL_SLAVE :: nat where "CTRL_SLAVE = 1"

definition ctrl_body :: "u8 \<Rightarrow> u8 list \<Rightarrow> (u8 \<times> u8 list) proc" where
  "ctrl_body junk buf = spi_accept buf False CTRL_SLAVE 0 junk"

definition ctrl_iter :: "u8 \<times> u8 list \<Rightarrow> ctrl_state \<Rightarrow> ctrl_state" where
  "ctrl_iter r s = ctrl_step (fst r) (bytes_float (snd r)) s"

text \<open>The killswitch interrupt.\<close>

definition killswitch_isr :: "ctrl_state \<Rightarrow> ctrl_state" where
  "killswitch_isr s = reset s"


lemma ctrl_writes_fit: "bc_ok p \<Longrightarrow> slave (bc p) = CTRL_SLAVE \<Longrightarrow> write (bc p) \<Longrightarrow> len (bc p) = 4"
  by (auto simp: bc_ok_iff bc_valid_ptrs_def CTRL_SLAVE_def proto_simps)

text \<open>At most five bytes follow a command byte: four of payload and the acknowledgement.\<close>

lemma slave_loop_ctrl:
  assumes "length buf = 4"
  shows "slave_loop (ctrl_body junk buf) 5"
proof
  show "\<exists>s g. ctrl_body junk buf = Xfer s g"
    by (simp add: ctrl_body_def spi_accept_outside)
  have "depth_le (spi_accept buf True CTRL_SLAVE cs junk) (4 + 1)" for cs
    using assms ctrl_writes_fit by (intro depth_spi_accept) (auto simp: CTRL_SLAVE_def)
  then show "depth_le (ctrl_body junk buf) (Suc 5)"
    by (simp add: ctrl_body_def spi_accept_outside)
  show "\<exists>r. g 0 = Ret r" if "ctrl_body junk buf = Xfer s g" for s g
    using that spi_accept_zero [of CTRL_SLAVE buf junk]
    by (auto simp: ctrl_body_def spi_accept_outside CTRL_SLAVE_def)
qed

text \<open>The buffer's initial contents do not matter for the contract; these four bytes stand for them.\<close>

interpretation ctrl: slave_loop "ctrl_body junk [b0, b1, b2, b3]" 5 for junk b0 b1 b2 b3
  by (rule slave_loop_ctrl) simp

section \<open>Facts about the step\<close>

lemma flags_of_commands [simp]:
  "flag BBC_VEL_VAL BF_WRITE" "flag BBC_VEL_VAL BF_MOD_REG" "\<not> flag BBC_VEL_VAL BF_ERR_VAL"
  "flag BBC_VEL_VAL BF_VEL_ROT" "flag BBC_VEL_ERR BF_WRITE" "flag BBC_VEL_ERR BF_MOD_REG"
  "flag BBC_VEL_ERR BF_ERR_VAL" "flag BBC_VEL_ERR BF_VEL_ROT"
  "flag BBC_ROT_VAL BF_WRITE" "flag BBC_ROT_VAL BF_MOD_REG" "\<not> flag BBC_ROT_VAL BF_ERR_VAL"
  "\<not> flag BBC_ROT_VAL BF_VEL_ROT" "flag BBC_ROT_ERR BF_WRITE" "flag BBC_ROT_ERR BF_MOD_REG"
  "flag BBC_ROT_ERR BF_ERR_VAL" "\<not> flag BBC_ROT_ERR BF_VEL_ROT"
  "\<not> flag BBC_RST BF_WRITE" "\<not> flag BBC_SYN BF_WRITE"
  "BBC_VEL_VAL \<noteq> BB_INVALID" "BBC_VEL_ERR \<noteq> BB_INVALID" "BBC_ROT_VAL \<noteq> BB_INVALID"
  "BBC_ROT_ERR \<noteq> BB_INVALID" "BBC_RST \<noteq> BB_INVALID" "BBC_SYN \<noteq> BB_INVALID" "BBC_SYN \<noteq> BBC_RST"
  by (simp_all add: flag_def proto_simps)

definition ctrl_ok :: "ctrl_state \<Rightarrow> bool" where
  "ctrl_ok s \<longleftrightarrow> \<not> ub s \<and> 1400 \<le> OCR_VEL s \<and> OCR_VEL s \<le> 1600 \<and> 1000 \<le> OCR_ROT s \<and> OCR_ROT s \<le> 2000
     \<and> ki (vel s) = Fin 0 \<and> ki (rot s) = Fin 0"

lemma reset_registers [simp]:
  "OCR_VEL (reset s) = 1500" "OCR_ROT (reset s) = 1500" "ub (reset s) = ub s"
  "KS_TCNT (reset s) = KS_TCNT s" "sei (reset s)"
  by (simp_all add: reset_def store16_def Let_def pwm_end_values)

lemma reset_regulators [simp]:
  "vel (reset s) = \<lparr>kp = VEL_KP_DEF, ki = VEL_KI_DEF, kd = VEL_KD_DEF, err = Fin 0, err_prev = Fin 0, err_sum = Fin 0\<rparr>"
  "rot (reset s) = \<lparr>kp = ROT_KP_DEF, ki = ROT_KI_DEF, kd = ROT_KD_DEF, err = Fin 0, err_prev = Fin 0, err_sum = Fin 0\<rparr>"
  by (simp_all add: reset_def store16_def Let_def pwm_end_values PD_EMPTY_def)

lemma ki_defaults [simp]: "VEL_KI_DEF = Fin 0" "ROT_KI_DEF = Fin 0"
  by (simp_all add: VEL_KI_DEF_def ROT_KI_DEF_def)

lemma drive_vel:
  "flag c BF_VEL_ROT \<Longrightarrow> \<exists>k. drive c x s = s\<lparr>OCR_VEL := k\<rparr> \<and> 1400 \<le> k \<and> k \<le> 1600
     \<and> ftrunc (times_PWM_TOP (duty_of (clamp VEL_MIN VEL_MAX x))) = Some k"
  using pwm_vel_range [of x] by (auto simp: drive_def store16_def Let_def)

lemma drive_rot:
  "\<not> flag c BF_VEL_ROT \<Longrightarrow> \<exists>k. drive c x s = s\<lparr>OCR_ROT := k\<rparr> \<and> 1000 \<le> k \<and> k \<le> 2000
     \<and> ftrunc (times_PWM_TOP (duty_of (clamp ROT_MIN ROT_MAX x))) = Some k"
  using pwm_rot_range [of x] by (auto simp: drive_def store16_def Let_def)

lemma new_value:
  "\<exists>y v. (if b then regulate c x s else direct c x s) = (y, put_pdv c v (s\<lparr>sei := True\<rparr>))
     \<and> ki v = ki (get_pdv c s)"
  by (auto simp: regulate_def direct_def Let_def)

lemma ctrl_step_cases:
  obtains (invalid) "c = BB_INVALID" "ctrl_step c x s = s"
  | (drive) y v where "flag c BF_WRITE" "flag c BF_MOD_REG" "ki v = ki (get_pdv c s)"
      "ctrl_step c x s = drive c y (put_pdv c v (s\<lparr>KS_TCNT := 0, sei := True\<rparr>))"
  | (gain) v where "flag c BF_WRITE" "\<not> flag c BF_MOD_REG" "ki v = ki (get_pdv c s)"
      "ctrl_step c x s = put_pdv c v (s\<lparr>KS_TCNT := 0, sei := True\<rparr>)"
  | (reset) "c = BBC_RST" "ctrl_step c x s = reset (s\<lparr>KS_TCNT := 0\<rparr>)"
  | (other) "\<not> flag c BF_WRITE" "c \<noteq> BBC_RST" "ctrl_step c x s = s\<lparr>KS_TCNT := 0\<rparr>"
proof (cases "c = BB_INVALID")
  case True
  then show ?thesis by (intro invalid) (simp_all add: ctrl_step_def)
next
  case c: False
  show ?thesis
  proof (cases "flag c BF_WRITE")
    case w: True
    show ?thesis
    proof (cases "flag c BF_MOD_REG")
      case True
      obtain y v where "(if flag c BF_ERR_VAL then regulate c x (s\<lparr>KS_TCNT := 0\<rparr>) else direct c x (s\<lparr>KS_TCNT := 0\<rparr>))
          = (y, put_pdv c v (s\<lparr>KS_TCNT := 0, sei := True\<rparr>))" "ki v = ki (get_pdv c s)"
        using new_value [of "flag c BF_ERR_VAL" c x "s\<lparr>KS_TCNT := 0\<rparr>"] by (auto simp: get_pdv_def)
      with c w True show ?thesis
        by (intro drive [OF w True]) (simp_all add: ctrl_step_def Let_def)
    next
      case False
      with c w show ?thesis
        by (intro gain [OF w False]) (auto simp: ctrl_step_def set_gain_def Let_def get_pdv_def)
    qed
  next
    case False
    with c show ?thesis
      by (cases "c = BBC_RST") (auto simp: ctrl_step_def Let_def intro: reset other)
  qed
qed


lemma put_pdv_simps [simp]:
  "OCR_VEL (put_pdv c v s) = OCR_VEL s" "OCR_ROT (put_pdv c v s) = OCR_ROT s"
  "ub (put_pdv c v s) = ub s"
  "vel (put_pdv c v s) = (if flag c BF_VEL_ROT then v else vel s)"
  "rot (put_pdv c v s) = (if flag c BF_VEL_ROT then rot s else v)"
  by (simp_all add: put_pdv_def)

lemma ctrl_ok_step:
  assumes "ctrl_ok s"
  shows "ctrl_ok (ctrl_step c x s)"
proof (cases rule: ctrl_step_cases [of c x s])
  case (drive y v)
  then show ?thesis
    using assms drive_vel [of c y "put_pdv c v (s\<lparr>KS_TCNT := 0, sei := True\<rparr>)"]
      drive_rot [of c y "put_pdv c v (s\<lparr>KS_TCNT := 0, sei := True\<rparr>)"]
    by (cases "flag c BF_VEL_ROT") (auto simp: ctrl_ok_def get_pdv_def)
next
  case (gain v)
  then show ?thesis using assms by (auto simp: ctrl_ok_def get_pdv_def)
next
  case reset
  then show ?thesis using assms by (simp add: ctrl_ok_def)
qed (use assms in \<open>simp_all add: ctrl_ok_def\<close>)

lemma ctrl_ok_init: "ctrl_ok ctrl_init"
  by (simp add: ctrl_init_def ctrl_ok_def ctrl_zero_def)

lemma ctrl_ok_run: "ctrl_ok s \<Longrightarrow> ctrl_ok (ctrl_run cs s)"
  by (induction cs s rule: ctrl_run.induct) (auto intro: ctrl_ok_step)

text \<open>The components of \<open>pd_ctrl\<close> that are NaN make the result NaN.\<close>

lemma NaN_ops [simp]:
  "fadd p em NaN b = NaN" "fadd p em a NaN = NaN" "fmul p em NaN b = NaN" "fmul p em a NaN = NaN"
  by (simp_all add: fadd_def fmul_def Let_def)

lemma pd_ctrl_NaN: "err_sum v = NaN \<Longrightarrow> pd_ctrl v = NaN"
  by (simp add: pd_ctrl_def Let_def)

section \<open>Properties\<close>

text \<open>C6. Whatever commands and whatever values, NaN and infinities included, arrive after power-up,
  no conversion to a compare register is undefined and both registers stay in the pulse
  range of their actuator: 1400 to 1600 for the motor and 1000 to 2000 for the servo, out of
  a period of 20000. The integral gains stay zero.\<close>

theorem ctrl_actuators_bounded:
  "let s = ctrl_run cmds ctrl_init
   in \<not> ub s \<and> OCR_VEL s \<in> {1400..1600} \<and> OCR_ROT s \<in> {1000..2000}
      \<and> ki (vel s) = Fin 0 \<and> ki (rot s) = Fin 0 \<and> ftrunc PWM_TOP = Some 20000"
proof -
  have "ftrunc PWM_TOP = Some 20000" by code_simp
  then show ?thesis
    using ctrl_ok_run [OF ctrl_ok_init, of cmds] by (simp add: ctrl_ok_def Let_def)
qed

text \<open>A reset command returns the module to its power-up settings from every state: both
  actuators neutral, default gains, no memory of errors.\<close>

theorem ctrl_reset_neutral:
  "let s' = ctrl_step BBC_RST x s
   in OCR_VEL s' = 1500 \<and> OCR_ROT s' = 1500 \<and> vel s' = vel ctrl_init \<and> rot s' = rot ctrl_init
      \<and> KS_TCNT s' = 0 \<and> sei s'"
  by (simp add: ctrl_step_def Let_def ctrl_init_def)

text \<open>A velocity command that is zero or negative never drives forward.\<close>

theorem ctrl_backward_stops:
  assumes "fle x (Fin 0)"
  shows "OCR_VEL (ctrl_step BBC_VEL_VAL x s) \<in> {1400..1500}"
  using assms pwm_vel_backward [OF assms]
  by (auto simp: ctrl_step_def direct_def drive_def Let_def store16_def put_pdv_def)

theorem ctrl_backward_stops_witness: "OCR_VEL (ctrl_step BBC_VEL_VAL (Fin (- 1)) ctrl_init) \<in> {1400..1500}"
  by (rule ctrl_backward_stops) (simp add: fle_def)

text \<open>A velocity command that is NaN drives the motor at full speed: every comparison with
  it is false, so neither the test for reverse nor the clamp's lower branch applies.\<close>

theorem ctrl_nan_full_speed: "OCR_VEL (ctrl_step BBC_VEL_VAL NaN s) = 1600"
  by (simp add: ctrl_step_def direct_def drive_def Let_def store16_def put_pdv_def pwm_end_values)

definition clears_rot :: "u8 \<Rightarrow> bool" where
  "clears_rot c \<longleftrightarrow> c = BBC_RST \<or> c = BBC_ROT_VAL"

lemma rot_poisoned_step:
  assumes "err_sum (rot s) = NaN" "\<not> clears_rot c" "unat c < 16"
  shows "err_sum (rot (ctrl_step c x s)) = NaN"
proof -
  have "c \<in> set [0, 1, 2, 3, 4, 5, 6, 7, 8, 9, 10, 11, 12, 13, 14, 15]"
    using assms(3) by (rule nibble_cases)
  then consider "c = BB_INVALID" | "\<not> flag c BF_WRITE" "c \<noteq> BB_INVALID" | "flag c BF_VEL_ROT" "flag c BF_WRITE"
    | "c = BBC_ROT_KD" | "c = BBC_ROT_KP" | "c = BBC_ROT_ERR"
    using assms(2) by (auto simp: flag_def clears_rot_def proto_simps)
  then show ?thesis
  proof cases
    case 3
    have "rot (drive c y t) = rot t" for y t
      using drive_vel [OF 3(1), of y t] by auto
    with assms show ?thesis
      using 3 by (cases rule: ctrl_step_cases [of c x s]) (auto simp: get_pdv_def clears_rot_def)
  next
    case 6
    have "rot (drive c y t) = rot t" for y t
      using drive_rot [of c y t] 6 by auto
    with assms show ?thesis
      using 6 by (simp add: ctrl_step_def regulate_def get_pdv_def Let_def)
  qed (use assms in \<open>auto simp: ctrl_step_def set_gain_def get_pdv_def put_pdv_def Let_def flag_def clears_rot_def proto_simps\<close>)
qed

lemma rot_poisoned_run:
  "err_sum (rot s) = NaN \<Longrightarrow> \<forall>(c, x) \<in> set cmds. unat c < 16 \<and> \<not> clears_rot c \<Longrightarrow>
   err_sum (rot (ctrl_run cmds s)) = NaN"
  by (induction cmds s rule: ctrl_run.induct) (auto intro: rot_poisoned_step)

text \<open>A NaN error value is never forgotten by the regulation: until a reset or a direct
  steering value arrives, every later error value, however small, steers fully to one side.\<close>

theorem ctrl_nan_error_sticks:
  assumes "\<forall>(c, x) \<in> set cmds. unat c < 16 \<and> \<not> clears_rot c"
  shows "OCR_ROT (ctrl_run ((BBC_ROT_ERR, NaN) # cmds @ [(BBC_ROT_ERR, x)]) s) = 2000"
proof -
  let ?s = "ctrl_run ((BBC_ROT_ERR, NaN) # cmds) s"
  have split: "ctrl_run (xs @ [(c, y)]) t = ctrl_step c y (ctrl_run xs t)" for xs c y t
    by (induction xs t rule: ctrl_run.induct) auto
  have "rot (drive c y t) = rot t" if "\<not> flag c BF_VEL_ROT" for c y t
    using drive_rot [OF that, of y t] by auto
  then have "err_sum (rot (ctrl_step BBC_ROT_ERR NaN s)) = NaN"
    by (simp add: ctrl_step_def regulate_def Let_def)
  then have "err_sum (rot ?s) = NaN" using rot_poisoned_run [OF _ assms] by simp
  then have "OCR_ROT (ctrl_step BBC_ROT_ERR x ?s) = 2000"
    by (simp add: ctrl_step_def regulate_def drive_def store16_def Let_def get_pdv_def pd_ctrl_NaN pwm_end_values)
  then show ?thesis using split [of "(BBC_ROT_ERR, NaN) # cmds"] by simp
qed

theorem ctrl_nan_error_sticks_witness:
  "OCR_ROT (ctrl_run ((BBC_ROT_ERR, NaN) # [(BBC_ROT_ERR, Fin 0), (BBC_VEL_VAL, Fin 1)] @ [(BBC_ROT_ERR, Fin (- 1))])
     ctrl_init) = 2000"
  by (rule ctrl_nan_error_sticks) (simp add: clears_rot_def proto_simps)

end
