(* ===== verification/Link.thy ===== *)
theory Link
  imports Ctrl
begin

text \<open>
  The bus between the communication module and the control module, end to end: the master's
  transactions of \<^verbatim>\<open>src/comm/bus.c\<close>, the slave's \<open>spi_accept\<close>, the checksum of
  \<^verbatim>\<open>src/spi/protocol.c\<close> and the command handler of \<^verbatim>\<open>src/avr/ctrl.c\<close> composed.
\<close>

section \<open>Feeding a block\<close>

lemma slave_run_zeros_idle:
  "slave_run (ctrl_body junk buf) (ctrl_body junk buf) (replicate k 0)
    = (replicate k (BB_INVALID, buf), ctrl_body junk buf)"
proof (induction k)
  case (Suc k)
  have "spi_accept buf True CTRL_SLAVE 0 junk = Ret (BB_INVALID, buf)"
    by (rule spi_accept_zero) (simp add: CTRL_SLAVE_def)
  with Suc show ?case by (simp add: ctrl_body_def spi_accept_outside)
qed simp

section \<open>The slave goes on\<close>

primrec loop :: "nat \<Rightarrow> 'r proc \<Rightarrow> 'r list proc" where
  "loop 0 body = Ret []"
| "loop (Suc n) body = bind body (\<lambda>r. bind (loop n body) (\<lambda>rs. Ret (r # rs)))"

lemma ctrl_body_idle:
  "ctrl_body junk buf = Xfer junk (\<lambda>cs. spi_accept buf True CTRL_SLAVE cs junk)"
  by (simp add: ctrl_body_def spi_accept_outside)

lemma write_order_run:
  assumes "bc_ok p" "slave (bc p) = CTRL_SLAVE" "write (bc p)" "fp_ok 24 127 v" "length buf = 4"
  shows "\<exists>r. exch (transmit (bc p) (float_bytes v)) perfect t (ctrl_body junk buf) = (Ret True, Ret r)
    \<and> ctrl_iter r s = ctrl_step (cmd (bc p)) v s"
  using exch_write [OF assms(1,3), of "float_bytes v" buf perfect t 0 junk] ctrl_writes_fit [OF assms(1-3)] assms
  by (simp add: ctrl_body_def ctrl_iter_def perfect_def [abs_def]) (simp add: perfect_def [symmetric, abs_def])

section \<open>Properties\<close>

text \<open>C7. A write order for the control module, over a wire that changes nothing, succeeds for the
  master and makes the module execute exactly the command and the value that were sent.\<close>

theorem write_order_executed:
  assumes "bc_ok p" "slave (bc p) = CTRL_SLAVE" "write (bc p)" "fp_ok 24 127 v" "length buf = 4"
  shows "\<exists>r. exch (transmit (bc p) (float_bytes v)) perfect t (ctrl_body junk buf) = (Ret True, Ret r)
    \<and> ctrl_iter r s = ctrl_step (cmd (bc p)) v s"
  by (rule write_order_run [OF assms])

text \<open>C38. The payload of a write order is not protected: over a wire that changes the payload in any
  way, and nothing else, the master still sees success and the module executes the value
  that the changed bytes spell.\<close>

theorem corrupted_order_executed:
  assumes "bc_ok p" "slave (bc p) = CTRL_SLAVE" "write (bc p)" "length buf = 4" "length msg = 4"
    and "fst (w t) = id" "snd (w (t + 5)) = id"
  shows "exch (transmit (bc p) msg) w t (ctrl_body junk buf)
      = (Ret True, Ret (cmd (bc p), to_slave w (t + 1) msg))"
proof -
  have "len (bc p) = 4" using ctrl_writes_fit assms by blast
  moreover from this assms(7) have "snd (w (t + len (bc p) + 1)) b = b" for b
    by (simp add: add.commute [of t 5])
  ultimately show ?thesis
    using exch_write [OF assms(1,3), of msg buf w t 0 junk] assms by (simp add: ctrl_body_def)
qed

text \<open>C24. After any sequence of bytes, however it was cut off, the zeros of one \<open>spi_sync\<close> with the
  length the bus module uses leave the control module waiting for a command byte.\<close>

theorem ctrl_resynchronised:
  "snd (slave_run (ctrl_body junk [b0, b1, b2, b3]) (ctrl_body junk [b0, b1, b2, b3])
      (bs @ replicate (MAX_DATA_LENGTH + 2) 0)) = ctrl_body junk [b0, b1, b2, b3]"
  by (rule ctrl.resync) (simp add: MAX_DATA_LENGTH_def)

text \<open>The synchronisation executes the order it interrupts: if the payload of a write order is
  cut short, the zeros complete it, the checksum lets it pass and the module executes the
  command on the sent bytes filled up with zeros.\<close>

theorem truncated_order_executed:
  assumes "bc_ok p" "slave (bc p) = CTRL_SLAVE" "write (bc p)" "length buf = 4" "length msg < 4"
    and "cs_create (cmd (bc p)) full (len (bc p)) = Some cs" "len (bc p) \<le> length full"
  shows "\<exists>later. fst (slave_run (ctrl_body junk buf) (ctrl_body junk buf)
      (cs # msg @ replicate (MAX_DATA_LENGTH + 2) 0))
    = (cmd (bc p), msg @ replicate (4 - length msg) 0) # later
    \<and> (\<forall>r \<in> set later. fst r = BB_INVALID)"
proof -
  let ?c = "cmd (bc p)" and ?body = "ctrl_body junk buf" and ?k = "18 - (4 - length msg)"
  let ?d = "msg @ replicate (4 - length msg) 0"
  have cs: "cs = cs_pack ?c ?c" using cs_create_bc [OF assms(1,7)] assms(6) by simp
  have c: "cs_cmd cs = ?c" using nibble_id [of ?c] bc_ok_fields [OF assms(1)] by (simp add: cs)
  have len: "len (bc p) = 4" using ctrl_writes_fit assms by blast
  let ?g = "\<lambda>data'. case cs_check cs data' 4 of None \<Rightarrow> Crash
        | Some ok \<Rightarrow> if \<not> ok then Ret (BB_INVALID, data')
            else Xfer (ACKS ! slave (bc p)) (\<lambda>_. Ret (?c, data'))"
  have g: "?g d = Xfer (ACKS ! slave (bc p)) (\<lambda>_. Ret (?c, d))" if "length d = 4" for d
    using cs_check_bc [OF assms(1), of d cs] that len by (simp add: cs)
  have acc: "spi_accept buf True CTRL_SLAVE cs junk = bind (slave_tranceive buf 0 (length ?d)) ?g"
    using spi_accept_write [OF assms(1,3) c, of CTRL_SLAVE buf junk] assms len by simp
  have zeros: "msg @ replicate (MAX_DATA_LENGTH + 2) 0 = ?d @ replicate ?k 0"
    using assms(5) by (simp add: MAX_DATA_LENGTH_def flip: replicate_add)
  obtain k where k: "?k = Suc k" using assms(5) by (cases ?k) auto
  have busy: "\<exists>s f. bind (slave_tranceive buf 0 (length ?d)) ?g = Xfer s f"
    using assms(4,5) by (simp add: slave_tranceive.simps(2) [of _ _ 3, simplified])
  then have "slave_run ?body ?body (cs # msg @ replicate (MAX_DATA_LENGTH + 2) 0)
      = slave_run ?body (bind (slave_tranceive buf 0 (length ?d)) ?g) (?d @ replicate ?k 0)"
    unfolding zeros by (auto simp: ctrl_body_def spi_accept_outside acc)
  also have "\<dots> = slave_run ?body (?g (take 0 buf @ ?d @ drop (0 + length ?d) buf)) (replicate ?k 0)"
    by (rule slave_run_block [of 4]) (use g assms(4,5) in auto)
  also have "take 0 buf @ ?d @ drop (0 + length ?d) buf = ?d"
    using assms(4,5) by simp
  also have "slave_run ?body (?g ?d) (replicate ?k 0) = ((?c, ?d) # replicate k (BB_INVALID, buf), ?body)"
    using g [of ?d] assms(5) by (simp add: k slave_run_zeros_idle)
  finally show ?thesis by auto
qed


theorem write_order_executed_witness:
  "\<exists>r. exch (transmit (ctrl_write BBC_VEL_VAL) (float_bytes (Fin (1 / 2)))) perfect 0 (ctrl_body 7 [1, 2, 3, 4])
      = (Ret True, Ret r) \<and> ctrl_iter r ctrl_init = ctrl_step BBC_VEL_VAL (Fin (1 / 2)) ctrl_init"
proof -
  have "fp_ok 24 127 (Fin (1 / 2))" by code_simp
  then show ?thesis
    using write_order_executed [of "BCCS_at BBC_VEL_VAL" "Fin (1 / 2)" "[1, 2, 3, 4]" 0 7 ctrl_init]
    by (simp add: CTRL_SLAVE_def SLAVE_CTRL_def)
qed

theorem corrupted_order_executed_witness:
  "exch (transmit (ctrl_write BBC_VEL_VAL) [0, 0, 0, 0]) (\<lambda>t. (if t = 4 then (\<lambda>b. b XOR 0x3F) else id, id)) 0
      (ctrl_body 7 [1, 2, 3, 4])
    = (Ret True, Ret (BBC_VEL_VAL, [0, 0, 0, 0x3F]))"
  using corrupted_order_executed [where p = "BCCS_at BBC_VEL_VAL" and buf = "[1, 2, 3, 4]" and msg = "[0, 0, 0, 0]"
      and w = "\<lambda>t. (if t = 4 then (\<lambda>b. b XOR 0x3F) else id, id)" and t = 0 and junk = 7]
  by (simp add: CTRL_SLAVE_def SLAVE_CTRL_def)

theorem truncated_order_executed_witness:
  "\<exists>later. fst (slave_run (ctrl_body 7 [1, 2, 3, 4]) (ctrl_body 7 [1, 2, 3, 4])
      (0xEE # [0xCD, 0xCC] @ replicate (MAX_DATA_LENGTH + 2) 0))
    = (BBC_VEL_VAL, [0xCD, 0xCC] @ replicate (4 - length [0xCD, 0xCC :: u8]) 0) # later
      \<and> (\<forall>r \<in> set later. fst r = BB_INVALID)"
proof -
  let ?p = "BCCS_at BBC_VEL_VAL" and ?full = "[0xCD, 0xCC, 0x4C, 0x3E] :: u8 list"
  have p: "bc_ok ?p" "slave (bc ?p) = CTRL_SLAVE" "write (bc ?p)" "len (bc ?p) = 4" "cmd (bc ?p) = BBC_VEL_VAL"
    by (simp_all add: CTRL_SLAVE_def SLAVE_CTRL_def SIZEOF_CTRL_VAL_def)
  have cs: "cs_create BBC_VEL_VAL ?full 4 = Some 0xEE"
    by code_simp
  show ?thesis
    using truncated_order_executed [OF p(1-3), of "[1, 2, 3, 4]" "[0xCD, 0xCC]" ?full "0xEE" 7, unfolded p(4,5)]
      cs by (simp only:) simp
qed

text \<open>The reset order has no answer of its own to check: the control module acknowledges it and
  executes it, but the checksum byte the master asks for next is answered from the module's
  main loop with an uninitialised byte. The order counts as lost, and is repeated, unless the
  two halves of that byte happen to be equal.\<close>

theorem reset_order_checked_against_junk:
  "exch (receive (bc (BCCS_at BBC_RST))) perfect t (loop 2 (ctrl_body junk buf))
    = (Ret (cs_sum junk = cs_cmd junk, Some []), Ret [(BBC_RST, buf), (BB_INVALID, buf)])"
proof -
  let ?cs = "cs_pack BBC_RST BBC_RST"
  have rst: "bc (BCCS_at BBC_RST) = \<lparr>valid = True, cmd = BBC_RST, write = False, slave = SLAVE_CTRL, len = 0\<rparr>"
    by simp
  have cs: "cs_cmd ?cs = BBC_RST" by (simp add: BBC_RST_def)
  have acc: "spi_accept buf True CTRL_SLAVE ?cs junk = Xfer (ACKS ! CTRL_SLAVE) (\<lambda>_. Ret (BBC_RST, buf))"
    using spi_accept_read [of "BCCS_at BBC_RST" ?cs CTRL_SLAVE buf junk] cs
    by (simp add: CTRL_SLAVE_def SLAVE_CTRL_def)
  have idle: "spi_accept buf True CTRL_SLAVE 0 junk = Ret (BB_INVALID, buf)"
    by (rule spi_accept_zero) (simp add: CTRL_SLAVE_def)
  have "cs_check junk [] 0 = Some (cs_sum junk = cs_cmd junk)"
    by (simp add: cs_check_def cs_cmd_def)
  moreover have "ACKS ! CTRL_SLAVE = ACKS ! SLAVE_CTRL" by (simp add: CTRL_SLAVE_def SLAVE_CTRL_def)
  ultimately show ?thesis
    using receive_bc [of "BCCS_at BBC_RST"]
    by (simp add: numeral_2_eq_2 ctrl_body_idle acc idle perfect_def)
qed

end
