(* ===== verification/Order_Queue.thy ===== *)
theory Order_Queue
  imports Spi
begin

text \<open>
  The queue of orders of \<^verbatim>\<open>src/comm/bus.c\<close>, twice. First as the code has it: orders are
  nodes in memory linked by \<open>next\<close>, a search walks a pointer to a pointer, and freed nodes
  are gone (touching one, or walking a cycle forever, is \<open>None\<close>). Then as the list of
  orders it stands for. The refinement between the two is the last section.
\<close>

section \<open>Orders in memory\<close>

type_synonym addr = nat

text \<open>
  \<open>'h\<close> is a handler together with its data; \<open>src_dst\<close> is the order's own buffer, allocated
  and freed with it.
\<close>

record 'h order =
  o_bc :: bc_ptr
  src_dst :: "u8 list"
  handler :: "'h option"

record 'h node = "'h order" +
  next_order :: "addr option"

type_synonym 'h memory = "addr \<Rightarrow> 'h node option"

text \<open>The places a \<open>struct order **\<close> points to: the head of the queue or a node's link.\<close>

datatype slot = Queue | Next addr

record 'h queue_state =
  mem :: "'h memory"
  queue :: "addr option"

definition free :: "addr \<Rightarrow> 'h memory \<Rightarrow> 'h memory" where
  "free a m = m(a := None)"

fun put_slot :: "slot \<Rightarrow> addr option \<Rightarrow> ('h, 'x) queue_state_scheme \<Rightarrow> ('h, 'x) queue_state_scheme option" where
  "put_slot Queue p b = Some (b\<lparr>queue := p\<rparr>)"
| "put_slot (Next a) p b =
     (case mem b a of
        None \<Rightarrow> None
      | Some n \<Rightarrow> Some (b\<lparr>mem := (mem b)(a \<mapsto> n\<lparr>next_order := p\<rparr>)\<rparr>))"

text \<open>The search of \<open>order_queue\<close>: where the link to \<open>curr\<close> is stored, and \<open>curr\<close>.\<close>

partial_function (option) oq_find ::
  "'h memory \<Rightarrow> bc_ptr \<Rightarrow> slot \<Rightarrow> addr option \<Rightarrow> (slot \<times> addr option) option" where
  "oq_find m b prev_ptr cur =
     (case cur of
        None \<Rightarrow> Some (prev_ptr, None)
      | Some a \<Rightarrow>
          (case m a of
             None \<Rightarrow> None
           | Some n \<Rightarrow> if b = o_bc n then Some (prev_ptr, Some a)
                       else oq_find m b (Next a) (next_order n)))"

text \<open>
  \<open>order_queue\<close>. A requeued order gives way to an order for the same command that was
  scheduled in the meantime; a new order takes the place of an older one.
\<close>

definition order_queue ::
  "('h, 'x) queue_state_scheme \<Rightarrow> addr \<Rightarrow> bool \<Rightarrow> ('h, 'x) queue_state_scheme option" where
  "order_queue b0 p requeue =
     (case mem b0 p of
        None \<Rightarrow> None
      | Some n0 \<Rightarrow>
          (let n = n0\<lparr>next_order := None\<rparr>; b = b0\<lparr>mem := (mem b0)(p \<mapsto> n)\<rparr>
           in case oq_find (mem b) (o_bc n) Queue (queue b) of
                None \<Rightarrow> None
              | Some (prev_ptr, None) \<Rightarrow> put_slot prev_ptr (Some p) b
              | Some (prev_ptr, Some c) \<Rightarrow>
                  (if requeue then Some (b\<lparr>mem := free p (mem b)\<rparr>)
                   else case mem b c of
                          None \<Rightarrow> None
                        | Some nc \<Rightarrow>
                            (case put_slot prev_ptr (Some p)
                                    (b\<lparr>mem := (mem b)(p \<mapsto> n\<lparr>next_order := next_order nc\<rparr>)\<rparr>) of
                               None \<Rightarrow> None
                             | Some b' \<Rightarrow> Some (b'\<lparr>mem := free c (mem b')\<rparr>)))))"

text \<open>Taking the first order off the queue, under the lock.\<close>

definition order_pop ::
  "('h, 'x) queue_state_scheme \<Rightarrow> (addr option \<times> ('h, 'x) queue_state_scheme) option" where
  "order_pop b =
     (case queue b of
        None \<Rightarrow> Some (None, b)
      | Some a \<Rightarrow>
          (case mem b a of
             None \<Rightarrow> None
           | Some n \<Rightarrow> Some (Some a, b\<lparr>queue := next_order n\<rparr>)))"

text \<open>The loop of \<open>bus_destroy\<close> that frees what is left.\<close>

partial_function (option) destroy_orders :: "'h memory \<Rightarrow> addr option \<Rightarrow> 'h memory option" where
  "destroy_orders m current =
     (case current of
        None \<Rightarrow> Some m
      | Some a \<Rightarrow>
          (case m a of
             None \<Rightarrow> None
           | Some n \<Rightarrow> destroy_orders (free a m) (next_order n)))"

section \<open>The queue as a list\<close>

fun oq :: "'h order list \<Rightarrow> 'h order \<Rightarrow> bool \<Rightarrow> 'h order list" where
  "oq [] p requeue = [p]"
| "oq (c # cs) p requeue =
     (if o_bc p = o_bc c then (if requeue then c # cs else p # cs)
      else c # oq cs p requeue)"

lemma oq_append:
  "o_bc p \<notin> o_bc ` set xs \<Longrightarrow> oq (xs @ ys) p r = xs @ oq ys p r"
  by (induction xs) auto

lemma oq_new: "o_bc p \<notin> o_bc ` set q \<Longrightarrow> oq q p r = q @ [p]"
  using oq_append [of p q "[]"] by simp

lemma oq_split:
  assumes "o_bc p \<in> o_bc ` set q"
  obtains xs c ys where "q = xs @ c # ys" "o_bc c = o_bc p" "o_bc p \<notin> o_bc ` set xs"
proof -
  have "\<exists>c \<in> set q. o_bc c = o_bc p" using assms by force
  from split_list_first_prop [OF this] obtain xs c ys where
    "q = xs @ c # ys" "o_bc c = o_bc p" "\<forall>y \<in> set xs. o_bc y \<noteq> o_bc p" by blast
  then show thesis by (intro that) auto
qed

lemma oq_old:
  assumes "o_bc p \<in> o_bc ` set q"
  obtains xs c ys where "q = xs @ c # ys" "o_bc c = o_bc p" "o_bc p \<notin> o_bc ` set xs"
    "oq q p r = (if r then q else xs @ p # ys)"
proof -
  from assms obtain xs c ys where s: "q = xs @ c # ys" "o_bc c = o_bc p" "o_bc p \<notin> o_bc ` set xs"
    by (rule oq_split)
  have "oq q p r = (if r then q else xs @ p # ys)" using s by (simp add: oq_append)
  with s show thesis by (rule that)
qed

lemma oq_keys:
  "map o_bc (oq q p r) = (if o_bc p \<in> o_bc ` set q then map o_bc q else map o_bc q @ [o_bc p])"
proof (cases "o_bc p \<in> o_bc ` set q")
  case True
  then obtain xs c ys where "q = xs @ c # ys" "o_bc c = o_bc p" "oq q p r = (if r then q else xs @ p # ys)"
    by (rule oq_old [where r = r])
  with True show ?thesis by simp
qed (simp add: oq_new)

lemma oq_distinct: "distinct (map o_bc q) \<Longrightarrow> distinct (map o_bc (oq q p r))"
  by (simp add: oq_keys)

lemma oq_set_keys: "o_bc ` set (oq q p r) = insert (o_bc p) (o_bc ` set q)"
  using arg_cong [OF oq_keys [of q p r], of set] by auto

lemma oq_set_subset: "set (oq q p r) \<subseteq> insert p (set q)"
  by (induction q) auto

lemma oq_scheduled: "p \<in> set (oq q p False)"
  by (induction q) auto

lemma oq_other:
  "c \<in> set q \<Longrightarrow> o_bc c \<noteq> o_bc p \<Longrightarrow> c \<in> set (oq q p r)"
  by (induction q) auto

lemma oq_requeue_keeps: "c \<in> set q \<Longrightarrow> c \<in> set (oq q p True)"
  by (induction q) auto

lemma oq_requeue_new: "o_bc p \<notin> o_bc ` set q \<Longrightarrow> p \<in> set (oq q p True)"
  by (simp add: oq_new)

lemma oq_schedule_replaces:
  "distinct (map o_bc q) \<Longrightarrow> c \<in> set (oq q p False) \<Longrightarrow> o_bc c = o_bc p \<Longrightarrow> c = p"
  by (induction q) (auto simp: image_iff split: if_splits)


section \<open>Refinement\<close>

text \<open>A segment of the linked list: from \<open>p\<close> through the nodes at \<open>as\<close> to \<open>q\<close>.\<close>

fun seg :: "'h memory \<Rightarrow> addr option \<Rightarrow> addr list \<Rightarrow> addr option \<Rightarrow> bool" where
  "seg m p [] q \<longleftrightarrow> p = q"
| "seg m p (a # as) q \<longleftrightarrow>
     p = Some a \<and> (case m a of None \<Rightarrow> False | Some n \<Rightarrow> seg m (next_order n) as q)"

definition orders_at :: "'h memory \<Rightarrow> addr list \<Rightarrow> 'h order list" where
  "orders_at m as = map (\<lambda>a. order.truncate (the (m a))) as"

lemma truncate_order [simp]:
  "o_bc (order.truncate n) = o_bc n" "src_dst (order.truncate n) = src_dst n"
  "handler (order.truncate n) = handler n"
  by (simp_all add: order.truncate_def)

lemma truncate_next [simp]: "order.truncate (n\<lparr>next_order := p\<rparr>) = order.truncate n"
  by (simp add: order.truncate_def)

lemma orders_at_simps [simp]:
  "orders_at m [] = []" "orders_at m (as @ bs) = orders_at m as @ orders_at m bs"
  "orders_at m (a # as) = order.truncate (the (m a)) # orders_at m as"
  by (simp_all add: orders_at_def)

lemma seg_append: "seg m p (as @ bs) q \<longleftrightarrow> (\<exists>r. seg m p as r \<and> seg m r bs q)"
  by (induction as arbitrary: p) (auto split: option.splits)

lemma seg_cong: "\<forall>a \<in> set as. m a = m' a \<Longrightarrow> seg m p as q = seg m' p as q"
  by (induction as arbitrary: p) (auto split: option.splits)

lemma orders_at_cong: "\<forall>a \<in> set as. m a = m' a \<Longrightarrow> orders_at m as = orders_at m' as"
  by (simp add: orders_at_def)

lemma seg_upd [simp]: "a \<notin> set as \<Longrightarrow> seg (m(a := x)) p as q = seg m p as q"
  by (rule seg_cong) auto

lemma orders_at_upd [simp]: "a \<notin> set as \<Longrightarrow> orders_at (m(a := x)) as = orders_at m as"
  by (rule orders_at_cong) auto

lemma seg_valid: "seg m p as q \<Longrightarrow> a \<in> set as \<Longrightarrow> \<exists>n. m a = Some n"
  by (induction as arbitrary: p) (auto split: option.splits)

lemma seg_determines: "seg m p as None \<Longrightarrow> seg m p bs None \<Longrightarrow> as = bs"
proof (induction as arbitrary: p bs)
  case Nil
  then show ?case by (cases bs) auto
next
  case (Cons a as)
  then show ?case by (cases bs) (auto split: option.splits)
qed

text \<open>The slot at the end of a segment.\<close>

definition last_slot :: "addr list \<Rightarrow> slot" where
  "last_slot as = (if as = [] then Queue else Next (last as))"

lemma oq_find_walk:
  assumes "seg m p as q" "\<forall>a \<in> set as. o_bc (the (m a)) \<noteq> b"
  shows "oq_find m b s p = oq_find m b (if as = [] then s else Next (last as)) q"
  using assms
proof (induction as arbitrary: p s)
  case (Cons a as)
  from Cons.prems obtain n where n: "p = Some a" "m a = Some n" "seg m (next_order n) as q"
    by (auto split: option.splits)
  with Cons.prems(2) have "oq_find m b s p = oq_find m b (Next a) (next_order n)"
    by (subst oq_find.simps) auto
  with Cons.IH [of "next_order n" "Next a"] n Cons.prems(2) show ?case by simp
qed simp

lemma put_last_slot:
  assumes "seg (mem b) (queue b) as q" "distinct as"
  obtains b' where "put_slot (last_slot as) r b = Some b'" "seg (mem b') (queue b') as r"
    "orders_at (mem b') as = orders_at (mem b) as"
    "\<forall>a. a \<notin> set as \<longrightarrow> mem b' a = mem b a" "dom (mem b') = dom (mem b)"
    "queue_state.more b' = queue_state.more b"
proof (cases as rule: rev_cases)
  case Nil
  then show ?thesis by (intro that [of "b\<lparr>queue := r\<rparr>"]) (simp_all add: last_slot_def)
next
  case (snoc bs a)
  with assms obtain n where n: "mem b a = Some n" "seg (mem b) (queue b) bs (Some a)"
    by (auto simp: seg_append split: option.splits)
  show ?thesis
    using assms snoc n
    by (intro that [of "b\<lparr>mem := (mem b)(a \<mapsto> n\<lparr>next_order := r\<rparr>)\<rparr>"])
       (auto simp: last_slot_def seg_append)
qed

lemma oq_find_absent:
  assumes "seg m p as None" "b \<notin> o_bc ` set (orders_at m as)"
  shows "oq_find m b Queue p = Some (last_slot as, None)"
proof -
  have "oq_find m b Queue p = oq_find m b (last_slot as) None"
    using oq_find_walk [OF assms(1), of b Queue] assms(2) by (force simp: last_slot_def orders_at_def)
  then show ?thesis by (simp add: oq_find.simps)
qed

lemma oq_find_present:
  assumes "seg m p (as @ c # bs) None" "b \<notin> o_bc ` set (orders_at m as)" "o_bc (the (m c)) = b"
  shows "oq_find m b Queue p = Some (last_slot as, Some c)"
proof -
  from assms(1) have s: "seg m p as (Some c)" and "m c \<noteq> None"
    by (auto simp: seg_append split: option.splits)
  have "oq_find m b Queue p = oq_find m b (last_slot as) (Some c)"
    using oq_find_walk [OF s, of b Queue] assms(2) by (force simp: last_slot_def orders_at_def)
  with \<open>m c \<noteq> None\<close> assms(3) show ?thesis by (auto simp: oq_find.simps)
qed

text \<open>What a state of the queue stands for: the addresses of its orders.\<close>

definition queue_rep :: "('h, 'x) queue_state_scheme \<Rightarrow> addr list \<Rightarrow> bool" where
  "queue_rep b as \<longleftrightarrow> seg (mem b) (queue b) as None \<and> distinct as"

text \<open>
  The result of an operation on the queue: it represents \<open>q\<close>, the orders that were
  neither in the queue nor \<open>p\<close> are untouched, and no node leaks.
\<close>

definition queue_result ::
  "('h, 'x) queue_state_scheme \<Rightarrow> addr list \<Rightarrow> addr \<Rightarrow> 'h order list \<Rightarrow> ('h, 'x) queue_state_scheme \<Rightarrow> bool" where
  "queue_result b as p q b' \<longleftrightarrow>
     (\<exists>as'. queue_rep b' as' \<and> orders_at (mem b') as' = q \<and> set as' \<subseteq> insert p (set as)
        \<and> dom (mem b') = (dom (mem b) - insert p (set as)) \<union> set as'
        \<and> (\<forall>a. a \<notin> insert p (set as) \<longrightarrow> mem b' a = mem b a)
        \<and> queue_state.more b' = queue_state.more b)"

lemma queue_rep_valid: "queue_rep b as \<Longrightarrow> a \<in> set as \<Longrightarrow> \<exists>n. mem b a = Some n"
  unfolding queue_rep_def by (blast dest: seg_valid)

lemma order_queue_absent:
  assumes rep: "queue_rep b as" and p: "p \<notin> set as" "mem b p = Some n"
    and new: "o_bc n \<notin> o_bc ` set (orders_at (mem b) as)"
  shows "\<exists>b'. order_queue b p r = Some b' \<and> queue_result b as p (orders_at (mem b) as @ [order.truncate n]) b'"
proof -
  let ?n = "n\<lparr>next_order := None\<rparr>"
  let ?b = "b\<lparr>mem := (mem b)(p \<mapsto> ?n)\<rparr>"
  have s: "seg (mem ?b) (queue ?b) as None" and d: "distinct as"
    using rep p by (simp_all add: queue_rep_def)
  from put_last_slot [OF s d] obtain b' where b': "put_slot (last_slot as) (Some p) ?b = Some b'"
    "seg (mem b') (queue b') as (Some p)" "orders_at (mem b') as = orders_at (mem ?b) as"
    "\<forall>a. a \<notin> set as \<longrightarrow> mem b' a = mem ?b a" "dom (mem b') = dom (mem ?b)"
    "queue_state.more b' = queue_state.more ?b" by metis
  have "oq_find (mem ?b) (o_bc n) Queue (queue ?b) = Some (last_slot as, None)"
    by (rule oq_find_absent [OF s]) (use new p in simp)
  then have "order_queue b p r = Some b'"
    using b' p by (simp add: order_queue_def Let_def)
  moreover have "mem b' p = Some ?n" using b' p by simp
  then have "queue_result b as p (orders_at (mem b) as @ [order.truncate n]) b'"
    unfolding queue_result_def
    using b' p d queue_rep_valid [OF rep]
    by (intro exI [of _ "as @ [p]"]) (auto simp: queue_rep_def seg_append)
  ultimately show ?thesis by blast
qed

lemma order_queue_present:
  assumes rep: "queue_rep b (as @ c # bs)" and p: "p \<notin> set (as @ c # bs)" "mem b p = Some n"
    and old: "o_bc n \<notin> o_bc ` set (orders_at (mem b) as)" "o_bc (the (mem b c)) = o_bc n"
  shows "\<exists>b'. order_queue b p r = Some b' \<and> queue_result b (as @ c # bs) p
      (if r then orders_at (mem b) (as @ c # bs)
       else orders_at (mem b) as @ order.truncate n # orders_at (mem b) bs) b'"
proof -
  let ?n = "n\<lparr>next_order := None\<rparr>"
  let ?b = "b\<lparr>mem := (mem b)(p \<mapsto> ?n)\<rparr>"
  have s: "seg (mem ?b) (queue ?b) (as @ c # bs) None" and d: "distinct (as @ c # bs)"
    using rep p by (simp_all add: queue_rep_def)
  have find: "oq_find (mem ?b) (o_bc n) Queue (queue ?b) = Some (last_slot as, Some c)"
    by (rule oq_find_present [OF s]) (use old p in auto)
  from s obtain nc where nc: "mem b c = Some nc" "seg (mem ?b) (queue ?b) as (Some c)"
    "seg (mem ?b) (next_order nc) bs None"
    using p by (auto simp: seg_append split: option.splits)
  show ?thesis
  proof (cases r)
    case True
    let ?b' = "?b\<lparr>mem := free p (mem ?b)\<rparr>"
    have "order_queue b p r = Some ?b'"
      using find p True by (simp add: order_queue_def Let_def)
    moreover have "queue_result b (as @ c # bs) p (orders_at (mem b) (as @ c # bs)) ?b'"
      unfolding queue_result_def
      using rep p queue_rep_valid [OF rep] d
      by (intro exI [of _ "as @ c # bs"]) (auto simp: queue_rep_def free_def seg_append split: option.splits)
    ultimately show ?thesis using True by auto
  next
    case False
    let ?n' = "n\<lparr>next_order := next_order nc\<rparr>"
    let ?b1 = "?b\<lparr>mem := (mem ?b)(p \<mapsto> ?n')\<rparr>"
    have s1: "seg (mem ?b1) (queue ?b1) as (Some c)" using nc p by simp
    from d have "distinct as" by simp
    from put_last_slot [OF s1 this] obtain b' where b': "put_slot (last_slot as) (Some p) ?b1 = Some b'"
      "seg (mem b') (queue b') as (Some p)" "orders_at (mem b') as = orders_at (mem ?b1) as"
      "\<forall>a. a \<notin> set as \<longrightarrow> mem b' a = mem ?b1 a" "dom (mem b') = dom (mem ?b1)"
      "queue_state.more b' = queue_state.more ?b1" by metis
    let ?b' = "b'\<lparr>mem := free c (mem b')\<rparr>"
    have "order_queue b p r = Some ?b'"
      using find p False nc b' by (auto simp: order_queue_def Let_def)
    moreover have "mem b' p = Some ?n'" using b' p by simp
    moreover have "\<forall>a \<in> set bs. mem b' a = mem b a" using b'(4) d p by auto
    then have "seg (mem b') (next_order nc) bs None" "orders_at (mem b') bs = orders_at (mem b) bs"
      using nc(3) p seg_cong [of bs "mem b'" "mem b"] orders_at_cong [of bs "mem b'" "mem b"] by auto
    ultimately have "queue_result b (as @ c # bs) p
        (orders_at (mem b) as @ order.truncate n # orders_at (mem b) bs) ?b'"
      unfolding queue_result_def
      using b' p d queue_rep_valid [OF rep]
      by (intro exI [of _ "as @ p # bs"]) (auto simp: queue_rep_def free_def seg_append)
    with \<open>order_queue b p r = Some ?b'\<close> False show ?thesis by auto
  qed
qed

lemma order_queue_refines:
  assumes rep: "queue_rep b as" and p: "p \<notin> set as" "mem b p = Some n"
  shows "\<exists>b'. order_queue b p r = Some b'
    \<and> queue_result b as p (oq (orders_at (mem b) as) (order.truncate n) r) b'"
proof (cases "o_bc n \<in> o_bc ` set (orders_at (mem b) as)")
  case False
  with order_queue_absent [OF assms this] show ?thesis by (simp add: oq_new)
next
  case True
  then have "o_bc (order.truncate n) \<in> o_bc ` set (orders_at (mem b) as)" by simp
  then obtain xs c ys where q: "orders_at (mem b) as = xs @ c # ys" "o_bc c = o_bc n"
      "o_bc n \<notin> o_bc ` set xs"
      "oq (orders_at (mem b) as) (order.truncate n) r
        = (if r then orders_at (mem b) as else xs @ order.truncate n # ys)"
    by (rule oq_old [where r = r]) simp
  from q(1) obtain as1 a as2 where as: "as = as1 @ a # as2" "orders_at (mem b) as1 = xs"
      "order.truncate (the (mem b a)) = c" "orders_at (mem b) as2 = ys"
    unfolding orders_at_def by (auto simp: map_eq_append_conv)
  from as(3) q(2) have "o_bc (the (mem b a)) = o_bc n" by (metis truncate_order(1))
  with order_queue_present [of b as1 a as2 p n r] assms as q show ?thesis by auto
qed

lemma order_pop_refines:
  assumes rep: "queue_rep b as"
  shows "order_pop b = (case as of [] \<Rightarrow> Some (None, b)
      | a # as' \<Rightarrow> Some (Some a, b\<lparr>queue := next_order (the (mem b a))\<rparr>))"
    and "as = a # as' \<Longrightarrow> queue_rep (b\<lparr>queue := next_order (the (mem b a))\<rparr>) as'"
  using rep by (auto simp: queue_rep_def order_pop_def split: list.splits option.splits)

lemma destroy_orders_all:
  "seg m p as None \<Longrightarrow> distinct as \<Longrightarrow> destroy_orders m p = Some (\<lambda>a. if a \<in> set as then None else m a)"
proof (induction as arbitrary: m p)
  case Nil
  then show ?case by (simp add: destroy_orders.simps)
next
  case (Cons a as)
  then obtain n where n: "p = Some a" "m a = Some n" "seg (free a m) (next_order n) as None"
    by (auto simp: free_def split: option.splits)
  then have "destroy_orders m p = destroy_orders (free a m) (next_order n)"
    by (simp add: destroy_orders.simps)
  also have "\<dots> = Some (\<lambda>x. if x \<in> set as then None else free a m x)"
    using Cons.IH [OF n(3)] Cons.prems by simp
  finally show ?case by (auto simp: free_def fun_eq_iff)
qed

section \<open>The contract of the queue\<close>

text \<open>What the bus thread and the scheduler rely on, whatever the queue is made of.\<close>

locale pending =
  fixes enq :: "'q \<Rightarrow> 'o \<Rightarrow> bool \<Rightarrow> 'q"
    and items :: "'q \<Rightarrow> 'o list"
    and key :: "'o \<Rightarrow> 'k"
  assumes enq_keys: "map key (items (enq q p r)) =
      (if key p \<in> key ` set (items q) then map key (items q) else map key (items q) @ [key p])"
    and enq_only: "set (items (enq q p r)) \<subseteq> insert p (set (items q))"
    and enq_other: "c \<in> set (items q) \<Longrightarrow> key c \<noteq> key p \<Longrightarrow> c \<in> set (items (enq q p r))"
    and enq_sched: "p \<in> set (items (enq q p False))"
    and enq_requeue: "c \<in> set (items q) \<Longrightarrow> c \<in> set (items (enq q p True))"
    and enq_requeue_new: "key p \<notin> key ` set (items q) \<Longrightarrow> p \<in> set (items (enq q p True))"
begin

definition keys :: "'q \<Rightarrow> 'k list" where
  "keys q = map key (items q)"

lemma keys_enq: "keys (enq q p r) = (if key p \<in> set (keys q) then keys q else keys q @ [key p])"
  using enq_keys [of q p r] by (simp add: keys_def)

lemma distinct_keys_enq: "distinct (keys q) \<Longrightarrow> distinct (keys (enq q p r))"
  by (simp add: keys_enq)

lemma set_keys_enq: "set (keys (enq q p r)) = insert (key p) (set (keys q))"
  by (auto simp: keys_enq)

text \<open>Nobody overtakes: an order keeps its place, whoever enqueues what.\<close>

lemma place_kept: "i < length (keys q) \<Longrightarrow> keys (enq q p r) ! i = keys q ! i \<and> i < length (keys (enq q p r))"
  by (simp add: keys_enq nth_append)

text \<open>The queue is never longer than there are commands.\<close>

lemma length_bounded:
  assumes "distinct (keys q)" "set (keys q) \<subseteq> set ks"
  shows "length (items q) \<le> length ks"
  using distinct_subset_length [OF assms] by (simp add: keys_def)

text \<open>An order for a command that has a younger one pending does not come back.\<close>

lemma younger_survives:
  assumes "c \<in> set (items q)"
  shows "key p \<noteq> key c \<or> r \<Longrightarrow> c \<in> set (items (enq q p r))"
  using enq_other [OF assms] enq_requeue [OF assms] by (cases r) auto

lemma all_items: "(\<forall>c \<in> set (items q). P c) \<Longrightarrow> P p \<Longrightarrow> \<forall>c \<in> set (items (enq q p r)). P c"
  using enq_only [of q p r] by blast

end

interpretation fifo: pending oq "\<lambda>q. q" o_bc
proof
  show "map o_bc (oq q p r) =
      (if o_bc p \<in> o_bc ` set q then map o_bc q else map o_bc q @ [o_bc p])" for q p r
    by (rule oq_keys)
qed (use oq_set_subset oq_other oq_scheduled oq_requeue_keeps oq_requeue_new in auto)

end
