(* ===== verification/Bus.thy ===== *)
theory Bus
  imports Order_Queue
begin

text \<open>
  The bus thread and its clients, \<^verbatim>\<open>src/comm/bus.c\<close>. Every critical section is one step, and
  the steps of the bus thread, the scheduling threads and the thread that ends the program
  interleave in any order. The outcome of a transaction is an input here; \<^verbatim>\<open>Spi\<close> says what
  outcomes there are. The theory states what the bus promises over the list of orders and
  shows that the linked list in memory implements it.
\<close>

section \<open>The bus\<close>

text \<open>
  Where the bus thread is: before it takes an order, executing the order at an address,
  waiting to be woken, or gone.
\<close>

datatype pc = Head | Exec addr | Wait | Exited

text \<open>\<open>served\<close> is history: the orders whose transaction succeeded, the latest first.\<close>

record 'h bus = "'h queue_state" +
  terminate :: bool
  pc :: pc
  quit :: bool
  packets_sent :: u32
  packets_lost :: u32
  served :: "'h order list"

definition bus_create :: "'h bus" where
  "bus_create = \<lparr>mem = (\<lambda>a. None), queue = None, terminate = False, pc = Head, quit = False,
     packets_sent = 0, packets_lost = 0, served = []\<rparr>"

text \<open>
  \<open>bus_schedule\<close>: \<open>malloc\<close> chooses the address \<open>a\<close> and leaves \<open>junk\<close> in the buffer, which
  a write order overwrites with a copy of \<open>msg\<close>.
\<close>

definition bus_schedule ::
  "addr \<Rightarrow> bc_ptr \<Rightarrow> u8 list option \<Rightarrow> u8 list \<Rightarrow> 'h option \<Rightarrow> 'h bus \<Rightarrow> 'h bus option" where
  "bus_schedule a b msg junk hnd s =
     (case (if write (bc b)
            then (case msg of
                    None \<Rightarrow> None
                  | Some bs \<Rightarrow> if len (bc b) \<le> length bs then Some (take (len (bc b)) bs) else None)
            else Some junk) of
        None \<Rightarrow> None
      | Some data \<Rightarrow>
          order_queue
            (s\<lparr>mem := (mem s)(a \<mapsto> \<lparr>o_bc = b, src_dst = data, handler = hnd, next_order = None\<rparr>)\<rparr>)
            a False)"

definition bus_take :: "'h bus \<Rightarrow> 'h bus option" where
  "bus_take s =
     (case order_pop s of
        None \<Rightarrow> None
      | Some (order, s') \<Rightarrow>
          Some (s'\<lparr>quit := terminate s', pc := (case order of None \<Rightarrow> Wait | Some a \<Rightarrow> Exec a)\<rparr>))"

text \<open>
  The rest of the round when an order was taken: the transaction ended with \<open>success\<close>, a
  read that was acknowledged has put \<open>dst\<close> in the buffer.
\<close>

definition loop_end :: "'h bus \<Rightarrow> 'h bus" where
  "loop_end s = s\<lparr>pc := (if quit s then Exited else Head)\<rparr>"

definition store_dst :: "u8 list option \<Rightarrow> 'h node \<Rightarrow> 'h node" where
  "store_dst dst n =
     (case dst of None \<Rightarrow> n | Some d \<Rightarrow> if write (bc (o_bc n)) then n else n\<lparr>src_dst := d\<rparr>)"

definition bus_outcome :: "bool \<Rightarrow> u8 list option \<Rightarrow> 'h bus \<Rightarrow> 'h bus option" where
  "bus_outcome success dst s =
     (case pc s of
        Exec a \<Rightarrow>
          (case mem s a of
             None \<Rightarrow> None
           | Some n0 \<Rightarrow>
               (let n = store_dst dst n0;
                    s1 = s\<lparr>mem := (mem s)(a \<mapsto> n), packets_sent := packets_sent s + 1\<rparr>
                in if success then
                     Some (loop_end (s1\<lparr>mem := free a (mem s1), served := order.truncate n # served s1\<rparr>))
                   else
                     map_option loop_end
                       (order_queue (s1\<lparr>packets_lost := packets_lost s1 + 1\<rparr>) a True)))
      | _ \<Rightarrow> None)"

text \<open>The transaction of an order, and \<open>bus_sync\<close> towards one slave.\<close>

definition execute :: "'h order \<Rightarrow> (bool \<times> u8 list option) proc" where
  "execute p =
     (if write (bc (o_bc p)) then bind (transmit (bc (o_bc p)) (src_dst p)) (\<lambda>success. Ret (success, None))
      else receive (bc (o_bc p)))"

definition bus_sync :: "unit proc" where
  "bus_sync = spi_sync (MAX_DATA_LENGTH + 2)"

text \<open>The calls of handlers, the latest first: each gets the order's buffer.\<close>

definition handler_calls :: "'h order list \<Rightarrow> ('h \<times> u8 list) list" where
  "handler_calls ps = List.map_filter (\<lambda>p. map_option (\<lambda>h. (h, src_dst p)) (handler p)) ps"

text \<open>\<open>bus_destroy\<close>: what it does before it joins the thread, and after.\<close>

definition bus_terminate :: "'h bus \<Rightarrow> 'h bus" where
  "bus_terminate s = s\<lparr>terminate := True\<rparr>"

definition bus_destroy :: "'h bus \<Rightarrow> 'h memory option" where
  "bus_destroy s = destroy_orders (mem s) (queue s)"

section \<open>Steps\<close>

datatype 'h event =
    Schedule addr bc_ptr "u8 list option" "u8 list" "'h option"
  | Take
  | Outcome bool "u8 list option"
  | Wake
  | Terminate

definition bus_step :: "'h bus \<Rightarrow> 'h event \<Rightarrow> 'h bus option" where
  "bus_step s e =
     (case e of
        Schedule a b msg junk hnd \<Rightarrow> bus_schedule a b msg junk hnd s
      | Take \<Rightarrow> bus_take s
      | Outcome success dst \<Rightarrow> bus_outcome success dst s
      | Wake \<Rightarrow> Some (loop_end s)
      | Terminate \<Rightarrow> Some (bus_terminate s))"

text \<open>
  When a step can happen, and what the callers keep to: commands are entries of the tables,
  a write has its payload, \<open>malloc\<close> returns memory that is not in use, the driver fills
  the length asked for.
\<close>

fun event_ok :: "'h bus \<Rightarrow> 'h event \<Rightarrow> bool" where
  "event_ok s (Schedule a b msg junk hnd) \<longleftrightarrow> bc_ok b \<and> mem s a = None \<and>
     (if write (bc b) then (case msg of None \<Rightarrow> False | Some bs \<Rightarrow> len (bc b) \<le> length bs)
      else length junk = len (bc b))"
| "event_ok s Take \<longleftrightarrow> pc s = Head"
| "event_ok s (Outcome success dst) \<longleftrightarrow>
     (case pc s of
        Exec a \<Rightarrow> (case dst of None \<Rightarrow> True | Some d \<Rightarrow>
          (case mem s a of None \<Rightarrow> True | Some n \<Rightarrow> length d = len (bc (o_bc n))))
      | _ \<Rightarrow> False)"
| "event_ok s Wake \<longleftrightarrow> pc s = Wait"
| "event_ok s Terminate \<longleftrightarrow> True"

inductive bus_steps :: "'h bus \<Rightarrow> 'h event list \<Rightarrow> 'h bus \<Rightarrow> bool" where
  nil: "bus_steps s [] s"
| snoc: "bus_steps s es s1 \<Longrightarrow> event_ok s1 e \<Longrightarrow> bus_step s1 e = Some s2 \<Longrightarrow> bus_steps s (es @ [e]) s2"

inductive_cases bus_steps_nilE: "bus_steps s [] s'"
inductive_cases bus_steps_snocE: "bus_steps s (es @ [e]) s'"

section \<open>What the bus promises\<close>

text \<open>The same bus with its queue as a list of orders and the order in execution as a value.\<close>

datatype 'h apc = AHead | AExec "'h order" | AWait | AExited

record 'h abus =
  orders :: "'h order list"
  apc :: "'h apc"
  aterm :: bool
  aquit :: bool
  aserved :: "'h order list"

definition abus_create :: "'h abus" where
  "abus_create = \<lparr>orders = [], apc = AHead, aterm = False, aquit = False, aserved = []\<rparr>"

definition payload_of :: "bc_ptr \<Rightarrow> u8 list option \<Rightarrow> u8 list \<Rightarrow> u8 list" where
  "payload_of b msg junk =
     (if write (bc b) then take (len (bc b)) (case msg of None \<Rightarrow> [] | Some bs \<Rightarrow> bs) else junk)"

definition aloop_end :: "'h abus \<Rightarrow> 'h abus" where
  "aloop_end s = s\<lparr>apc := (if aquit s then AExited else AHead)\<rparr>"

definition received :: "u8 list option \<Rightarrow> 'h order \<Rightarrow> 'h order" where
  "received dst p =
     (case dst of None \<Rightarrow> p | Some d \<Rightarrow> if write (bc (o_bc p)) then p else p\<lparr>src_dst := d\<rparr>)"

fun abus_step :: "'h abus \<Rightarrow> 'h event \<Rightarrow> 'h abus" where
  "abus_step s (Schedule a b msg junk hnd) =
     s\<lparr>orders := oq (orders s) \<lparr>o_bc = b, src_dst = payload_of b msg junk, handler = hnd\<rparr> False\<rparr>"
| "abus_step s Take =
     (case orders s of
        [] \<Rightarrow> s\<lparr>aquit := aterm s, apc := AWait\<rparr>
      | p # ps \<Rightarrow> s\<lparr>orders := ps, aquit := aterm s, apc := AExec p\<rparr>)"
| "abus_step s (Outcome success dst) =
     (case apc s of
        AExec p \<Rightarrow>
          aloop_end
            (if success then s\<lparr>aserved := received dst p # aserved s\<rparr>
             else s\<lparr>orders := oq (orders s) (received dst p) True\<rparr>)
      | _ \<Rightarrow> s)"
| "abus_step s Wake = aloop_end s"
| "abus_step s Terminate = s\<lparr>aterm := True\<rparr>"

text \<open>
  The memory holds the orders of the queue, at the addresses \<open>as\<close>, the one in execution,
  and nothing else.
\<close>

definition held :: "'h bus \<Rightarrow> addr set" where
  "held s = (case pc s of Exec x \<Rightarrow> {x} | _ \<Rightarrow> {})"

definition apc_of :: "'h bus \<Rightarrow> 'h apc" where
  "apc_of s =
     (case pc s of
        Head \<Rightarrow> AHead
      | Exec x \<Rightarrow> AExec (order.truncate (the (mem s x)))
      | Wait \<Rightarrow> AWait
      | Exited \<Rightarrow> AExited)"

definition bus_rel :: "addr list \<Rightarrow> 'h bus \<Rightarrow> 'h abus \<Rightarrow> bool" where
  "bus_rel as s a \<longleftrightarrow>
     queue_rep s as \<and> dom (mem s) = set as \<union> held s \<and> set as \<inter> held s = {}
     \<and> a = \<lparr>orders = orders_at (mem s) as, apc = apc_of s, aterm = terminate s, aquit = quit s, aserved = served s\<rparr>"

definition bus_sim :: "'h bus \<Rightarrow> 'h abus \<Rightarrow> bool" where
  "bus_sim s a \<longleftrightarrow> (\<exists>as. bus_rel as s a)"

lemma bus_sim_create: "bus_sim bus_create abus_create"
  by (simp add: bus_sim_def bus_rel_def bus_create_def abus_create_def queue_rep_def held_def apc_of_def)

lemma truncate_new [simp]:
  "order.truncate \<lparr>o_bc = b, src_dst = d, handler = h, next_order = x\<rparr> = \<lparr>o_bc = b, src_dst = d, handler = h\<rparr>"
  by (simp add: order.truncate_def)

lemma truncate_store_dst: "order.truncate (store_dst dst n) = received dst (order.truncate n)"
  by (simp add: store_dst_def received_def order.truncate_def split: option.splits)

text \<open>The fields beyond the queue, as the operations on the queue see them.\<close>

lemma more_eq:
  assumes "queue_state.more s' = queue_state.more (s :: 'h bus)"
  shows "terminate s' = terminate s" "pc s' = pc s" "quit s' = quit s" "served s' = served s"
    "packets_sent s' = packets_sent s" "packets_lost s' = packets_lost s"
  using assms by (cases s, cases s', simp only: bus.select_convs queue_state.select_convs bus.ext_inject)+

text \<open>An order joins the queue while \<open>keep\<close> is in execution.\<close>

lemma sim_enqueue:
  fixes s :: "'h bus"
  assumes rep: "queue_rep s as" and x: "x \<notin> set as" "mem s x = Some n" "x \<notin> keep"
    and dom: "dom (mem s) = insert x (set as) \<union> keep" "set as \<inter> keep = {}"
  shows "\<exists>s' as'. order_queue s x r = Some s' \<and> queue_rep s' as' \<and> queue_state.more s' = queue_state.more s
    \<and> dom (mem s') = set as' \<union> keep \<and> set as' \<inter> keep = {} \<and> (\<forall>y \<in> keep. mem s' y = mem s y)
    \<and> orders_at (mem s') as' = oq (orders_at (mem s) as) (order.truncate n) r"
proof -
  from order_queue_refines [OF rep x(1,2), of r] obtain s' where s1: "order_queue s x r = Some s'"
    and res: "queue_result s as x (oq (orders_at (mem s) as) (order.truncate n) r) s'"
    by (elim exE conjE)
  from res obtain as' where as': "queue_rep s' as'"
    "orders_at (mem s') as' = oq (orders_at (mem s) as) (order.truncate n) r"
    "set as' \<subseteq> insert x (set as)" "dom (mem s') = (dom (mem s) - insert x (set as)) \<union> set as'"
    "\<forall>a. a \<notin> insert x (set as) \<longrightarrow> mem s' a = mem s a" "queue_state.more s' = queue_state.more s"
    unfolding queue_result_def by (elim exE conjE)
  have 1: "dom (mem s') = set as' \<union> keep" unfolding as'(4) dom(1) using dom(2) x by auto
  have 2: "set as' \<inter> keep = {}" using as'(3) dom(2) x by auto
  have 3: "\<forall>y \<in> keep. mem s' y = mem s y" using as'(5) dom(2) x by auto
  show ?thesis using s1 as'(1,2,6) 1 2 3 by (intro exI [of _ s'] exI [of _ as'] conjI)
qed

lemma sim_schedule:
  assumes rel: "bus_rel as s a" and ok: "event_ok s (Schedule x b msg junk hnd)"
  shows "\<exists>s'. bus_schedule x b msg junk hnd s = Some s' \<and> bus_sim s' (abus_step a (Schedule x b msg junk hnd))"
proof -
  let ?n = "\<lparr>o_bc = b, src_dst = payload_of b msg junk, handler = hnd, next_order = None\<rparr>"
  let ?s = "s\<lparr>mem := (mem s)(x \<mapsto> ?n)\<rparr>"
  from rel have as: "queue_rep s as" "dom (mem s) = set as \<union> held s" "set as \<inter> held s = {}"
    by (simp_all add: bus_rel_def)
  with ok have x: "x \<notin> set as" "x \<notin> held s" by auto
  have "queue_rep ?s as" using as(1) x by (simp add: queue_rep_def)
  from sim_enqueue [OF this x(1) _ x(2), of ?n False] as obtain s' as' where
    s': "order_queue ?s x False = Some s'" "queue_rep s' as'" "queue_state.more s' = queue_state.more s"
    "dom (mem s') = set as' \<union> held s" "set as' \<inter> held s = {}" "\<forall>y \<in> held s. mem s' y = mem ?s y"
    "orders_at (mem s') as' = oq (orders_at (mem s) as) (order.truncate ?n) False"
    using x by auto
  have "bus_schedule x b msg junk hnd s = order_queue ?s x False"
    using ok by (auto simp: bus_schedule_def payload_of_def split: option.splits if_splits)
  moreover have "held s' = held s" "apc_of s' = apc_of s"
    using s'(6) x(2) more_eq [OF s'(3)] by (auto simp: held_def apc_of_def split: pc.splits)
  then have "bus_rel as' s' (abus_step a (Schedule x b msg junk hnd))"
    using rel s' more_eq [OF s'(3)] by (simp add: bus_rel_def)
  ultimately show ?thesis using s'(1) by (auto simp: bus_sim_def)
qed

lemma sim_take:
  assumes rel: "bus_rel as s a" and ok: "event_ok s Take"
  shows "\<exists>s'. bus_take s = Some s' \<and> bus_sim s' (abus_step a Take)"
proof (cases as)
  case Nil
  with rel ok order_pop_refines(1) [of s as] show ?thesis
    by (auto simp: bus_take_def bus_sim_def bus_rel_def queue_rep_def held_def apc_of_def
        intro!: exI [of _ "[]"])
next
  case (Cons x as')
  from rel have rep: "queue_rep s as" by (simp add: bus_rel_def)
  let ?s = "s\<lparr>queue := next_order (the (mem s x))\<rparr>"
  let ?s' = "?s\<lparr>quit := terminate s, pc := Exec x\<rparr>"
  have "bus_take s = Some ?s'"
    using order_pop_refines(1) [OF rep] Cons by (simp add: bus_take_def)
  moreover have "queue_rep ?s' as'"
    using order_pop_refines(2) [OF rep Cons] by (simp add: queue_rep_def)
  then have "bus_rel as' ?s' (abus_step a Take)"
    using rel ok Cons by (auto simp: bus_rel_def held_def apc_of_def queue_rep_def)
  ultimately show ?thesis by (auto simp: bus_sim_def)
qed

lemma sim_outcome:
  assumes rel: "bus_rel as s a" and ok: "event_ok s (Outcome success dst)"
  shows "\<exists>s'. bus_outcome success dst s = Some s' \<and> bus_sim s' (abus_step a (Outcome success dst))"
proof -
  from ok obtain x where pc: "pc s = Exec x" by (auto split: pc.splits)
  from rel pc obtain n0 where n0: "mem s x = Some n0" "x \<notin> set as" "dom (mem s) = insert x (set as)"
    by (auto simp: bus_rel_def held_def)
  let ?n = "store_dst dst n0"
  let ?s = "s\<lparr>mem := (mem s)(x \<mapsto> ?n), packets_sent := packets_sent s + 1\<rparr>"
  have rep: "queue_rep ?s as" using rel n0 by (simp add: bus_rel_def queue_rep_def)
  have a: "apc a = AExec (order.truncate n0)" using rel pc n0 by (simp add: bus_rel_def apc_of_def)
  show ?thesis
  proof (cases success)
    case True
    let ?s' = "loop_end (?s\<lparr>mem := free x (mem ?s), served := order.truncate ?n # served ?s\<rparr>)"
    have "bus_outcome success dst s = Some ?s'"
      using pc n0 True by (simp add: bus_outcome_def Let_def)
    moreover have "bus_rel as ?s' (abus_step a (Outcome success dst))"
      using rel rep n0 True a
      by (auto simp: bus_rel_def queue_rep_def loop_end_def aloop_end_def free_def held_def apc_of_def
          truncate_store_dst)
    ultimately show ?thesis by (auto simp: bus_sim_def)
  next
    case False
    let ?s1 = "?s\<lparr>packets_lost := packets_lost s + 1\<rparr>"
    have rep1: "queue_rep ?s1 as" using rep by (simp add: queue_rep_def)
    from sim_enqueue [OF rep1 n0(2), of ?n "{}" True] n0 obtain s' as' where
      s': "order_queue ?s1 x True = Some s'" "queue_rep s' as'" "queue_state.more s' = queue_state.more ?s1"
        "dom (mem s') = set as'"
        "orders_at (mem s') as' = oq (orders_at (mem s) as) (order.truncate ?n) True"
      by auto
    have "bus_outcome success dst s = Some (loop_end s')"
      using pc n0 False s'(1) by (simp add: bus_outcome_def Let_def)
    moreover have "bus_rel as' (loop_end s') (abus_step a (Outcome success dst))"
      using rel s' False a more_eq [OF s'(3)]
      by (auto simp: bus_rel_def queue_rep_def loop_end_def aloop_end_def held_def apc_of_def
          truncate_store_dst)
    ultimately show ?thesis by (auto simp: bus_sim_def)
  qed
qed

lemma sim_step:
  assumes "bus_sim s a" "event_ok s e"
  shows "\<exists>s'. bus_step s e = Some s' \<and> bus_sim s' (abus_step a e)"
proof -
  from assms(1) obtain as where rel: "bus_rel as s a" by (auto simp: bus_sim_def)
  show ?thesis
  proof (cases e)
    case (Schedule x b msg junk hnd)
    then show ?thesis using sim_schedule [OF rel] assms(2) by (simp add: bus_step_def)
  next
    case Take
    then show ?thesis using sim_take [OF rel] assms(2) by (simp add: bus_step_def)
  next
    case (Outcome success dst)
    then show ?thesis using sim_outcome [OF rel] assms(2) by (simp add: bus_step_def)
  next
    case Wake
    then show ?thesis
      using rel assms(2)
      by (auto simp: bus_step_def loop_end_def aloop_end_def bus_sim_def bus_rel_def queue_rep_def
          held_def apc_of_def intro!: exI [of _ as])
  next
    case Terminate
    then show ?thesis
      using rel
      by (auto simp: bus_step_def bus_terminate_def bus_sim_def bus_rel_def queue_rep_def
          held_def apc_of_def intro!: exI [of _ as] split: pc.splits)
  qed
qed

text \<open>A run of the bus is a run of the specification.\<close>

definition abus_run :: "'h abus \<Rightarrow> 'h event list \<Rightarrow> 'h abus" where
  "abus_run a es = foldl abus_step a es"

lemma abus_run_simps [simp]:
  "abus_run a [] = a" "abus_run a (es @ [e]) = abus_step (abus_run a es) e"
  by (simp_all add: abus_run_def)

lemma sim_run: "bus_steps s es s' \<Longrightarrow> bus_sim s a \<Longrightarrow> bus_sim s' (abus_run a es)"
proof (induction rule: bus_steps.induct)
  case (snoc s es s1 e s2)
  then show ?case using sim_step [of s1 "abus_run a es" e] by auto
qed simp

text \<open>When an event is possible, in the terms of the specification.\<close>

fun aevent_ok :: "'h abus \<Rightarrow> 'h event \<Rightarrow> bool" where
  "aevent_ok s (Schedule a b msg junk hnd) \<longleftrightarrow> bc_ok b \<and>
     (if write (bc b) then (case msg of None \<Rightarrow> False | Some bs \<Rightarrow> len (bc b) \<le> length bs)
      else length junk = len (bc b))"
| "aevent_ok s Take \<longleftrightarrow> apc s = AHead"
| "aevent_ok s (Outcome success dst) \<longleftrightarrow>
     (case apc s of
        AExec p \<Rightarrow> (case dst of None \<Rightarrow> True | Some d \<Rightarrow> length d = len (bc (o_bc p)))
      | _ \<Rightarrow> False)"
| "aevent_ok s Wake \<longleftrightarrow> apc s = AWait"
| "aevent_ok s Terminate \<longleftrightarrow> True"

lemma sim_event_ok: "bus_sim s a \<Longrightarrow> event_ok s e \<Longrightarrow> aevent_ok a e"
  by (cases e) (auto simp: bus_sim_def bus_rel_def apc_of_def held_def split: pc.splits option.splits)

inductive abus_steps :: "'h abus \<Rightarrow> 'h event list \<Rightarrow> 'h abus \<Rightarrow> bool" where
  nil: "abus_steps a [] a"
| snoc: "abus_steps a es a1 \<Longrightarrow> aevent_ok a1 e \<Longrightarrow> abus_steps a (es @ [e]) (abus_step a1 e)"

lemma sim_steps:
  "bus_steps s es s' \<Longrightarrow> bus_sim s a \<Longrightarrow> \<exists>a'. abus_steps a es a' \<and> bus_sim s' a'"
proof (induction rule: bus_steps.induct)
  case (nil s)
  then show ?case by (auto intro: abus_steps.nil)
next
  case (snoc s es s1 e s2)
  then obtain a1 where a1: "abus_steps a es a1" "bus_sim s1 a1" by blast
  with snoc.hyps sim_step [OF a1(2)] sim_event_ok [OF a1(2)] show ?case
    by (force intro: abus_steps.snoc)
qed

section \<open>Invariants of the specification\<close>

lemma abus_steps_run: "abus_steps a es a' \<Longrightarrow> a' = abus_run a es"
  by (induction rule: abus_steps.induct) auto

definition order_fits :: "'h order \<Rightarrow> bool" where
  "order_fits p \<longleftrightarrow> bc_ok (o_bc p) \<and> length (src_dst p) = len (bc (o_bc p))"

definition abus_inv :: "'h abus \<Rightarrow> bool" where
  "abus_inv a \<longleftrightarrow> distinct (map o_bc (orders a)) \<and> (\<forall>p \<in> set (orders a). order_fits p)
     \<and> (case apc a of AExec p \<Rightarrow> order_fits p | _ \<Rightarrow> True)"

lemma abus_inv_create: "abus_inv abus_create"
  by (simp add: abus_inv_def abus_create_def)

lemma fits_scheduled:
  "aevent_ok a (Schedule x b msg junk hnd) \<Longrightarrow>
   order_fits \<lparr>o_bc = b, src_dst = payload_of b msg junk, handler = hnd\<rparr>"
  by (auto simp: order_fits_def payload_of_def split: if_splits option.splits)

lemma received_simps [simp]: "o_bc (received dst p) = o_bc p" "write (bc (o_bc p)) \<Longrightarrow> received dst p = p"
  by (simp_all add: received_def split: option.splits)

lemma fits_received:
  "order_fits p \<Longrightarrow> (case dst of None \<Rightarrow> True | Some d \<Rightarrow> length d = len (bc (o_bc p))) \<Longrightarrow>
   order_fits (received dst p)"
  by (auto simp: order_fits_def received_def split: option.splits)

lemma oq_fits: "(\<forall>c \<in> set q. order_fits c) \<Longrightarrow> order_fits p \<Longrightarrow> \<forall>c \<in> set (oq q p r). order_fits c"
  by (rule fifo.all_items)

lemma abus_inv_step: "abus_inv a \<Longrightarrow> aevent_ok a e \<Longrightarrow> abus_inv (abus_step a e)"
proof (cases e)
  case (Schedule x b msg junk hnd)
  moreover assume "abus_inv a" "aevent_ok a e"
  ultimately show ?thesis
    using oq_fits [of "orders a", OF _ fits_scheduled [of a x b msg junk hnd]]
    by (simp add: abus_inv_def oq_distinct del: aevent_ok.simps)
next
  case (Outcome success dst)
  moreover assume "abus_inv a" "aevent_ok a e"
  ultimately show ?thesis
    by (auto simp: abus_inv_def aloop_end_def oq_distinct fits_received
        dest!: oq_fits [THEN bspec, rotated 2] split: apc.splits if_splits)
qed (auto simp: abus_inv_def aloop_end_def split: list.splits)

lemma abus_inv_run: "abus_steps a es a' \<Longrightarrow> abus_inv a \<Longrightarrow> abus_inv a'"
  by (induction rule: abus_steps.induct) (auto intro: abus_inv_step)

subsection \<open>The newest value\<close>

text \<open>The payload last scheduled for a command.\<close>

definition latest :: "bc_ptr \<Rightarrow> 'h event list \<Rightarrow> u8 list option" where
  "latest b es =
     foldl (\<lambda>v e. case e of Schedule x b' msg junk hnd \<Rightarrow> if b' = b then Some (payload_of b msg junk) else v
                            | _ \<Rightarrow> v) None es"

lemma latest_simps [simp]:
  "latest b [] = None"
  "latest b (es @ [e]) =
     (case e of Schedule x b' msg junk hnd \<Rightarrow> if b' = b then Some (payload_of b msg junk) else latest b es
              | _ \<Rightarrow> latest b es)"
  by (simp_all add: latest_def split: event.split)

text \<open>
  The value \<open>v\<close> for \<open>b\<close> is waiting, or it is being sent and nothing else waits, or it was
  the last that was sent with success.
\<close>

definition settled :: "bc_ptr \<Rightarrow> u8 list \<Rightarrow> 'h abus \<Rightarrow> bool" where
  "settled b v a \<longleftrightarrow>
     (case apc a of
        AExec p \<Rightarrow> if o_bc p = b then src_dst p = v
                   else \<exists>q. List.find (\<lambda>p. o_bc p = b) (aserved a) = Some q \<and> src_dst q = v
      | _ \<Rightarrow> \<exists>q. List.find (\<lambda>p. o_bc p = b) (aserved a) = Some q \<and> src_dst q = v)"

definition carries :: "bc_ptr \<Rightarrow> u8 list \<Rightarrow> 'h abus \<Rightarrow> bool" where
  "carries b v a \<longleftrightarrow>
     (\<exists>p \<in> set (orders a). o_bc p = b \<and> src_dst p = v) \<or> b \<notin> o_bc ` set (orders a) \<and> settled b v a"

lemma settled_frame [simp]:
  "settled b v (a\<lparr>orders := q\<rparr>) = settled b v a" "settled b v (a\<lparr>aterm := x\<rparr>) = settled b v a"
  by (simp_all add: settled_def split: apc.split)

lemma carries_oq:
  assumes "carries b v a" "o_bc p \<noteq> b \<or> r"
    and "o_bc p = b \<longrightarrow> b \<notin> o_bc ` set (orders a) \<longrightarrow> src_dst p = v"
  shows "carries b v (a\<lparr>orders := oq (orders a) p r\<rparr>)"
proof (cases "\<exists>c \<in> set (orders a). o_bc c = b \<and> src_dst c = v")
  case True
  then obtain c where "c \<in> set (orders a)" "o_bc c = b" "src_dst c = v" by blast
  with fifo.younger_survives [of c "orders a" p r] assms(2) show ?thesis
    by (auto simp: carries_def)
next
  case False
  with assms(1) have none: "b \<notin> o_bc ` set (orders a)" by (auto simp: carries_def)
  show ?thesis
  proof (cases "o_bc p = b")
    case True
    with none assms(2,3) fifo.enq_requeue_new [of p "orders a"] show ?thesis
      by (auto simp: carries_def)
  next
    case other: False
    with none have "b \<notin> o_bc ` set (oq (orders a) p r)" by (simp add: oq_set_keys)
    with assms(1) False show ?thesis by (auto simp: carries_def)
  qed
qed

lemma carries_step:
  assumes c: "carries b v a" and "abus_inv a" "aevent_ok a e" "write (bc b)"
    and other: "\<And>x msg junk hnd. e \<noteq> Schedule x b msg junk hnd"
  shows "carries b v (abus_step a e)"
proof (cases e)
  case (Schedule x b' msg junk hnd)
  with other have "b' \<noteq> b" by blast
  then show ?thesis using Schedule c by (simp add: carries_oq)
next
  case Take
  then show ?thesis
    using assms(1-3) by (auto simp: carries_def settled_def abus_inv_def split: list.splits)
next
  case (Outcome success dst)
  then obtain p where p: "apc a = AExec p" using assms(3) by (auto split: apc.splits)
  let ?p = "received dst p"
  have own: "o_bc p = b \<Longrightarrow> ?p = p" using assms(4) by simp
  show ?thesis
  proof (cases success)
    case True
    with Outcome p c own show ?thesis
      by (auto simp: carries_def settled_def aloop_end_def split: if_splits)
  next
    case False
    let ?a = "a\<lparr>orders := oq (orders a) ?p True\<rparr>"
    have "src_dst ?p = v" if "o_bc ?p = b" "b \<notin> o_bc ` set (orders a)"
    proof -
      from c that(2) have "settled b v a" unfolding carries_def by blast
      with that(1) own p show ?thesis by (simp add: settled_def)
    qed
    with c have "carries b v ?a" by (intro carries_oq) auto
    moreover have "o_bc p \<in> o_bc ` set (orders ?a)"
      using oq_set_keys [of "orders a" ?p True] by simp
    ultimately have "carries b v (aloop_end ?a)"
      using p by (auto simp: carries_def settled_def aloop_end_def split: if_splits)
    then show ?thesis using False Outcome p by simp
  qed
next
  case Wake
  then show ?thesis using c assms(3) by (auto simp: carries_def settled_def aloop_end_def)
next
  case Terminate
  then show ?thesis using c by (simp add: carries_def)
qed

lemma carries_latest:
  "abus_steps abus_create es a \<Longrightarrow> latest b es = Some v \<Longrightarrow> write (bc b) \<Longrightarrow> carries b v a"
proof (induction es arbitrary: a v rule: rev_induct)
  case (snoc e es)
  from snoc.prems(1) obtain a1 where a1: "abus_steps abus_create es a1" "aevent_ok a1 e" "a = abus_step a1 e"
    by (cases rule: abus_steps.cases) auto
  show ?case
  proof (cases "\<exists>x msg junk hnd. e = Schedule x b msg junk hnd")
    case True
    then obtain x msg junk hnd where e: "e = Schedule x b msg junk hnd" by blast
    then show ?thesis
      using snoc.prems(2) a1(3) oq_scheduled [of "\<lparr>o_bc = b, src_dst = payload_of b msg junk, handler = hnd\<rparr>" "orders a1"]
      by (force simp: carries_def)
  next
    case False
    then have "latest b es = Some v" using snoc.prems(2) by (auto split: event.splits if_splits)
    with snoc.IH [OF a1(1)] snoc.prems(3) have "carries b v a1" by blast
    with carries_step [OF this abus_inv_run [OF a1(1) abus_inv_create] a1(2) snoc.prems(3)] False a1(3)
    show ?thesis by blast
  qed
qed simp

subsection \<open>Places in the queue\<close>

definition at_place :: "nat \<Rightarrow> bc_ptr \<Rightarrow> 'h abus \<Rightarrow> bool" where
  "at_place i b a \<longleftrightarrow> i < length (orders a) \<and> o_bc (orders a ! i) = b"

definition takes :: "'h event list \<Rightarrow> nat" where
  "takes es = length (filter (\<lambda>e. e = Take) es)"

lemma takes_simps [simp]: "takes [] = 0" "takes (es @ [e]) = (if e = Take then Suc (takes es) else takes es)"
  by (simp_all add: takes_def)

lemma at_place_keys: "at_place i b a \<longleftrightarrow> i < length (fifo.keys (orders a)) \<and> fifo.keys (orders a) ! i = b"
  by (auto simp: at_place_def fifo.keys_def)

lemma at_place_oq: "at_place i b a \<Longrightarrow> at_place i b (a\<lparr>orders := oq (orders a) p r\<rparr>)"
  using fifo.place_kept [of i "orders a" p r] by (auto simp: at_place_keys)

lemma at_place_step:
  assumes "at_place i b a" "e \<noteq> Take"
  shows "at_place i b (abus_step a e)"
proof (cases e)
  case (Outcome success dst)
  then show ?thesis
    using assms(1) at_place_oq [OF assms(1)]
    by (cases "apc a") (auto simp: aloop_end_def at_place_def)
qed (use assms at_place_oq in \<open>auto simp: aloop_end_def at_place_def\<close>)

lemma at_place_take:
  "at_place (Suc i) b a \<Longrightarrow> at_place i b (abus_step a Take)"
  "at_place 0 b a \<Longrightarrow> \<exists>p. apc (abus_step a Take) = AExec p \<and> o_bc p = b"
  by (auto simp: at_place_def split: list.splits)

lemma place_run:
  assumes "abus_steps a es a'" "at_place i b a"
  shows "(takes es \<le> i \<longrightarrow> at_place (i - takes es) b a')
    \<and> (i < takes es \<longrightarrow> (\<exists>es1 es2 p. es = es1 @ es2 \<and> apc (abus_run a es1) = AExec p \<and> o_bc p = b))"
  using assms
proof (induction rule: abus_steps.induct)
  case (snoc a es a1 e)
  have a1: "a1 = abus_run a es" by (rule abus_steps_run [OF snoc.hyps(1)])
  show ?case
  proof (cases "i < takes es")
    case True
    then obtain es1 es2 p where "es = es1 @ es2" "apc (abus_run a es1) = AExec p" "o_bc p = b"
      using snoc by blast
    moreover from this have "es @ [e] = es1 @ (es2 @ [e])" by simp
    ultimately show ?thesis using True by (metis takes_simps(2) less_SucI not_less)
  next
    case False
    then have place: "at_place (i - takes es) b a1" using snoc by auto
    show ?thesis
    proof (cases "e = Take")
      case take: True
      show ?thesis
      proof (cases "takes es = i")
        case True
        with at_place_take(2) [of b a1] place take obtain p where
          "apc (abus_step a1 Take) = AExec p" "o_bc p = b" by auto
        then have "es @ [e] = (es @ [e]) @ [] \<and> apc (abus_run a (es @ [e])) = AExec p \<and> o_bc p = b"
          using take a1 by (simp del: abus_step.simps)
        moreover have "takes (es @ [e]) = Suc i" using True take by simp
        ultimately show ?thesis by (metis Suc_n_not_le_n)
      next
        case neq: False
        then have "i - takes es = Suc (i - Suc (takes es))" using False by simp
        with at_place_take(1) [of "i - Suc (takes es)" b a1] place take neq False show ?thesis by auto
      qed
    next
      case False
      with at_place_step [OF place] \<open>\<not> i < takes es\<close> show ?thesis by simp
    qed
  qed
qed simp

subsection \<open>Ending\<close>

fun thread_event :: "'h event \<Rightarrow> bool" where
  "thread_event Take = True"
| "thread_event (Outcome success dst) = True"
| "thread_event Wake = True"
| "thread_event e = False"

text \<open>The rounds the thread still makes once it has been told to end.\<close>

definition rank :: "'h abus \<Rightarrow> nat" where
  "rank a = (case apc a of AExited \<Rightarrow> 0 | AHead \<Rightarrow> 2 | _ \<Rightarrow> if aquit a then 1 else 3)"

lemma rank_step:
  assumes "aterm a" "aevent_ok a e"
  shows "aterm (abus_step a e)
    \<and> rank (abus_step a e) + (if thread_event e then 1 else 0) = rank a"
  using assms by (cases e) (auto simp: rank_def aloop_end_def split: apc.splits list.splits)

lemma rank_run:
  "abus_steps a es a' \<Longrightarrow> aterm a \<Longrightarrow> aterm a' \<and> rank a' + length (filter thread_event es) = rank a"
proof (induction rule: abus_steps.induct)
  case (snoc a es a1 e)
  then show ?case using rank_step [of a1 e] by auto
qed simp

lemma takes_rank:
  "abus_steps a es a' \<Longrightarrow> aterm a \<Longrightarrow> takes es \<le> 1 \<and> (0 < takes es \<longrightarrow> rank a' \<le> 1)"
proof (induction rule: abus_steps.induct)
  case (snoc a es a1 e)
  from rank_run [OF snoc.hyps(1) snoc.prems] have ending: "aterm a1" by blast
  note step = rank_step [OF this snoc.hyps(2)]
  show ?case
  proof (cases "e = Take")
    case True
    then have "rank a1 = 2" using snoc.hyps(2) by (simp add: rank_def)
    with step snoc.IH [OF snoc.prems] True show ?thesis by (simp del: abus_step.simps)
  next
    case False
    with step snoc.IH [OF snoc.prems] show ?thesis by (simp del: abus_step.simps) linarith
  qed
qed simp

section \<open>From the specification to the code\<close>

lemma bus_steps_append:
  "bus_steps s (es1 @ es2) s2 \<Longrightarrow> \<exists>s1. bus_steps s es1 s1 \<and> bus_steps s1 es2 s2"
proof (induction es2 arbitrary: s2 rule: rev_induct)
  case Nil
  then show ?case by (auto intro: bus_steps.nil)
next
  case (snoc e es2)
  from snoc.prems obtain s1 where s1: "bus_steps s (es1 @ es2) s1" "event_ok s1 e" "bus_step s1 e = Some s2"
    by (cases rule: bus_steps.cases) auto
  with snoc.IH [OF s1(1)] show ?case by (blast intro: bus_steps.snoc)
qed

lemma bus_steps_trans: "bus_steps s1 es2 s2 \<Longrightarrow> bus_steps s es1 s1 \<Longrightarrow> bus_steps s (es1 @ es2) s2"
proof (induction rule: bus_steps.induct)
  case (snoc s1 es s2 e s3)
  then have "bus_steps s ((es1 @ es) @ [e]) s3" by (blast intro: bus_steps.snoc)
  then show ?case by simp
qed simp

lemma run_from_create:
  assumes "bus_steps bus_create es s"
  obtains a where "abus_steps abus_create es a" "bus_sim s a" "abus_inv a" "a = abus_run abus_create es"
  using sim_steps [OF assms bus_sim_create] abus_inv_run [OF _ abus_inv_create] abus_steps_run by blast

lemma sim_queue: "bus_sim s a \<Longrightarrow> queue_rep s as \<Longrightarrow> orders a = orders_at (mem s) as"
  unfolding bus_sim_def bus_rel_def queue_rep_def by (auto dest: seg_determines)

lemma sim_memory: "bus_sim s a \<Longrightarrow> queue_rep s as \<Longrightarrow> dom (mem s) = set as \<union> held s"
  unfolding bus_sim_def bus_rel_def queue_rep_def by (auto dest: seg_determines)

lemma sim_pc: "bus_sim s a \<Longrightarrow> apc a = apc_of s \<and> aterm a = terminate s \<and> aquit a = quit s \<and> aserved a = served s"
  by (auto simp: bus_sim_def bus_rel_def)

lemma sim_rep: "bus_sim s a \<Longrightarrow> \<exists>as. queue_rep s as"
  by (auto simp: bus_sim_def bus_rel_def)

lemma order_at: "i < length as \<Longrightarrow> orders_at m as ! i = order.truncate (the (m (as ! i)))"
  by (simp add: orders_at_def)

lemma length_orders_at [simp]: "length (orders_at m as) = length as"
  by (simp add: orders_at_def)

lemma place_in_queue:
  assumes "bus_sim s a" "queue_rep s as"
  shows "at_place i b a \<longleftrightarrow> i < length as \<and> o_bc (the (mem s (as ! i))) = b"
  using sim_queue [OF assms] order_at [of i as "mem s"] by (auto simp: at_place_def)

lemma pc_exec: "apc_of s = AExec p \<Longrightarrow> \<exists>x. pc s = Exec x \<and> p = order.truncate (the (mem s x))"
  by (auto simp: apc_of_def split: pc.splits)

lemma newest_value_run:
  assumes "bus_steps bus_create es s" "queue_rep s as" "latest b es = Some v" "write (bc b)"
  shows "(\<exists>p \<in> set (orders_at (mem s) as). o_bc p = b \<and> src_dst p = v)
    \<or> b \<notin> o_bc ` set (orders_at (mem s) as) \<and>
       ((\<exists>x. pc s = Exec x \<and> o_bc (the (mem s x)) = b \<and> src_dst (the (mem s x)) = v)
        \<or> (\<forall>x. pc s = Exec x \<longrightarrow> o_bc (the (mem s x)) \<noteq> b)
          \<and> (\<exists>p. List.find (\<lambda>p. o_bc p = b) (served s) = Some p \<and> src_dst p = v))"
proof -
  from assms(1) obtain a where a: "abus_steps abus_create es a" "bus_sim s a" by (rule run_from_create)
  from carries_latest [OF a(1) assms(3,4)] show ?thesis
    using sim_queue [OF a(2) assms(2)] sim_pc [OF a(2)]
    by (auto simp: carries_def settled_def apc_of_def split: pc.splits if_splits)
qed

lemma order_reached:
  assumes "bus_steps bus_create es s" "queue_rep s as" "i < length as" "o_bc (the (mem s (as ! i))) = b"
    and "bus_steps s es' s'" "i < takes es'"
  shows "\<exists>es1 es2 s1 x. es' = es1 @ es2 \<and> bus_steps s es1 s1 \<and> bus_steps s1 es2 s'
    \<and> pc s1 = Exec x \<and> o_bc (the (mem s1 x)) = b"
proof -
  from assms(1) obtain a where a: "bus_sim s a" by (rule run_from_create)
  from sim_steps [OF assms(5) this] obtain a' where a': "abus_steps a es' a'" by blast
  have "at_place i b a" using place_in_queue [OF a assms(2)] assms(3,4) by simp
  with place_run [OF a'] assms(6) obtain es1 es2 p where
    split: "es' = es1 @ es2" "apc (abus_run a es1) = AExec p" "o_bc p = b" by blast
  from bus_steps_append [of s es1 es2 s'] assms(5) split(1) obtain s1 where
    s1: "bus_steps s es1 s1" "bus_steps s1 es2 s'" by blast
  have "apc_of s1 = AExec p" using sim_pc [OF sim_run [OF s1(1) a]] split(2) by simp
  with pc_exec [of s1 p] obtain x where "pc s1 = Exec x" "o_bc (the (mem s1 x)) = o_bc p" by auto
  with split s1 show ?thesis by blast
qed

section \<open>Properties\<close>

text \<open>C1. The linked list implements the queue of orders: in every interleaving of the bus thread
  with any number of clients, each step runs to its end, touches allocated memory only, and
  leaves memory holding the orders the specification has, and no others.\<close>

theorem bus_implements_queue:
  assumes "bus_steps bus_create es s" "event_ok s e"
  shows "\<exists>s'. bus_step s e = Some s' \<and> bus_sim s' (abus_run abus_create (es @ [e]))"
proof -
  from assms(1) obtain a where "bus_sim s a" "a = abus_run abus_create es" by (rule run_from_create)
  with sim_step [of s a e] assms(2) show ?thesis by simp
qed

text \<open>C14. The queue holds at most one order per command, so at most thirteen, and every buffer
  has the length its command transfers.\<close>

theorem bus_queue_bounded:
  assumes "bus_steps bus_create es s" "queue_rep s as"
  shows "distinct (map o_bc (orders_at (mem s) as)) \<and> length as \<le> 13
    \<and> (\<forall>p \<in> set (orders_at (mem s) as). bc_ok (o_bc p) \<and> length (src_dst p) = len (bc (o_bc p)))"
proof -
  from assms(1) obtain a where a: "bus_sim s a" "abus_inv a" by (rule run_from_create)
  have q: "orders a = orders_at (mem s) as" by (rule sim_queue [OF a(1) assms(2)])
  with a(2) have d: "distinct (fifo.keys (orders a))" and f: "\<forall>p \<in> set (orders a). order_fits p"
    by (simp_all add: abus_inv_def fifo.keys_def)
  from f have "set (fifo.keys (orders a)) \<subseteq> set bc_valid_ptrs"
    by (auto simp: order_fits_def bc_ok_iff fifo.keys_def)
  from fifo.length_bounded [OF d this] have "length as \<le> 13"
    by (simp add: q bc_valid_ptrs_def)
  with d f q show ?thesis by (simp add: order_fits_def fifo.keys_def)
qed

text \<open>The newest value wins: the payload last scheduled for a write command is in the queue,
  or it is the one being sent and no other waits, or it is the last that was sent with
  success. No failed transmission brings an older value back.\<close>

theorem bus_newest_value:
  assumes "bus_steps bus_create es s" "queue_rep s as" "latest b es = Some v" "write (bc b)"
  shows "(\<exists>p \<in> set (orders_at (mem s) as). o_bc p = b \<and> src_dst p = v)
    \<or> b \<notin> o_bc ` set (orders_at (mem s) as) \<and>
       ((\<exists>x. pc s = Exec x \<and> o_bc (the (mem s x)) = b \<and> src_dst (the (mem s x)) = v)
        \<or> (\<forall>x. pc s = Exec x \<longrightarrow> o_bc (the (mem s x)) \<noteq> b)
          \<and> (\<exists>p. List.find (\<lambda>p. o_bc p = b) (served s) = Some p \<and> src_dst p = v))"
  by (rule newest_value_run [OF assms])

text \<open>C16. No order starves: an order at place \<open>i\<close> is executed at the latest by the \<open>i + 1\<close>st order
  the thread takes, whatever is scheduled, replaced, lost and requeued meanwhile.\<close>

theorem bus_no_starvation:
  assumes "bus_steps bus_create es s" "queue_rep s as" "i < length as" "o_bc (the (mem s (as ! i))) = b"
    and "bus_steps s es' s'" "i < takes es'"
  shows "\<exists>es1 es2 s1 x. es' = es1 @ es2 \<and> bus_steps s es1 s1 \<and> bus_steps s1 es2 s'
    \<and> pc s1 = Exec x \<and> o_bc (the (mem s1 x)) = b"
  by (rule order_reached [OF assms])

text \<open>C20. Told to end, the thread ends: it makes at most three more steps, at most one of which takes
  an order, and until it has ended it can always make one.\<close>

theorem bus_thread_ends:
  assumes "bus_steps bus_create es s" "terminate s" "bus_steps s es' s'"
  shows "length (filter thread_event es') \<le> 3 \<and> takes es' \<le> 1
    \<and> (length (filter thread_event es') = 3 \<longrightarrow> pc s' = Exited)
    \<and> (pc s' = Exited \<or> (\<exists>e. thread_event e \<and> event_ok s' e))"
proof -
  from assms(1) obtain a where a: "bus_sim s a" by (rule run_from_create)
  from sim_steps [OF assms(3) this] obtain a' where a': "abus_steps a es' a'" "bus_sim s' a'" by blast
  have t: "aterm a" using sim_pc [OF a] assms(2) by simp
  have r: "rank a' + length (filter thread_event es') = rank a" using rank_run [OF a'(1) t] by simp
  have le: "rank a \<le> 3" by (simp add: rank_def split: apc.split)
  have ex: "pc s' = Exited" if "rank a' = 0"
    using that sim_pc [OF a'(2)] by (auto simp: rank_def apc_of_def split: pc.splits if_splits)
  have "pc s' = Exited \<or> (\<exists>e. thread_event e \<and> event_ok s' e)"
  proof (cases "pc s'")
    case (Exec x)
    then have "thread_event (Outcome False None) \<and> event_ok s' (Outcome False None)" by simp
    then show ?thesis by blast
  qed (auto intro: exI [of _ Take] exI [of _ Wake])
  then show ?thesis using takes_rank [OF a'(1) t] r le ex by auto
qed

text \<open>Ending loses orders: when the thread is told to end, every order behind the first of the
  queue is still in the queue when it has ended. It is never sent.\<close>

theorem bus_end_drops_orders:
  assumes "bus_steps bus_create es s" "terminate s" "queue_rep s as" "0 < i" "i < length as"
    and "bus_steps s es' s'" "queue_rep s' as'"
  shows "\<exists>j < length as'. o_bc (the (mem s' (as' ! j))) = o_bc (the (mem s (as ! i))) \<and> i \<le> j + 1"
proof -
  from assms(1) obtain a where a: "bus_sim s a" by (rule run_from_create)
  from sim_steps [OF assms(6) this] obtain a' where a': "abus_steps a es' a'" "bus_sim s' a'" by blast
  have t: "aterm a" using sim_pc [OF a] assms(2) by simp
  have "takes es' \<le> i" using takes_rank [OF a'(1) t] assms(4) by simp
  moreover have "at_place i (o_bc (the (mem s (as ! i)))) a"
    using place_in_queue [OF a assms(3)] assms(5) by simp
  ultimately have "at_place (i - takes es') (o_bc (the (mem s (as ! i)))) a'"
    using place_run [OF a'(1)] by blast
  with place_in_queue [OF a'(2) assms(7)] takes_rank [OF a'(1) t] show ?thesis
    by (intro exI [of _ "i - takes es'"]) auto
qed

text \<open>Destroying the bus after its thread has ended frees every order: nothing is leaked and
  nothing is freed twice.\<close>

theorem bus_destroy_frees_all:
  assumes "bus_steps bus_create es s" "pc s = Exited"
  shows "bus_destroy s = Some (\<lambda>a. None)"
proof -
  from assms(1) obtain a where a: "bus_sim s a" by (rule run_from_create)
  from sim_rep [OF this] obtain as where as: "queue_rep s as" by blast
  from sim_memory [OF a this] assms(2) have "dom (mem s) = set as" by (simp add: held_def)
  then have "(\<lambda>a. if a \<in> set as then None else mem s a) = (\<lambda>a. None)" by force
  with destroy_orders_all [of "mem s" "queue s" as] as show ?thesis
    by (simp add: bus_destroy_def queue_rep_def)
qed

lemma leaves_execute:
  "order_fits p \<Longrightarrow> leaves (\<lambda>(ok, dst). case dst of None \<Rightarrow> True | Some d \<Rightarrow> length d = len (bc (o_bc p))) (execute p)"
  using leaves_receive [of "bc (o_bc p)"]
  by (auto simp: execute_def order_fits_def intro!: leaves_bind [OF leaves_transmit])

text \<open>C19. The transaction of the order in execution never leaves defined behaviour, whatever the
  slave answers and the wire does to it, and what it returns is an outcome the bus can step
  with.\<close>

theorem bus_transaction_safe:
  assumes "bus_steps bus_create es s" "pc s = Exec x" "mem s x = Some n"
    and "exch (execute (order.truncate n)) w t slv = (r, slv')"
  shows "r \<noteq> Crash \<and> (\<forall>success dst. r = Ret (success, dst) \<longrightarrow>
      (\<exists>s'. bus_step s (Outcome success dst) = Some s' \<and> bus_steps bus_create (es @ [Outcome success dst]) s'))"
proof -
  from assms(1) obtain a where a: "bus_sim s a" "abus_inv a" by (rule run_from_create)
  have "order_fits (order.truncate n)"
    using a(2) sim_pc [OF a(1)] assms(2,3) by (simp add: abus_inv_def apc_of_def)
  from leaves_exch [OF leaves_execute [OF this], of w t slv]
  have r: "leaves (\<lambda>(ok, dst). case dst of None \<Rightarrow> True | Some d \<Rightarrow> length d = len (bc (o_bc n))) r"
    by (simp only: assms(4) fst_conv truncate_order)
  have "\<exists>s'. bus_step s (Outcome success dst) = Some s' \<and> bus_steps bus_create (es @ [Outcome success dst]) s'"
    if "r = Ret (success, dst)" for success dst
  proof -
    have ok: "event_ok s (Outcome success dst)"
      using r that assms(2,3) by (auto split: option.splits)
    with sim_step [OF a(1) this] assms(1) show ?thesis by (blast intro: bus_steps.snoc)
  qed
  with r show ?thesis by auto
qed

subsection \<open>The properties at work\<close>

text \<open>The bus after the two orders \<^verbatim>\<open>main\<close> schedules first.\<close>

definition startup_events :: "unit event list" where
  "startup_events = [Schedule 1 (BCSS_at BBS_RST) None [] None, Schedule 2 (BCCS_at BBC_RST) None [] None]"

definition startup :: "unit bus" where
  "startup = bus_create\<lparr>queue := Some 1,
     mem := [1 \<mapsto> \<lparr>o_bc = BCSS_at BBS_RST, src_dst = [], handler = None, next_order = Some 2\<rparr>,
             2 \<mapsto> \<lparr>o_bc = BCCS_at BBC_RST, src_dst = [], handler = None, next_order = None\<rparr>]\<rparr>"

lemma bus_steps_step: "bus_steps s es s1 \<Longrightarrow> es' = es @ [e] \<Longrightarrow> event_ok s1 e \<Longrightarrow> bus_step s1 e = Some s2 \<Longrightarrow> bus_steps s es' s2"
  using bus_steps.snoc by blast

lemma startup_steps: "bus_steps bus_create startup_events startup"
proof -
  let ?e1 = "Schedule 1 (BCSS_at BBS_RST) None [] None :: unit event"
  let ?s1 = "bus_create\<lparr>queue := Some 1,
     mem := [1 \<mapsto> \<lparr>o_bc = BCSS_at BBS_RST, src_dst = [], handler = None, next_order = None\<rparr>]\<rparr> :: unit bus"
  have "bus_step bus_create ?e1 = Some ?s1" "event_ok bus_create ?e1"
    by (simp_all add: bus_step_def bus_schedule_def order_queue_def oq_find.simps bus_create_def fun_eq_iff Let_def)
  from bus_steps_step [OF bus_steps.nil _ this(2,1)] have 1: "bus_steps bus_create [?e1] ?s1" by simp
  have "bus_step ?s1 (Schedule 2 (BCCS_at BBC_RST) None [] None) = Some startup"
    "event_ok ?s1 (Schedule 2 (BCCS_at BBC_RST) None [] None)"
    by (simp_all add: bus_step_def bus_schedule_def order_queue_def oq_find.simps startup_def bus_create_def
        Let_def fun_eq_iff)
  from bus_steps_step [OF 1 _ this(2,1)] show ?thesis by (simp add: startup_events_def)
qed

lemma startup_rep: "queue_rep startup [1, 2]"
  by (simp add: queue_rep_def startup_def)

lemma startup_take:
  "bus_step startup Take = Some (startup\<lparr>queue := Some 2, pc := Exec 1\<rparr>)" "event_ok startup Take"
  by (simp_all add: bus_step_def bus_take_def order_pop_def startup_def bus_create_def)

text \<open>Two rounds of the thread, and a round after the thread was told to end.\<close>

definition first_served :: "unit bus" where
  "first_served = startup\<lparr>queue := Some 2, mem := (mem startup)(1 := None), packets_sent := 1,
     served := [\<lparr>o_bc = BCSS_at BBS_RST, src_dst = [], handler = None\<rparr>]\<rparr>"

lemma first_served_steps: "bus_steps startup [Take, Outcome True None] first_served"
proof -
  have "bus_step (startup\<lparr>queue := Some 2, pc := Exec 1\<rparr>) (Outcome True None) = Some first_served"
    "event_ok (startup\<lparr>queue := Some 2, pc := Exec 1\<rparr>) (Outcome True None)"
    by (simp_all add: bus_step_def bus_outcome_def first_served_def startup_def bus_create_def Let_def
        loop_end_def free_def store_dst_def fun_eq_iff)
  then show ?thesis
    using bus_steps_step [OF bus_steps.nil _ startup_take(2,1)] by (auto intro: bus_steps_step)
qed

lemma second_take: "bus_steps startup [Take, Outcome True None, Take] (first_served\<lparr>queue := None, pc := Exec 2\<rparr>)"
proof -
  have "bus_step first_served Take = Some (first_served\<lparr>queue := None, pc := Exec 2\<rparr>)" "event_ok first_served Take"
    by (simp_all add: bus_step_def bus_take_def order_pop_def first_served_def startup_def bus_create_def)
  with first_served_steps show ?thesis by (auto intro: bus_steps_step)
qed

definition ending :: "unit bus" where
  "ending = startup\<lparr>terminate := True\<rparr>"

definition ended :: "unit bus" where
  "ended = first_served\<lparr>terminate := True, quit := True, pc := Exited\<rparr>"

lemma ending_steps: "bus_steps bus_create (startup_events @ [Terminate]) ending"
  by (rule bus_steps.snoc [OF startup_steps]) (simp_all add: bus_step_def bus_terminate_def ending_def)

lemma ended_steps: "bus_steps ending [Take, Outcome True None] ended"
proof -
  let ?s = "ending\<lparr>queue := Some 2, quit := True, pc := Exec 1\<rparr>"
  have 1: "bus_step ending Take = Some ?s" "event_ok ending Take"
    by (simp_all add: bus_step_def bus_take_def order_pop_def ending_def startup_def bus_create_def)
  have 2: "bus_step ?s (Outcome True None) = Some ended" "event_ok ?s (Outcome True None)"
    by (simp_all add: bus_step_def bus_outcome_def first_served_def startup_def bus_create_def Let_def
        loop_end_def free_def store_dst_def ending_def ended_def fun_eq_iff)
  from bus_steps_step [OF bus_steps_step [OF bus_steps.nil _ 1(2,1)] _ 2(2,1)] show ?thesis by simp
qed

lemma ending_rep: "queue_rep ending [1, 2]" "queue_rep ended [2]"
  by (simp_all add: queue_rep_def ending_def ended_def first_served_def startup_def bus_create_def)

definition one_value :: "unit bus" where
  "one_value = bus_create\<lparr>queue := Some 1,
     mem := [1 \<mapsto> \<lparr>o_bc = BCCS_at BBC_VEL_VAL, src_dst = [0, 0, 0, 0x3F], handler = None, next_order = None\<rparr>]\<rparr>"

lemma one_value_steps:
  "bus_steps bus_create [Schedule 1 (BCCS_at BBC_VEL_VAL) (Some [0, 0, 0, 0x3F]) [] None] one_value"
proof -
  let ?e = "Schedule 1 (BCCS_at BBC_VEL_VAL) (Some [0, 0, 0, 0x3F]) [] None :: unit event"
  have "bus_step bus_create ?e = Some one_value" "event_ok bus_create ?e"
    by (simp_all add: bus_step_def bus_schedule_def order_queue_def oq_find.simps one_value_def bus_create_def
        Let_def fun_eq_iff SIZEOF_CTRL_VAL_def)
  from bus_steps_step [OF bus_steps.nil _ this(2,1)] show ?thesis by simp
qed

theorem bus_implements_queue_witness:
  "\<exists>s'. bus_step startup Take = Some s' \<and> bus_sim s' (abus_run abus_create (startup_events @ [Take]))"
  by (rule bus_implements_queue [OF startup_steps startup_take(2)])

theorem bus_queue_bounded_witness:
  "distinct (map o_bc (orders_at (mem startup) [1, 2])) \<and> length [1, 2 :: addr] \<le> 13"
  using bus_queue_bounded [OF startup_steps startup_rep] by blast

theorem bus_newest_value_witness:
  "\<exists>p \<in> set (orders_at (mem one_value) [1]). o_bc p = BCCS_at BBC_VEL_VAL \<and> src_dst p = [0, 0, 0, 0x3F]"
proof -
  have "queue_rep one_value [1]" by (simp add: queue_rep_def one_value_def)
  from bus_newest_value [OF one_value_steps this, of "BCCS_at BBC_VEL_VAL" "[0, 0, 0, 0x3F]"]
  show ?thesis
    by (auto simp: latest_def payload_of_def SIZEOF_CTRL_VAL_def one_value_def bus_create_def)
qed

theorem bus_no_starvation_witness:
  "\<exists>es1 es2 s1 x. [Take, Outcome True None, Take] = es1 @ es2 \<and> bus_steps startup es1 s1
    \<and> bus_steps s1 es2 (first_served\<lparr>queue := None, pc := Exec 2\<rparr>)
    \<and> pc s1 = Exec x \<and> o_bc (the (mem s1 x)) = BCCS_at BBC_RST"
  by (rule bus_no_starvation [OF startup_steps startup_rep, of 1, OF _ _ second_take])
     (simp_all add: startup_def takes_def)

theorem bus_thread_ends_witness:
  "length (filter thread_event [Take, Outcome True None :: unit event]) \<le> 3 \<and> takes [Take, Outcome True None :: unit event] \<le> 1"
  using bus_thread_ends [OF ending_steps _ ended_steps] by (simp add: ending_def)

theorem bus_end_drops_orders_witness:
  "\<exists>j < length [2 :: addr]. o_bc (the (mem ended ([2] ! j))) = o_bc (the (mem ending ([1, 2] ! 1))) \<and> 1 \<le> j + 1"
  by (rule bus_end_drops_orders [OF ending_steps _ ending_rep(1) _ _ ended_steps ending_rep(2)])
     (simp_all add: ending_def)

theorem bus_destroy_frees_all_witness: "bus_destroy ended = Some (\<lambda>a. None)"
proof -
  have steps: "bus_steps bus_create ((startup_events @ [Terminate]) @ [Take, Outcome True None]) ended"
    using bus_steps_trans [OF ended_steps ending_steps] .
  show ?thesis by (rule bus_destroy_frees_all [OF steps]) (simp add: ended_def)
qed

theorem bus_transaction_safe_witness:
  "fst (exch (execute \<lparr>o_bc = BCSS_at BBS_RST, src_dst = [], handler = None :: unit option\<rparr>) perfect 0 (Ret ())) \<noteq> Crash"
proof -
  let ?s = "startup\<lparr>queue := Some 2, pc := Exec 1\<rparr>"
  let ?n = "\<lparr>o_bc = BCSS_at BBS_RST, src_dst = [], handler = None, next_order = Some 2\<rparr> :: unit node"
  have "bus_steps bus_create (startup_events @ [Take]) ?s"
    using bus_steps_step [OF startup_steps refl startup_take(2,1)] .
  from bus_transaction_safe [OF this, of 1 ?n perfect 0 "Ret ()"] show ?thesis
    by (cases "exch (execute (order.truncate ?n)) perfect 0 (Ret ())") (simp add: startup_def)
qed

end
