(* ===== verification/Wakeup.thy ===== *)
theory Wakeup
  imports Bus
begin

text \<open>
  When the bus thread sleeps and when it is woken, \<^verbatim>\<open>src/comm/bus.c\<close>. Between taking nothing from
  the queue and the wait on the condition variable the thread holds no lock, and the clients
  signal after they have released theirs, so a signal can come too early and be lost; the wait
  ends by itself after \<open>WAIT_SLEEP\<close>. The theory adds time and signals to the steps of \<^verbatim>\<open>Bus\<close> and
  shows that a signal is lost in that window only, and how long an order and the end of the
  program can take in spite of it.
\<close>

section \<open>Time and signals\<close>

text \<open>Times are in nanoseconds.\<close>

definition WAIT_SLEEP :: nat where "WAIT_SLEEP = 1"
definition WAIT_DELAY :: nat where "WAIT_DELAY = 20000"
definition tv_sec :: nat where "tv_sec = 1000000000"

text \<open>
  The thread runs, is in \<open>pthread_cond_timedwait\<close>, or has been signalled there. \<open>ready\<close> is when
  its next step becomes possible: the end of \<open>nanosleep\<close>, of the wait, or of the step before.
  \<open>unsignalled\<close> counts the clients between their change of the bus and their signal. \<open>missed\<close> is
  history: a signal came while the thread was about to wait.
\<close>

datatype phase = Awake | Asleep | Woken

record 'h timed =
  t_bus :: "'h bus"
  now :: nat
  phase :: phase
  ready :: nat
  unsignalled :: nat
  missed :: bool

definition timed_create :: "'h timed" where
  "timed_create = \<lparr>t_bus = bus_create, now = 0, phase = Awake, ready = 0, unsignalled = 0, missed = False\<rparr>"

text \<open>
  \<open>Act\<close> is a step of the bus, \<open>Signal\<close> a client's signal, \<open>Enter\<close> the thread's
  way into the wait, and \<open>Pass\<close> the passing of time.
\<close>

datatype 'h timed_event = Act "'h event" | Signal | Enter | Pass nat

text \<open>\<open>pthread_cond_signal\<close>: it moves a thread that waits, and is lost on one that does not.\<close>

definition cond_signal :: "'h timed \<Rightarrow> 'h timed" where
  "cond_signal s =
     (if phase s = Asleep then s\<lparr>phase := Woken, ready := min (ready s) (now s)\<rparr>
      else s\<lparr>missed := missed s \<or> pc (t_bus s) = Wait \<and> phase s = Awake\<rparr>)"

text \<open>\<open>clock_gettime\<close>, the addition of \<open>WAIT_SLEEP\<close> and \<open>pthread_cond_timedwait\<close>.\<close>

definition cond_timedwait :: "'h timed \<Rightarrow> 'h timed" where
  "cond_timedwait s = s\<lparr>phase := Asleep, ready := now s + WAIT_SLEEP * tv_sec\<rparr>"

text \<open>What a step of the bus means for the clock and the signals, the bus itself being \<open>b\<close> then.\<close>

definition timed_act :: "'h event \<Rightarrow> 'h bus \<Rightarrow> 'h timed \<Rightarrow> 'h timed" where
  "timed_act e b s =
     (case e of
        Schedule _ _ _ _ _ \<Rightarrow> s\<lparr>t_bus := b, unsignalled := unsignalled s + 1\<rparr>
      | Terminate \<Rightarrow> s\<lparr>t_bus := b, unsignalled := unsignalled s + 1\<rparr>
      | Take \<Rightarrow> s\<lparr>t_bus := b, ready := now s, missed := False\<rparr>
      | Outcome _ _ \<Rightarrow> s\<lparr>t_bus := b, ready := now s + WAIT_DELAY\<rparr>
      | Wake \<Rightarrow> s\<lparr>t_bus := b, phase := Awake, ready := now s\<rparr>)"

definition timed_step :: "'h timed \<Rightarrow> 'h timed_event \<Rightarrow> 'h timed option" where
  "timed_step s e =
     (case e of
        Act x \<Rightarrow> map_option (\<lambda>b. timed_act x b s) (bus_step (t_bus s) x)
      | Signal \<Rightarrow> Some ((cond_signal s)\<lparr>unsignalled := unsignalled s - 1\<rparr>)
      | Enter \<Rightarrow> Some (cond_timedwait s)
      | Pass d \<Rightarrow> Some (s\<lparr>now := now s + d\<rparr>))"

text \<open>
  A wait may end at any time, as POSIX allows. Time passes as long as the thread is not late:
  \<open>slack\<close> bounds the time from when a step is possible to when it is done, a transaction included.
\<close>

fun timed_ok :: "nat \<Rightarrow> 'h timed \<Rightarrow> 'h timed_event \<Rightarrow> bool" where
  "timed_ok slack s (Act e) \<longleftrightarrow> event_ok (t_bus s) e \<and>
     (e = Take \<longrightarrow> ready s \<le> now s) \<and> (e = Wake \<longrightarrow> phase s \<noteq> Awake)"
| "timed_ok slack s Signal \<longleftrightarrow> 0 < unsignalled s"
| "timed_ok slack s Enter \<longleftrightarrow> pc (t_bus s) = Wait \<and> phase s = Awake"
| "timed_ok slack s (Pass d) \<longleftrightarrow> pc (t_bus s) = Exited \<or> now s + d \<le> ready s + slack"

inductive timed_steps :: "nat \<Rightarrow> 'h timed \<Rightarrow> 'h timed_event list \<Rightarrow> 'h timed \<Rightarrow> bool" for slack where
  nil: "timed_steps slack s [] s"
| snoc: "timed_steps slack s es s1 \<Longrightarrow> timed_ok slack s1 e \<Longrightarrow> timed_step s1 e = Some s2
    \<Longrightarrow> timed_steps slack s (es @ [e]) s2"

section \<open>The steps of the bus in it\<close>

fun bus_event :: "'h timed_event \<Rightarrow> 'h event list" where
  "bus_event (Act e) = [e]"
| "bus_event _ = []"

definition bus_events :: "'h timed_event list \<Rightarrow> 'h event list" where
  "bus_events es = concat (map bus_event es)"

lemma bus_events_simps [simp]:
  "bus_events [] = []" "bus_events (es @ es') = bus_events es @ bus_events es'" "bus_events [e] = bus_event e"
  by (simp_all add: bus_events_def)

lemma timed_act_bus [simp]: "t_bus (timed_act e b s) = b" "now (timed_act e b s) = now s"
  by (simp_all add: timed_act_def split: event.split)

lemma cond_signal_frame [simp]: "t_bus (cond_signal s) = t_bus s" "now (cond_signal s) = now s"
  by (simp_all add: cond_signal_def)

lemma cond_timedwait_frame [simp]: "t_bus (cond_timedwait s) = t_bus s" "now (cond_timedwait s) = now s"
  by (simp_all add: cond_timedwait_def)

lemma timed_stepE:
  assumes "timed_step s e = Some s'" "timed_ok slack s e"
  obtains (act) x b where "e = Act x" "event_ok (t_bus s) x" "bus_step (t_bus s) x = Some b"
      "s' = timed_act x b s" "x = Take \<Longrightarrow> ready s \<le> now s" "x = Wake \<Longrightarrow> phase s \<noteq> Awake"
  | (signal) "e = Signal" "0 < unsignalled s" "s' = (cond_signal s)\<lparr>unsignalled := unsignalled s - 1\<rparr>"
  | (enter) "e = Enter" "pc (t_bus s) = Wait" "phase s = Awake" "s' = cond_timedwait s"
  | (pass) d where "e = Pass d" "s' = s\<lparr>now := now s + d\<rparr>"
      "pc (t_bus s) = Exited \<or> now s + d \<le> ready s + slack"
  using assms by (cases e) (auto simp: timed_step_def)

lemma timed_bus_steps: "timed_steps slack s es s' \<Longrightarrow> bus_steps (t_bus s) (bus_events es) (t_bus s')"
proof (induction rule: timed_steps.induct)
  case (snoc s es s1 e s2)
  from snoc.hyps(3,2) show ?case
  proof (cases rule: timed_stepE)
    case (act x b)
    with snoc.IH show ?thesis by (auto intro: bus_steps.snoc)
  qed (use snoc.IH in auto)
qed (auto intro: bus_steps.nil)

text \<open>The clients leave the thread where it is.\<close>

lemma put_slot_more: "put_slot sl p b = Some b' \<Longrightarrow> queue_state.more b' = queue_state.more b"
  by (cases sl) (auto split: option.splits)

lemma order_queue_more: "order_queue b p r = Some b' \<Longrightarrow> queue_state.more b' = queue_state.more b"
  by (auto simp: order_queue_def Let_def split: option.splits prod.splits if_splits dest!: put_slot_more)

lemma bus_schedule_more: "bus_schedule a b msg junk hnd s = Some s' \<Longrightarrow> queue_state.more s' = queue_state.more s"
  by (auto simp: bus_schedule_def split: option.splits if_splits dest!: order_queue_more)

lemma pc_moves:
  assumes "bus_step s e = Some s'" "event_ok s e"
  shows "case e of
      Schedule _ _ _ _ _ \<Rightarrow> pc s' = pc s \<and> quit s' = quit s \<and> terminate s' = terminate s
    | Terminate \<Rightarrow> pc s' = pc s \<and> quit s' = quit s
    | Take \<Rightarrow> pc s = Head \<and> quit s' = terminate s' \<and>
        (if queue s = None then pc s' = Wait \<and> queue s' = None else \<exists>x. pc s' = Exec x)
    | Outcome _ _ \<Rightarrow> (\<exists>x. pc s = Exec x) \<and> (pc s' = Head \<or> pc s' = Exited)
    | Wake \<Rightarrow> pc s = Wait \<and> (pc s' = Head \<or> pc s' = Exited)"
proof (cases e)
  case (Schedule a b msg junk hnd)
  with assms(1) have "bus_schedule a b msg junk hnd s = Some s'" by (simp add: bus_step_def)
  from more_eq [OF bus_schedule_more [OF this]] Schedule show ?thesis by simp
next
  case (Outcome success dst)
  with assms show ?thesis
    by (auto simp: bus_step_def bus_outcome_def loop_end_def Let_def split: pc.splits option.splits if_splits)
qed (use assms in \<open>auto simp: bus_step_def bus_take_def order_pop_def loop_end_def bus_terminate_def
    split: option.splits\<close>)

section \<open>Invariants\<close>

text \<open>The thread is never late, and a wait has a deadline.\<close>

definition punctual :: "nat \<Rightarrow> 'h timed \<Rightarrow> bool" where
  "punctual slack s \<longleftrightarrow>
     (case pc (t_bus s) of
        Head \<Rightarrow> phase s = Awake \<and> ready s \<le> now s + WAIT_DELAY \<and> now s \<le> ready s + slack
      | Exec _ \<Rightarrow> phase s = Awake \<and> ready s \<le> now s \<and> now s \<le> ready s + slack
      | Wait \<Rightarrow> ready s \<le> now s + (if phase s = Asleep then WAIT_SLEEP * tv_sec else 0) \<and> now s \<le> ready s + slack
      | Exited \<Rightarrow> True)"

text \<open>A thread that waits with something to do, and no signal to come, has missed one.\<close>

definition idle :: "'h bus \<Rightarrow> bool" where
  "idle b \<longleftrightarrow> queue b = None \<and> quit b = terminate b"

definition alert :: "'h timed \<Rightarrow> bool" where
  "alert s \<longleftrightarrow> (pc (t_bus s) = Wait \<and> phase s \<noteq> Woken \<and> unsignalled s = 0 \<and> \<not> idle (t_bus s) \<longrightarrow> missed s)"

lemmas timed_defs = timed_act_def cond_signal_def cond_timedwait_def

lemma punctual_create: "punctual slack timed_create"
  by (simp add: punctual_def timed_create_def bus_create_def)

lemma alert_create: "alert timed_create"
  by (simp add: alert_def timed_create_def bus_create_def)

lemma punctual_step:
  assumes "timed_step s e = Some s'" "timed_ok slack s e" "punctual slack s"
  shows "punctual slack s'"
  using assms(1,2)
proof (cases rule: timed_stepE)
  case (act x b)
  from pc_moves [OF act(3,2)] act(1,4-6) assms(3) show ?thesis
    by (cases x) (auto simp: punctual_def timed_act_def split: if_splits pc.splits)
qed (use assms(3) in \<open>auto simp: punctual_def timed_defs split: pc.splits if_splits\<close>)

lemma alert_step:
  assumes "timed_step s e = Some s'" "timed_ok slack s e" "punctual slack s" "alert s"
  shows "alert s'"
  using assms(1,2)
proof (cases rule: timed_stepE)
  case (act x b)
  from pc_moves [OF act(3,2)] act(1,4-6) assms(4) show ?thesis
    by (cases x) (auto simp: alert_def idle_def timed_act_def split: if_splits)
qed (use assms(4) phase.exhaust [of "phase s"] in \<open>auto simp: alert_def timed_defs split: if_splits\<close>)

lemma punctual_run: "timed_steps slack s es s' \<Longrightarrow> punctual slack s \<Longrightarrow> punctual slack s'"
  by (induction rule: timed_steps.induct) (auto intro: punctual_step)

lemma alert_run: "timed_steps slack s es s' \<Longrightarrow> punctual slack s \<Longrightarrow> alert s \<Longrightarrow> alert s'"
  by (induction rule: timed_steps.induct) (blast intro: punctual_run alert_step)+

section \<open>How long it takes\<close>

text \<open>The time by which the thread takes from the queue the next time.\<close>

definition next_take :: "nat \<Rightarrow> 'h timed \<Rightarrow> nat" where
  "next_take slack s =
     (case pc (t_bus s) of
        Head \<Rightarrow> ready s + slack
      | Exec _ \<Rightarrow> ready s + WAIT_DELAY + 2 * slack
      | Wait \<Rightarrow> (if phase s = Awake then ready s + WAIT_SLEEP * tv_sec + 3 * slack else ready s + 2 * slack)
      | Exited \<Rightarrow> now s)"

text \<open>A round in which the thread waits, and one in which it executes an order.\<close>

definition wait_round :: "nat \<Rightarrow> nat" where "wait_round slack = WAIT_SLEEP * tv_sec + 3 * slack"
definition exec_round :: "nat \<Rightarrow> nat" where "exec_round slack = WAIT_DELAY + 2 * slack"

lemmas round_defs = wait_round_def exec_round_def WAIT_DELAY_def WAIT_SLEEP_def tv_sec_def

lemma wait_round_value: "wait_round slack = 1000000000 + 3 * slack"
  by (simp add: round_defs)

lemma exec_round_le: "exec_round slack \<le> wait_round slack"
  by (simp add: round_defs)

lemma next_take_after: "punctual slack s \<Longrightarrow> now s \<le> next_take slack s"
  by (auto simp: next_take_def punctual_def split: pc.splits)

lemma next_take_soon: "punctual slack s \<Longrightarrow> next_take slack s \<le> now s + wait_round slack"
  by (auto simp: next_take_def punctual_def round_defs split: pc.splits if_splits)

definition round_cost :: "nat \<Rightarrow> 'h timed \<Rightarrow> 'h timed_event \<Rightarrow> nat" where
  "round_cost slack s e =
     (case e of Act Take \<Rightarrow> if queue (t_bus s) = None then wait_round slack else exec_round slack | _ \<Rightarrow> 0)"

lemma next_take_step:
  assumes "timed_step s e = Some s'" "timed_ok slack s e" "punctual slack s" "pc (t_bus s') \<noteq> Exited"
  shows "pc (t_bus s) \<noteq> Exited \<and> next_take slack s' \<le> next_take slack s + round_cost slack s e"
  using assms(1,2)
proof (cases rule: timed_stepE)
  case (act x b)
  from pc_moves [OF act(3,2)] act(1,4-6) assms(3,4) show ?thesis
    by (cases x) (auto simp: punctual_def next_take_def timed_act_def round_cost_def wait_round_def exec_round_def
        split: if_splits pc.splits)
qed (use assms(3,4) in \<open>auto simp: punctual_def next_take_def timed_defs round_cost_def split: pc.splits if_splits\<close>)

text \<open>Every round costs at most a wait.\<close>

lemma next_take_run:
  assumes "timed_steps slack s es s'" "punctual slack s" "pc (t_bus s') \<noteq> Exited"
  shows "next_take slack s' \<le> next_take slack s + takes (bus_events es) * wait_round slack"
  using assms
proof (induction rule: timed_steps.induct)
  case (snoc s es s1 e s2)
  from next_take_step [OF snoc.hyps(3,2) punctual_run [OF snoc.hyps(1) snoc.prems(1)] snoc.prems(2)]
  have step: "pc (t_bus s1) \<noteq> Exited" "next_take slack s2 \<le> next_take slack s1 + round_cost slack s1 e" by auto
  have "round_cost slack s1 e + takes (bus_events es) * wait_round slack
      \<le> takes (bus_events (es @ [e])) * wait_round slack"
    using exec_round_le [of slack] by (cases e) (auto simp: round_cost_def split: event.split)
  with step snoc.IH [OF snoc.prems(1) step(1)] show ?case by linarith
qed simp

text \<open>As long as an order waits in the queue every round executes one.\<close>

lemma queue_place:
  assumes "bus_sim s a" "at_place i b a"
  shows "queue s \<noteq> None"
proof -
  obtain as where as: "queue_rep s as" using sim_rep [OF assms(1)] by blast
  with place_in_queue [OF assms(1) as] assms(2) show ?thesis by (cases as) (auto simp: queue_rep_def)
qed

lemma next_take_order:
  assumes "timed_steps slack s es s'" "punctual slack s" "pc (t_bus s') \<noteq> Exited"
    and "bus_sim (t_bus s) a" "at_place i b a" "takes (bus_events es) \<le> i + 1"
  shows "next_take slack s' \<le> next_take slack s + takes (bus_events es) * exec_round slack"
  using assms
proof (induction rule: timed_steps.induct)
  case (snoc s es s1 e s2)
  from next_take_step [OF snoc.hyps(3,2) punctual_run [OF snoc.hyps(1) snoc.prems(1)] snoc.prems(2)]
  have step: "pc (t_bus s1) \<noteq> Exited" "next_take slack s2 \<le> next_take slack s1 + round_cost slack s1 e" by auto
  have le: "takes (bus_events es) \<le> i + 1" using snoc.prems(5) by (cases e) (auto split: if_splits)
  have "queue (t_bus s1) \<noteq> None" if "e = Act Take"
  proof -
    from sim_steps [OF timed_bus_steps [OF snoc.hyps(1)] snoc.prems(3)] obtain a1 where
      a1: "abus_steps a (bus_events es) a1" "bus_sim (t_bus s1) a1" by blast
    from place_run [OF a1(1) snoc.prems(4)] that snoc.prems(5)
    have "at_place (i - takes (bus_events es)) b a1" by simp
    with a1(2) show ?thesis by (rule queue_place)
  qed
  then have "round_cost slack s1 e + takes (bus_events es) * exec_round slack
      \<le> takes (bus_events (es @ [e])) * exec_round slack"
    by (cases e) (auto simp: round_cost_def split: event.split)
  with step snoc.IH [OF snoc.prems(1) step(1) snoc.prems(3,4) le] show ?case by linarith
qed simp

section \<open>Properties\<close>

text \<open>C17. Every order is executed in time, lost signals or not: the order at place \<open>i\<close> of the queue is
  executed within a second and twenty microseconds for each order before it, plus the time the thread's own
  steps and transactions take, unless the thread has ended by then.\<close>

theorem bus_order_in_time:
  assumes "timed_steps slack timed_create es s" "queue_rep (t_bus s) as" "i < length as"
    and "o_bc (the (mem (t_bus s) (as ! i))) = b"
    and "timed_steps slack s es' s'" "pc (t_bus s') \<noteq> Exited"
    and "now s + (1000000000 + 3 * slack) + i * (20000 + 2 * slack) < now s'"
  shows "\<exists>es1 es2 s1 x. bus_events es' = es1 @ es2 \<and> bus_steps (t_bus s) es1 s1 \<and> bus_steps s1 es2 (t_bus s')
    \<and> pc s1 = Exec x \<and> o_bc (the (mem s1 x)) = b"
proof -
  have init: "bus_steps bus_create (bus_events es) (t_bus s)"
    using timed_bus_steps [OF assms(1)] by (simp add: timed_create_def)
  then obtain a where a: "bus_sim (t_bus s) a" by (rule run_from_create)
  have on_time: "punctual slack s" using punctual_run [OF assms(1) punctual_create] .
  have "i < takes (bus_events es')"
  proof (rule ccontr)
    assume *: "\<not> i < takes (bus_events es')"
    have "at_place i b a" using place_in_queue [OF a assms(2)] assms(3,4) by simp
    from next_take_order [OF assms(5) on_time assms(6) a this] *
    have "next_take slack s' \<le> next_take slack s + i * exec_round slack"
      using mult_le_mono1 [of "takes (bus_events es')" i "exec_round slack"] by linarith
    with next_take_soon [OF on_time] next_take_after [OF punctual_run [OF assms(5) on_time]] assms(7)
    show False by (simp add: round_defs)
  qed
  from order_reached [OF init assms(2-4) timed_bus_steps [OF assms(5)] this] show ?thesis .
qed

text \<open>Told to end, the thread has ended after two seconds and the time its steps take.\<close>

theorem bus_ends_in_time:
  assumes "timed_steps slack timed_create es s" "terminate (t_bus s)" "timed_steps slack s es' s'"
    and "now s + 2 * (1000000000 + 3 * slack) < now s'"
  shows "pc (t_bus s') = Exited"
proof (rule ccontr)
  assume alive: "pc (t_bus s') \<noteq> Exited"
  have on_time: "punctual slack s" using punctual_run [OF assms(1) punctual_create] .
  have "bus_steps bus_create (bus_events es) (t_bus s)"
    using timed_bus_steps [OF assms(1)] by (simp add: timed_create_def)
  then obtain a where a: "bus_sim (t_bus s) a" by (rule run_from_create)
  from sim_steps [OF timed_bus_steps [OF assms(3)] a] obtain a' where a': "abus_steps a (bus_events es') a'" by blast
  have "takes (bus_events es') \<le> 1" using takes_rank [OF a'] sim_pc [OF a] assms(2) by simp
  then have "takes (bus_events es') * wait_round slack \<le> wait_round slack" by simp
  with next_take_run [OF assms(3) on_time alive] next_take_soon [OF on_time]
  have "next_take slack s' \<le> now s + 2 * wait_round slack" by linarith
  with next_take_after [OF punctual_run [OF assms(3) on_time]] assms(4) show False
    by (simp add: wait_round_value)
qed

text \<open>C18. A signal is lost only if it is sent between the thread's look at the queue and its wait: if
  none was, a thread that sleeps, with no client on its way to signal, has nothing to do.\<close>

theorem no_other_signal_lost:
  assumes "timed_steps slack timed_create es s" "phase s = Asleep" "unsignalled s = 0" "\<not> missed s"
    and "pc (t_bus s) = Wait"
  shows "queue (t_bus s) = None \<and> quit (t_bus s) = terminate (t_bus s)"
  using alert_run [OF assms(1) punctual_create alert_create] assms(2-5) by (simp add: alert_def idle_def)

subsection \<open>Runs\<close>

text \<open>Runs that can be evaluated.\<close>

fun timed_run :: "nat \<Rightarrow> 'h timed \<Rightarrow> 'h timed_event list \<Rightarrow> 'h timed option" where
  "timed_run slack s [] = Some s"
| "timed_run slack s (e # es) =
     (if timed_ok slack s e then (case timed_step s e of None \<Rightarrow> None | Some s' \<Rightarrow> timed_run slack s' es) else None)"

lemma timed_run_from:
  "timed_run slack s es = Some s' \<Longrightarrow> timed_steps slack s0 es0 s \<Longrightarrow> timed_steps slack s0 (es0 @ es) s'"
proof (induction es arbitrary: s es0)
  case (Cons e es)
  from Cons.prems(1) obtain s1 where s1: "timed_ok slack s e" "timed_step s e = Some s1" "timed_run slack s1 es = Some s'"
    by (auto split: if_splits option.splits)
  from Cons.IH [OF s1(3) timed_steps.snoc [OF Cons.prems(2) s1(1,2)]] show ?case by simp
qed simp

lemma timed_run_steps: "timed_run slack s es = Some s' \<Longrightarrow> timed_steps slack s es s'"
  using timed_run_from [OF _ timed_steps.nil] by force

lemmas run_defs = timed_step_def timed_defs bus_step_def bus_take_def order_pop_def bus_outcome_def
  loop_end_def bus_terminate_def bus_schedule_def order_queue_def oq_find.simps free_def store_dst_def
  WAIT_DELAY_def WAIT_SLEEP_def tv_sec_def

text \<open>The reset order of the sensor module is scheduled while the thread is about to wait.\<close>

definition late_order :: "unit timed_event list" where
  "late_order = [Act Take, Act (Schedule 1 (BCSS_at BBS_RST) None [] None), Signal, Enter, Pass 1000000000]"

text \<open>A wake-up is lost: the order that came in the window lies in the queue for a full second while
  the thread sleeps and nobody is on the way to wake it.\<close>

theorem wake_up_lost:
  "\<exists>s. timed_steps slack timed_create late_order s \<and> now s = 1000000000 \<and> phase s = Asleep
    \<and> unsignalled s = 0 \<and> queue (t_bus s) = Some 1"
proof -
  have "\<exists>s. timed_run slack timed_create late_order = Some s \<and> now s = 1000000000 \<and> phase s = Asleep
      \<and> unsignalled s = 0 \<and> queue (t_bus s) = Some 1"
    by (simp add: late_order_def timed_create_def bus_create_def run_defs Let_def)
  then show ?thesis using timed_run_steps by blast
qed

text \<open>A thread that sleeps is told to end, is signalled at once, and sleeps for another second: it reads
  \<open>terminate\<close> together with the empty queue, and waits before it looks at what it read.\<close>

definition slow_end :: "unit timed_event list" where
  "slow_end = [Act Take, Enter, Act Terminate, Signal, Act Wake, Act Take, Enter, Pass 1000000000]"

theorem end_waits:
  "\<exists>s. timed_steps slack timed_create slow_end s \<and> now s = 1000000000 \<and> phase s = Asleep \<and> unsignalled s = 0
    \<and> quit (t_bus s) \<and> queue (t_bus s) = None"
proof -
  have "\<exists>s. timed_run slack timed_create slow_end = Some s \<and> now s = 1000000000 \<and> phase s = Asleep \<and> unsignalled s = 0
      \<and> quit (t_bus s) \<and> queue (t_bus s) = None"
    by (simp add: slow_end_def timed_create_def bus_create_def run_defs Let_def)
  then show ?thesis using timed_run_steps by blast
qed

subsection \<open>A program that only starts and ends a bus\<close>

text \<open>\<^verbatim>\<open>src/tests/bus.c\<close>: what its \<open>main\<close> does to the bus it has created, apart from joining the
  thread. The command it sets up is not used.\<close>

definition bus_test :: "'h event list" where
  "bus_test = [Terminate]"

lemma nothing_scheduled:
  assumes "bus_steps bus_create es s" "filter (\<lambda>e. \<not> thread_event e) es = bus_test \<or> filter (\<lambda>e. \<not> thread_event e) es = []"
  shows "queue s = None \<and> mem s = (\<lambda>a. None) \<and> packets_sent s = 0 \<and> (\<forall>x. pc s \<noteq> Exec x)"
  using assms
proof (induction "bus_create :: 'a bus" es s rule: bus_steps.induct)
  case (snoc es s1 e s2)
  have "filter (\<lambda>e. \<not> thread_event e) es = bus_test \<or> filter (\<lambda>e. \<not> thread_event e) es = []"
    using snoc.prems by (auto simp: bus_test_def split: if_splits)
  with snoc.hyps(2) have "queue s1 = None \<and> mem s1 = (\<lambda>a. None) \<and> packets_sent s1 = 0 \<and> (\<forall>x. pc s1 \<noteq> Exec x)" by blast
  moreover have "thread_event e \<or> e = Terminate" using snoc.prems by (auto simp: bus_test_def split: if_splits)
  ultimately show ?case
    using snoc.hyps(3,4) pc_moves [OF snoc.hyps(4,3)]
    by (cases e) (auto simp: bus_step_def bus_take_def order_pop_def bus_terminate_def loop_end_def)
qed (simp add: bus_create_def)

text \<open>It returns after two seconds at the latest, and nothing has been sent.\<close>

theorem bus_test_returns:
  assumes "timed_steps slack timed_create es s" "terminate (t_bus s)" "timed_steps slack s es' s'"
    and "filter (\<lambda>e. \<not> thread_event e) (bus_events es @ bus_events es') = bus_test"
    and "now s + 2 * (1000000000 + 3 * slack) < now s'"
  shows "pc (t_bus s') = Exited \<and> bus_destroy (t_bus s') = Some (\<lambda>a. None) \<and> packets_sent (t_bus s') = 0"
proof -
  have "bus_steps bus_create (bus_events es @ bus_events es') (t_bus s')"
    using bus_steps_trans [OF timed_bus_steps [OF assms(3)]] timed_bus_steps [OF assms(1)] by (simp add: timed_create_def)
  from nothing_scheduled [OF this] assms(4) have "queue (t_bus s') = None" "mem (t_bus s') = (\<lambda>a. None)"
    "packets_sent (t_bus s') = 0" by simp_all
  moreover from this have "bus_destroy (t_bus s') = Some (\<lambda>a. None)" by (simp add: bus_destroy_def destroy_orders.simps)
  ultimately show ?thesis using bus_ends_in_time [OF assms(1-3,5)] by simp
qed

subsection \<open>The properties at work\<close>

text \<open>One order, its execution, and a wait to its end.\<close>

definition one_order :: "unit timed_event list" where
  "one_order = [Act (Schedule 1 (BCSS_at BBS_RST) None [] None)]"

definition one_round :: "unit timed_event list" where
  "one_round = [Signal, Act Take, Act (Outcome True None), Pass 20000, Act Take, Enter, Pass 1000000000]"

definition one_ordered :: "unit timed" where
  "one_ordered = timed_create\<lparr>unsignalled := 1, t_bus := bus_create\<lparr>queue := Some 1,
     mem := [1 \<mapsto> \<lparr>o_bc = BCSS_at BBS_RST, src_dst = [], handler = None, next_order = None\<rparr>]\<rparr>\<rparr>"

lemma one_order_steps: "timed_steps slack timed_create one_order one_ordered"
  by (rule timed_run_steps)
     (simp add: one_order_def one_ordered_def timed_create_def bus_create_def run_defs Let_def)

lemma one_round_run:
  obtains s' where "timed_run 0 one_ordered one_round = Some s'" "pc (t_bus s') = Wait" "now s' = 1000020000"
    "phase s' = Asleep" "unsignalled s' = 0" "\<not> missed s'"
proof -
  have "\<exists>s'. timed_run 0 one_ordered one_round = Some s' \<and> pc (t_bus s') = Wait \<and> now s' = 1000020000 \<and> phase s' = Asleep
      \<and> unsignalled s' = 0 \<and> \<not> missed s'"
    by (simp add: one_round_def one_ordered_def timed_create_def bus_create_def run_defs Let_def)
  then show thesis using that by blast
qed

theorem bus_order_in_time_witness:
  "\<exists>es1 es2 s1 x. bus_events one_round = es1 @ es2 \<and> bus_steps (t_bus one_ordered) es1 s1
    \<and> pc s1 = Exec x \<and> o_bc (the (mem s1 x)) = BCSS_at BBS_RST"
proof -
  obtain s' where s': "timed_run 0 one_ordered one_round = Some s'" "pc (t_bus s') = Wait" "now s' = 1000020000"
    by (rule one_round_run)
  have rep: "queue_rep (t_bus one_ordered) [1]" by (simp add: queue_rep_def one_ordered_def)
  have "o_bc (the (mem (t_bus one_ordered) ([1] ! 0))) = BCSS_at BBS_RST" "now one_ordered = 0"
    by (simp_all add: one_ordered_def timed_create_def)
  from bus_order_in_time [OF one_order_steps rep _ this(1) timed_run_steps [OF s'(1)]] this(2) s'(2,3)
  obtain es1 es2 s1 x where "bus_events one_round = es1 @ es2" "bus_steps (t_bus one_ordered) es1 s1"
    "pc s1 = Exec x" "o_bc (the (mem s1 x)) = BCSS_at BBS_RST" by auto
  then show ?thesis by blast
qed

text \<open>A thread that is told to end first, and what is left of its life.\<close>

definition told_to_end :: "unit timed_event list" where
  "told_to_end = [Act Terminate, Signal, Act Take, Enter, Pass 1000000000, Act Wake, Pass 1000000001]"

definition told :: "unit timed" where
  "told = timed_create\<lparr>unsignalled := 1, t_bus := bus_create\<lparr>terminate := True\<rparr>\<rparr>"

lemma told_steps: "timed_steps 0 timed_create [Act Terminate] told"
  by (rule timed_run_steps) (simp add: told_def timed_create_def bus_create_def run_defs Let_def)

lemma told_start: "terminate (t_bus told)" "now told = 0"
  by (simp_all add: told_def timed_create_def)

lemma told_run:
  obtains s' where "timed_run 0 told (tl told_to_end) = Some s'" "now s' = 2000000001"
proof -
  have "\<exists>s'. timed_run 0 told (tl told_to_end) = Some s' \<and> now s' = 2000000001"
    by (simp add: told_to_end_def told_def timed_create_def bus_create_def run_defs Let_def)
  then show thesis using that by blast
qed

theorem bus_ends_in_time_witness:
  "\<exists>s'. timed_steps 0 told (tl told_to_end) s' \<and> now s' = 2000000001 \<and> pc (t_bus s') = Exited"
proof -
  obtain s' where s': "timed_run 0 told (tl told_to_end) = Some s'" "now s' = 2000000001" by (rule told_run)
  from bus_ends_in_time [OF told_steps told_start(1) timed_run_steps [OF s'(1)]] timed_run_steps [OF s'(1)] s'(2)
  show ?thesis by (auto simp: told_start)
qed

theorem bus_test_returns_witness:
  "\<exists>s'. timed_steps 0 timed_create told_to_end s' \<and> bus_destroy (t_bus s') = Some (\<lambda>a. None)"
proof -
  obtain s' where s': "timed_run 0 told (tl told_to_end) = Some s'" "now s' = 2000000001" by (rule told_run)
  have "timed_steps 0 timed_create told_to_end s'" using timed_run_from [OF s'(1) told_steps] by (simp add: told_to_end_def)
  moreover have "bus_destroy (t_bus s') = Some (\<lambda>a. None)"
    using bus_test_returns [OF told_steps told_start(1) timed_run_steps [OF s'(1)]] s'(2)
    by (simp add: told_start told_to_end_def bus_test_def bus_events_def)
  ultimately show ?thesis by blast
qed

theorem no_other_signal_lost_witness:
  "\<exists>s' :: unit timed. timed_steps 0 timed_create (one_order @ one_round) s' \<and> now s' = 1000020000
    \<and> queue (t_bus s') = None"
proof -
  obtain s' where s': "timed_run 0 one_ordered one_round = Some s'" "pc (t_bus s') = Wait"
    "now s' = 1000020000" "phase s' = Asleep" "unsignalled s' = 0" "\<not> missed s'" by (rule one_round_run)
  note run = timed_run_from [OF s'(1) one_order_steps]
  from no_other_signal_lost [OF run s'(4-6,2)] run s'(3) show ?thesis by blast
qed

end
