(* ===== verification/Sens.thy ===== *)
theory Sens
  imports Cfloat Spi
begin

text \<open>
  The sensor module, \<^verbatim>\<open>src/avr/sens.c\<close>: the interrupts of the wheel sensors, the main loop
  that turns counters and converter readings into physical values, and the SPI interrupt
  that hands them to the communication module. \<open>pow\<close> of the C library is a parameter.
\<close>

section \<open>Constants\<close>

definition CNV_FRONT_MUL :: fp where "CNV_FRONT_MUL = f32 (17391 / 100)"
definition CNV_FRONT_EXP :: fp where "CNV_FRONT_EXP = f32 (1071 / 1000)"
definition CNV_RIGHT_MUL :: fp where "CNV_RIGHT_MUL = f32 (2680 / 100)"
definition CNV_RIGHT_EXP :: fp where "CNV_RIGHT_EXP = f32 (1018 / 1000)"
definition WHEEL_CIRCUM :: fp where "WHEEL_CIRCUM = f32 (265 / 1000)"
definition WHEEL_N :: fp where "WHEEL_N = f32 10"
definition WT_PSC :: fp where "WT_PSC = f32 64"
definition WT_TOP :: u32 where "WT_TOP = 65535"
definition SENS_SLAVE :: nat where "SENS_SLAVE = 0"

section \<open>State\<close>

record sens_data =
  dist_front :: fp
  dist_right :: fp
  distance :: fp
  velocity :: fp

definition SENS_EMPTY :: sens_data where
  "SENS_EMPTY = \<lparr>dist_front = Fin 0, dist_right = Fin 0, distance = Fin 0, velocity = Fin 0\<rparr>"

definition sens_bytes :: "sens_data \<Rightarrow> u8 list" where
  "sens_bytes d = float_bytes (dist_front d) @ float_bytes (dist_right d)
     @ float_bytes (distance d) @ float_bytes (velocity d)"

definition bytes_sens :: "u8 list \<Rightarrow> sens_data" where
  "bytes_sens bs = \<lparr>dist_front = bytes_float (take 4 bs), dist_right = bytes_float (take 4 (drop 4 bs)),
     distance = bytes_float (take 4 (drop 8 bs)), velocity = bytes_float (take 4 (drop 12 bs))\<rparr>"

text \<open>
  The globals, the two timers, and the locals of \<open>main\<close> that live across interrupts: the
  pair it samples at the top of an iteration.
\<close>

record sens_state =
  sensors :: sens_data
  wheel_left_count :: u16
  wheel_left_period :: u32
  wheel_right_count :: u16
  wheel_right_period :: u32
  WL_TCNT :: u16
  WR_TCNT :: u16
  sampled :: "(u16 \<times> u32) option"

definition sens_init :: sens_state where
  "sens_init = \<lparr>sensors = SENS_EMPTY, wheel_left_count = 0, wheel_left_period = WT_TOP,
     wheel_right_count = 0, wheel_right_period = WT_TOP, WL_TCNT = 0, WR_TCNT = 0, sampled = None\<rparr>"

definition sens_reset :: "sens_state \<Rightarrow> sens_state" where
  "sens_reset s = s\<lparr>sensors := SENS_EMPTY\<rparr>"

section \<open>Interrupts\<close>

definition TIMER1_COMPA :: "sens_state \<Rightarrow> sens_state" where
  "TIMER1_COMPA s = s\<lparr>wheel_left_period := WT_TOP\<rparr>"

definition INT0 :: "sens_state \<Rightarrow> sens_state" where
  "INT0 s = s\<lparr>wheel_left_count := wheel_left_count s + 1, wheel_left_period := ucast (WL_TCNT s),
     WL_TCNT := 0\<rparr>"

definition INT1 :: "sens_state \<Rightarrow> sens_state" where
  "INT1 s = s\<lparr>wheel_right_count := wheel_right_count s + 1, wheel_right_period := ucast (WR_TCNT s),
     WR_TCNT := 0\<rparr>"

text \<open>
  One tick of the left timer, which \<open>wheel_init\<close> puts into clear-on-compare mode with the
  top \<open>WT_TOP\<close>: it starts again at zero and requests the interrupt. The right timer is
  never started.
\<close>

definition WL_tick :: "sens_state \<Rightarrow> sens_state" where
  "WL_tick s = (if ucast (WL_TCNT s) = WT_TOP then TIMER1_COMPA (s\<lparr>WL_TCNT := 0\<rparr>)
                else s\<lparr>WL_TCNT := WL_TCNT s + 1\<rparr>)"

text \<open>
  The SPI interrupt, from the command byte in \<open>SPDR\<close> to the end, with the state after it.
  The byte clocked out with the command is whatever \<open>SPDR\<close> held. No command of this slave
  writes, so \<open>spi_accept\<close> gets no buffer.
\<close>

definition SPI_STC :: "u8 \<Rightarrow> sens_state \<Rightarrow> (u8 \<times> sens_state) proc" where
  "SPI_STC spdr s =
     Xfer spdr (\<lambda>cs.
       bind (spi_accept [] True SENS_SLAVE cs 0) (\<lambda>(command, _).
         if command = BBS_GET then
           bind (spi_return command (sens_bytes (sensors s)) SIZEOF_SENS_DATA) (\<lambda>_. Ret (command, s))
         else if command = BBS_RST then Ret (command, sens_reset s)
         else Ret (command, s)))"

section \<open>The main loop\<close>

text \<open>The two counters are added in 16 bits, the size of \<open>int\<close> on this target.\<close>

definition sample :: "sens_state \<Rightarrow> sens_state" where
  "sample s = s\<lparr>sampled := Some (wheel_left_count s + wheel_right_count s, wheel_left_period s)\<rparr>"

definition velocity_of :: "u32 \<Rightarrow> fp" where
  "velocity_of wheel_period =
     (if wheel_period < WT_TOP
      then div32 (div32 (div32 (mul32 F_CPU WHEEL_CIRCUM) WHEEL_N) WT_PSC) (f32 (of_int (uint wheel_period)))
      else Fin 0)"

definition distance_of :: "u16 \<Rightarrow> fp" where
  "distance_of wheel_count =
     div32 (mul32 (div32 WHEEL_CIRCUM WHEEL_N) (f32 (of_int (uint wheel_count)))) (f32 2)"

definition measure_sens :: "(fp \<Rightarrow> fp \<Rightarrow> fp) \<Rightarrow> u16 \<Rightarrow> u16 \<Rightarrow> u16 \<times> u32 \<Rightarrow> sens_data" where
  "measure_sens pow adc_front adc_right w =
     \<lparr>dist_front = mul32 CNV_FRONT_MUL (pow (f32 (of_int (uint adc_front))) (fneg CNV_FRONT_EXP)),
      dist_right = mul32 CNV_RIGHT_MUL (pow (f32 (of_int (uint adc_right))) (fneg CNV_RIGHT_EXP)),
      distance = distance_of (fst w),
      velocity = velocity_of (snd w)\<rparr>"

text \<open>The rest of an iteration, with the converter's readings.\<close>

definition publish :: "(fp \<Rightarrow> fp \<Rightarrow> fp) \<Rightarrow> u16 \<Rightarrow> u16 \<Rightarrow> sens_state \<Rightarrow> sens_state" where
  "publish pow adc_front adc_right s =
     (case sampled s of
        None \<Rightarrow> s
      | Some w \<Rightarrow> s\<lparr>sensors := measure_sens pow adc_front adc_right w, sampled := None\<rparr>)"

text \<open>Interrupts fall anywhere between the two protected sections of an iteration.\<close>

inductive sens_reach :: "(fp \<Rightarrow> fp \<Rightarrow> fp) \<Rightarrow> sens_state \<Rightarrow> bool" for pow where
  init: "sens_reach pow sens_init"
| left: "sens_reach pow s \<Longrightarrow> sens_reach pow (INT0 s)"
| right: "sens_reach pow s \<Longrightarrow> sens_reach pow (INT1 s)"
| tick: "sens_reach pow s \<Longrightarrow> sens_reach pow (WL_tick s)"
| spi: "sens_reach pow s \<Longrightarrow> exch (m :: (bool \<times> u8 list option) proc) w t (SPI_STC spdr s) = (r, Ret (c, s')) \<Longrightarrow>
    sens_reach pow s'"
| sample: "sens_reach pow s \<Longrightarrow> sampled s = None \<Longrightarrow> sens_reach pow (sample s)"
| publish: "sens_reach pow s \<Longrightarrow> adc_front < 1024 \<Longrightarrow> adc_right < 1024 \<Longrightarrow>
    sens_reach pow (publish pow adc_front adc_right s)"

lemmas [step_defs] = sens_reset_def TIMER1_COMPA_def INT0_def INT1_def WL_tick_def sample_def publish_def

section \<open>The record on the bus\<close>

definition sens_fits :: "sens_data \<Rightarrow> bool" where
  "sens_fits d \<longleftrightarrow> fp_ok 24 127 (dist_front d) \<and> fp_ok 24 127 (dist_right d)
     \<and> fp_ok 24 127 (distance d) \<and> fp_ok 24 127 (velocity d)"

lemma length_sens_bytes [simp]: "length (sens_bytes d) = 16"
  by (simp add: sens_bytes_def)

lemma bytes_sens_bytes: "sens_fits d \<Longrightarrow> bytes_sens (sens_bytes d) = d"
  by (simp add: bytes_sens_def sens_bytes_def sens_fits_def)

lemma fits_measured: "sens_fits (measure_sens pow a b w)"
  by (simp add: sens_fits_def measure_sens_def distance_of_def velocity_of_def)

lemma fits_empty: "sens_fits SENS_EMPTY"
  by (simp add: sens_fits_def SENS_EMPTY_def)

section \<open>The SPI interrupt\<close>

lemma sens_commands [simp]:
  "BB_INVALID \<noteq> BBS_GET" "BBS_GET \<noteq> BB_INVALID" "BB_INVALID \<noteq> BBS_RST" "BBS_GET \<noteq> BBS_RST" "BBS_RST \<noteq> BBS_GET"
  by (simp_all add: BB_INVALID_def BBS_GET_def BBS_RST_def)

lemma sens_reads: "bc_ok p \<Longrightarrow> slave (bc p) = SENS_SLAVE \<Longrightarrow> \<not> write (bc p)"
  by (auto simp: bc_ok_iff bc_valid_ptrs_def SENS_SLAVE_def proto_simps)

lemma sens_accept:
  "spi_accept [] True SENS_SLAVE cs junk =
     (if valid (BCSS ! unat (cs_cmd cs)) then Xfer SENS_ACK (\<lambda>_. Ret (cs_cmd cs, []))
      else Ret (BB_INVALID, []))"
proof (cases "valid (BCMDS ! SENS_SLAVE ! unat (cs_cmd cs))")
  case True
  moreover from table_entry [OF _ this] obtain p where "bc_ok p" "slave (bc p) = SENS_SLAVE"
    "BCMDS ! SENS_SLAVE ! unat (cs_cmd cs) = bc p" by (auto simp: SENS_SLAVE_def)
  ultimately show ?thesis
    using sens_reads [of p] by (simp add: spi_accept_def Let_def SENS_SLAVE_def BCMDS_def ACKS_def)
next
  case False
  then show ?thesis by (simp add: spi_accept_def Let_def SENS_SLAVE_def BCMDS_def)
qed

lemma spi_return_sens:
  "spi_return c (sens_bytes d) SIZEOF_SENS_DATA =
     Xfer (cs_pack c c) (\<lambda>_. slave_tranceive (sens_bytes d) 0 16)"
  using calc_sum_even [of 16 "sens_bytes d" c]
  by (simp add: spi_return_def cs_create_def SIZEOF_SENS_DATA_def cs_pack_def)

lemma SPI_STC_results: "leaves (\<lambda>(c, s'). s' = s \<or> s' = sens_reset s) (SPI_STC spdr s)"
proof -
  have tr: "leaves (\<lambda>d. True) (slave_tranceive data i n)" if "i + n \<le> length data" for data i n
    using that by (induction data i n rule: slave_tranceive.induct) auto
  show ?thesis
    by (auto simp: SPI_STC_def sens_accept spi_return_sens intro!: leaves_bind [OF tr])
qed

lemma SPI_STC_exch:
  assumes "exch m w t (SPI_STC spdr s) = (r, Ret (c, s'))"
  shows "s' = s \<or> s' = sens_reset s"
proof -
  have "leaves P q \<Longrightarrow> snd (exch m w t q) = Ret x \<Longrightarrow> P x" for P :: "'b \<Rightarrow> bool" and q x
  proof (induction m arbitrary: t q)
    case (Xfer b f)
    then show ?case by (cases q) (auto intro: Xfer.IH [OF rangeI])
  qed auto
  from this [OF SPI_STC_results [of s spdr]] assms show ?thesis by fastforce
qed

text \<open>
  At most eighteen bytes follow a command byte: acknowledgement, checksum byte and payload.
\<close>

lemma slave_loop_sens: "slave_loop (SPI_STC spdr s) 18"
proof
  show "\<exists>s' g. SPI_STC spdr s = Xfer s' g" by (simp add: SPI_STC_def)
  have "depth_le (bind (slave_tranceive (sens_bytes d) 0 16) (\<lambda>_. Ret x)) 16" for d and x :: "u8 \<times> sens_state"
    using slave_tranceive_results [of 0 16 "sens_bytes d" "\<lambda>_. Ret x" 0] by simp
  then show "depth_le (SPI_STC spdr s) (Suc 18)"
    by (auto simp: SPI_STC_def sens_accept spi_return_sens depth_le_Xfer simp del: depth_le.simps(3))
  show "\<exists>r. g 0 = Ret r" if "SPI_STC spdr s = Xfer s' g" for s' g
    using that spi_accept_zero [of SENS_SLAVE "[]" 0]
    by (auto simp: SPI_STC_def SENS_SLAVE_def)
qed

interpretation sens: slave_loop "SPI_STC spdr s" 18 for spdr s
  by (rule slave_loop_sens)

section \<open>Timers and counters\<close>

text \<open>A stretch of \<open>n\<close> timer ticks without a pulse of the left wheel, whatever else happens.\<close>

inductive no_pulse :: "(fp \<Rightarrow> fp \<Rightarrow> fp) \<Rightarrow> nat \<Rightarrow> sens_state \<Rightarrow> sens_state \<Rightarrow> bool" for pow where
  none: "no_pulse pow 0 s s"
| tick: "no_pulse pow n s s1 \<Longrightarrow> no_pulse pow (Suc n) s (WL_tick s1)"
| right: "no_pulse pow n s s1 \<Longrightarrow> no_pulse pow n s (INT1 s1)"
| sample: "no_pulse pow n s s1 \<Longrightarrow> no_pulse pow n s (sample s1)"
| publish: "no_pulse pow n s s1 \<Longrightarrow> no_pulse pow n s (publish pow a b s1)"
| reset: "no_pulse pow n s s1 \<Longrightarrow> no_pulse pow n s (sens_reset s1)"

lemma WL_tick_count: "WL_TCNT (WL_tick s) = WL_TCNT s + 1"
proof (cases "ucast (WL_TCNT s) = WT_TOP")
  case True
  then have "uint (ucast (WL_TCNT s) :: u32) = 65535" by (simp add: WT_TOP_def)
  moreover have "uint (ucast (WL_TCNT s) :: u32) = uint (WL_TCNT s)"
    by (rule uint_up_ucast) (simp add: is_up)
  ultimately have "uint (WL_TCNT s) = uint (65535 :: u16)" by simp
  then have "WL_TCNT s = 65535" by (simp only: word_uint_eq_iff)
  with True show ?thesis by (simp add: WL_tick_def TIMER1_COMPA_def)
qed (simp add: WL_tick_def)

lemma no_pulse_count: "no_pulse pow n s s' \<Longrightarrow> WL_TCNT s' = WL_TCNT s + of_nat n"
  by (induction rule: no_pulse.induct)
     (auto simp: WL_tick_count INT1_def sample_def publish_def sens_reset_def split: option.split)

lemma no_pulse_ticks: "no_pulse pow n s ((WL_tick ^^ n) s)"
  by (induction n) (auto intro: no_pulse.intros)

section \<open>What is published\<close>

lemma sensors_frame [frame_simps]:
  "sensors (INT0 s) = sensors s" "sensors (INT1 s) = sensors s" "sensors (WL_tick s) = sensors s"
  "sensors (sample s) = sensors s"
  by (simp_all add: step_defs)

lemma published:
  "sens_reach pow s \<Longrightarrow> sensors s = SENS_EMPTY \<or>
     (\<exists>a b w. a < 1024 \<and> b < 1024 \<and> sensors s = measure_sens pow a b w)"
proof (induction rule: sens_reach.induct)
  case (spi s m w t spdr r c s')
  then show ?case using SPI_STC_exch [OF spi.hyps(2)] by (auto simp: sens_reset_def)
next
  case (publish s a b)
  then show ?case by (auto simp: publish_def split: option.split)
qed (auto simp: sens_init_def frame_simps)

lemma sens_fits_reach: "sens_reach pow s \<Longrightarrow> sens_fits (sensors s)"
  using published [of pow s] fits_measured fits_empty by metis

lemma count_between:
  assumes "l \<le> uint (x :: 'a::len word)" "uint x \<le> h" "f32 (of_int l) = Fin (of_int l)" "f32 (of_int h) = Fin (of_int h)"
  shows "between (Fin (of_int l)) (f32 (of_int (uint x))) (Fin (of_int h))"
proof -
  have l: "rat_of_int l \<le> of_int (uint x)" and h: "of_int (uint x) \<le> rat_of_int h"
    using assms(1,2) by (simp_all only: of_int_le_iff)
  from rnd_mono [OF l, of 24 127] rnd_mono [OF h, of 24 127] assms(3,4)
  have "fle (Fin (of_int l)) (f32 (of_int (uint x)))" "fle (f32 (of_int (uint x))) (Fin (of_int h))"
    by (simp_all only: zero_less_numeral simp_thms)
  then show ?thesis by (rule betweenI) simp_all
qed

lemma distance_bounds: "between (Fin 0) (distance_of c) (Fin (14226861 / 16384))"
proof -
  let ?k = "div32 WHEEL_CIRCUM WHEEL_N"
  have "f32 (of_int 65535) = Fin (of_int 65535)" by code_simp
  moreover have "uint c < 2 ^ 16" using uint_bounded [of c] by simp
  ultimately have c: "between (Fin 0) (f32 (of_int (uint c))) (Fin 65535)"
    using count_between [of 0 c 65535] by simp
  have k: "is_fin ?k" "0 \<le> fval ?k" by code_simp+
  have two: "is_fin (f32 2)" "0 < fval (f32 2)" by code_simp+
  have ends: "is_fin (mul32 ?k (Fin 0))" "is_fin (mul32 ?k (Fin 65535))"
    "div32 (mul32 ?k (Fin 0)) (f32 2) = Fin 0" "div32 (mul32 ?k (Fin 65535)) (f32 2) = Fin (14226861 / 16384)"
    by code_simp+
  have "between (mul32 ?k (Fin 0)) (mul32 ?k (f32 (of_int (uint c)))) (mul32 ?k (Fin 65535))"
    using between_fmono [OF c fmono_mul_left [OF k, of 24 127]] ends by simp
  from between_fmono [OF this fmono_div [OF two, of 24 127]] show ?thesis
    using ends by (simp add: distance_of_def)
qed

lemma speed_unit: "div32 (div32 (mul32 F_CPU WHEEL_CIRCUM) WHEEL_N) WT_PSC = Fin 6625"
  by code_simp

lemma velocity_bounds:
  assumes "0 < p" "p < WT_TOP"
  shows "between (Fin (6784207 / 67108864)) (velocity_of p) (Fin 6625)"
proof -
  let ?x = "f32 (of_int (uint p))"
  have ends: "f32 (of_int 65534) = Fin (of_int 65534)" "f32 (of_int 1) = Fin (of_int 1)" by code_simp+
  have "1 \<le> uint p" "uint p \<le> 65534"
    using assms by (simp_all add: WT_TOP_def word_less_def)
  with ends have x: "between (Fin 1) ?x (Fin 65534)"
    using count_between [of 1 p 65534] by simp
  then have b: "is_fin ?x" "1 \<le> fval ?x" "fval ?x \<le> 65534" by (auto simp: between_def)
  have lo: "f32 (6625 / 65534) = Fin (6784207 / 67108864)" and hi: "f32 6625 = Fin 6625" by code_simp+
  have "6625 / 65534 \<le> 6625 / fval ?x" "6625 / fval ?x \<le> 6625"
    using b by (simp_all add: field_simps)
  from rnd_mono [OF this(1), of 24 127] rnd_mono [OF this(2), of 24 127]
  have "between (Fin (6784207 / 67108864)) (div32 (Fin 6625) ?x) (Fin 6625)"
    using b by (intro betweenI) (simp_all add: fle_fdiv_fin lo hi)
  then show ?thesis using assms(2) by (simp add: velocity_of_def speed_unit)
qed

lemma velocity_zero_period: "velocity_of 0 = Inf False"
  by code_simp

section \<open>A read over the bus\<close>

lemma sens_read:
  assumes "\<And>b. fst (w t) b = b" "\<And>b. snd (w (t + 1)) b = b" "\<And>b. snd (w (t + 2)) b = b"
  shows "exch (receive (bc (BCSS_at BBS_GET))) w t (SPI_STC spdr s)
    = (Ret (True, Some (to_master w (t + 3) (sens_bytes (sensors s)))), Ret (BBS_GET, s))"
proof -
  let ?p = "BCSS_at BBS_GET" and ?k = "\<lambda>_. Ret (BBS_GET, s)"
  have p: "slave (bc ?p) = SENS_SLAVE" "cmd (bc ?p) = BBS_GET" "len (bc ?p) = SIZEOF_SENS_DATA"
    by (simp_all add: SLAVE_SENS_def SENS_SLAVE_def)
  let ?g = "\<lambda>cs. bind (spi_accept [] True (slave (bc ?p)) cs 0)
      (\<lambda>(c, _). bind (spi_return c (sens_bytes (sensors s)) (len (bc ?p))) ?k)"
  let ?cs = "cs_pack BBS_GET BBS_GET"
  have cs: "cs_cmd ?cs = BBS_GET" by (simp add: BBS_GET_def)
  have "bind (spi_accept [] True SENS_SLAVE ?cs 0) (\<lambda>(command, _).
         if command = BBS_GET then
           bind (spi_return command (sens_bytes (sensors s)) SIZEOF_SENS_DATA) (\<lambda>_. Ret (command, s))
         else if command = BBS_RST then Ret (command, sens_reset s)
         else Ret (command, s)) = ?g ?cs"
    using spi_accept_read [of ?p ?cs SENS_SLAVE "[]" 0] p cs by simp
  moreover obtain f where "receive (bc ?p) = Xfer ?cs f"
    using receive_bc [of ?p] p(2) by simp
  ultimately have "exch (receive (bc ?p)) w t (SPI_STC spdr s) = exch (receive (bc ?p)) w t (Xfer spdr ?g)"
    using assms(1) by (simp only: SPI_STC_def exch.simps proc.case)
  also have "\<dots> = (Ret (True, Some (to_master w (t + 3) (sens_bytes (sensors s)))), Ret (BBS_GET, s))"
    using exch_read [of ?p "sens_bytes (sensors s)" w t spdr "[]" 0 ?k] assms by (simp add: SIZEOF_SENS_DATA_def)
  finally show ?thesis .
qed

section \<open>Properties\<close>

text \<open>C22. Reading the sensors over a wire that changes nothing gives the communication module
  exactly the record the sensor module holds.\<close>

theorem sens_read_exact:
  assumes "sens_reach pow s"
  shows "\<exists>bs. exch (receive (bc (BCSS_at BBS_GET))) perfect t (SPI_STC spdr s) = (Ret (True, Some bs), Ret (BBS_GET, s))
    \<and> bytes_sens bs = sensors s"
  using sens_read [of perfect t spdr s] bytes_sens_bytes [OF sens_fits_reach [OF assms]]
  by (simp add: perfect_def [abs_def]) (simp add: perfect_def [symmetric, abs_def])

theorem sens_read_exact_witness:
  "\<exists>bs. exch (receive (bc (BCSS_at BBS_GET))) perfect 0 (SPI_STC 7 (INT0 sens_init)) = (Ret (True, Some bs), Ret (BBS_GET, INT0 sens_init))
    \<and> bytes_sens bs = sensors (INT0 sens_init)"
  by (rule sens_read_exact [OF sens_reach.left [OF sens_reach.init]])



text \<open>The measured period is the time between two pulses modulo 65536 ticks, about a quarter of
  a second: the timer starts again at its top, and the overflow interrupt's mark is
  overwritten by the next pulse. A wheel that turns slowly is reported as turning fast, and
  as infinitely fast when the time is a multiple of the top.\<close>

theorem sens_period_wraps:
  assumes "no_pulse pow n (INT0 s) s1"
  shows "wheel_left_period (INT0 s1) = of_nat (n mod 65536)"
proof -
  have "WL_TCNT s1 = of_nat n"
    using no_pulse_count [OF assms] by (simp add: INT0_def)
  then show ?thesis by (simp add: INT0_def unsigned_of_nat take_bit_eq_mod)
qed

theorem sens_period_wraps_witness:
  "wheel_left_period (INT0 ((WL_tick ^^ 65537) (INT0 sens_init))) = 1
    \<and> velocity_of (wheel_left_period (INT0 ((WL_tick ^^ 65537) (INT0 sens_init)))) = Fin 6625"
proof -
  have "wheel_left_period (INT0 ((WL_tick ^^ 65537) (INT0 sens_init))) = of_nat (65537 mod 65536)"
    by (rule sens_period_wraps [OF no_pulse_ticks])
  moreover have "velocity_of 1 = Fin 6625" by code_simp
  ultimately show ?thesis by simp
qed

text \<open>The odometer wraps: one pulse after 65535 pulses of both wheels together the published
  distance is zero again.\<close>

theorem sens_distance_wraps:
  assumes "wheel_left_count s + wheel_right_count s = 65535"
  shows "distance (sensors (publish pow a b (sample s))) = Fin (14226861 / 16384)
    \<and> distance (sensors (publish pow a b (sample (INT0 s)))) = Fin 0"
proof -
  have "wheel_left_count s + 1 + wheel_right_count s = (wheel_left_count s + wheel_right_count s) + 1"
    by (simp only: ac_simps)
  also have "\<dots> = 0" unfolding assms by simp
  finally have "wheel_left_count s + 1 + wheel_right_count s = 0" .
  moreover have "distance_of 65535 = Fin (14226861 / 16384)" "distance_of 0 = Fin 0" by code_simp+
  ultimately show ?thesis
    using assms by (simp add: publish_def sample_def measure_sens_def INT0_def)
qed

theorem sens_distance_wraps_witness:
  "distance (sensors (publish (\<lambda>x y. x) 0 0 (sample (INT0 (sens_init\<lparr>wheel_left_count := 65535\<rparr>))))) = Fin 0"
  using sens_distance_wraps [of "sens_init\<lparr>wheel_left_count := 65535\<rparr>" "\<lambda>x y. x" 0 0]
  by (simp add: sens_init_def)

text \<open>The reset command does not reset the odometer: it clears the published record, and the
  next iteration publishes the distance as if nothing had happened.\<close>

theorem sens_reset_keeps_odometer:
  "sensors (sens_reset s) = SENS_EMPTY
    \<and> distance (sensors (publish pow a b (sample (sens_reset s))))
      = distance_of (wheel_left_count s + wheel_right_count s)"
  by (simp add: publish_def sample_def measure_sens_def sens_reset_def)

lemma one_zero_short:
  assumes cmd: "cs_cmd cs = BBS_GET"
  shows "\<exists>b. snd (slave_run body (SPI_STC spdr s) (cs # replicate 17 0)) = Xfer b (\<lambda>r. Ret (BBS_GET, s))"
proof -
  let ?g = "\<lambda>d. bind (slave_tranceive d 15 1) (\<lambda>_. Ret (BBS_GET, s))"
  let ?p = "slave_tranceive (sens_bytes (sensors s)) 0 15"
  have zeros: "replicate 17 0 = 0 # 0 # (replicate 15 0 @ [] :: u8 list)"
    by (simp add: numeral_eq_Suc)
  have get: "valid (BCSS ! unat BBS_GET)" by (simp add: BBS_GET_def BCSS_def)
  have "slave_tranceive (sens_bytes (sensors s)) 0 16 = bind ?p (\<lambda>d. slave_tranceive d 15 1)"
    using slave_tranceive_add [of "sens_bytes (sensors s)" 0 15 1] by simp
  then have answer: "slave_tranceive (sens_bytes (sensors s)) 0 16 = bind ?p (\<lambda>d. slave_tranceive d 15 1)" .
  have g: "\<exists>b f. ?g d = Xfer b f" if "length d = 16" for d using that by simp
  have "slave_run body (bind ?p ?g) (replicate 15 0 @ [])
      = slave_run body (?g (take 0 (sens_bytes (sensors s)) @ replicate 15 0 @ drop (0 + length (replicate 15 0)) (sens_bytes (sensors s)))) []"
    using slave_run_block [of 16 ?g "sens_bytes (sensors s)" 0 "replicate 15 0" body "[]"] g by simp
  moreover have "slave_tranceive (sens_bytes (sensors s)) 0 15 = Xfer x f \<Longrightarrow> True" for x f by simp
  moreover have "\<exists>b f. bind ?p ?g = Xfer b f" by (simp add: slave_tranceive.simps(2) [of _ _ 14, simplified])
  ultimately show ?thesis
    unfolding zeros by (auto simp: SPI_STC_def sens_accept cmd get spi_return_sens answer bind_assoc)
qed

text \<open>The zeros of one \<open>spi_sync\<close> are just enough for the sensor module: after any bytes it is
  waiting for a command, and one zero less can leave it in the middle of an answer.\<close>

theorem sens_resynchronised:
  "snd (slave_run (SPI_STC spdr s) (SPI_STC spdr s) (bs @ replicate (MAX_DATA_LENGTH + 2) 0)) = SPI_STC spdr s
    \<and> snd (slave_run (SPI_STC spdr s) (SPI_STC spdr s) (cs_pack BBS_GET BBS_GET # replicate (MAX_DATA_LENGTH + 1) 0))
      \<noteq> SPI_STC spdr s"
proof
  show "snd (slave_run (SPI_STC spdr s) (SPI_STC spdr s) (bs @ replicate (MAX_DATA_LENGTH + 2) 0)) = SPI_STC spdr s"
    by (rule sens.resync) (simp add: MAX_DATA_LENGTH_def)
  show "snd (slave_run (SPI_STC spdr s) (SPI_STC spdr s) (cs_pack BBS_GET BBS_GET # replicate (MAX_DATA_LENGTH + 1) 0))
      \<noteq> SPI_STC spdr s"
  proof
    assume eq: "snd (slave_run (SPI_STC spdr s) (SPI_STC spdr s)
        (cs_pack BBS_GET BBS_GET # replicate (MAX_DATA_LENGTH + 1) 0)) = SPI_STC spdr s"
    have cmd: "cs_cmd (cs_pack BBS_GET BBS_GET) = BBS_GET" by (simp add: BBS_GET_def)
    from one_zero_short [OF this, of "SPI_STC spdr s" spdr s] eq obtain b where
      "Xfer b (\<lambda>r. Ret (BBS_GET, s)) = SPI_STC spdr s" by (auto simp: MAX_DATA_LENGTH_def)
    then have eq: "(\<lambda>r. Ret (BBS_GET, s)) = (\<lambda>cs.
       bind (spi_accept [] True SENS_SLAVE cs 0) (\<lambda>(command, _).
         if command = BBS_GET then
           bind (spi_return command (sens_bytes (sensors s)) SIZEOF_SENS_DATA) (\<lambda>_. Ret (command, s))
         else if command = BBS_RST then Ret (command, sens_reset s)
         else Ret (command, s)))"
      unfolding SPI_STC_def proc.inject by blast
    show False using fun_cong [OF eq, of 0] by (simp add: spi_accept_zero SENS_SLAVE_def)
  qed
qed

end
