(* ===== verification/Objective.thy ===== *)
theory Objective
  imports Cfloat
begin

text \<open>
  The objective of the communication module, \<^verbatim>\<open>src/comm/objective.c\<close>: a mission is a queue
  of commands, each a small state machine over the position relative to the stop line.
  The result of the image processing, \<open>ip_res\<close>, is an input of every step. Types of
  \<^verbatim>\<open>src/comm/types.h\<close> and \<^verbatim>\<open>src/comm/ip/img_proc.h\<close>.
\<close>

section \<open>Types\<close>

record sens_val =
  s_dist_front :: fp
  s_dist_right :: fp
  s_distance :: fp
  s_velocity :: fp
  s_time :: fp

record ctrl_val =
  vel_value :: fp
  vel_regulate :: fp
  rot_value :: fp
  rot_regulate :: fp

record ip_res =
  lane_offset :: fp
  stopline_dist :: fp
  stopline_visible :: bool
  stopline_passed :: bool
  lane_right_visible :: bool
  lane_left_visible :: bool

record ip_opt =
  ignore_right :: bool
  ignore_left :: bool
  ignore_stop :: bool

definition ip_opt_zero :: ip_opt where
  "ip_opt_zero = \<lparr>ignore_right = False, ignore_left = False, ignore_stop = False\<rparr>"

definition ctrl_zero_val :: ctrl_val where
  "ctrl_zero_val = \<lparr>vel_value = Fin 0, vel_regulate = Fin 0, rot_value = Fin 0, rot_regulate = Fin 0\<rparr>"

text \<open>\<open>regulate\<close> is a \<open>float\<close> that a \<open>bool\<close> is stored in and that is tested as one.\<close>

definition of_bool_f :: "bool \<Rightarrow> fp" where
  "of_bool_f b = (if b then Fin 1 else Fin 0)"

definition f_true :: "fp \<Rightarrow> bool" where
  "f_true x \<longleftrightarrow> \<not> (is_fin x \<and> fval x = 0)"

record cmd_state =
  sens :: sens_val
  st_lane_offset :: fp
  stop_visible :: bool
  stop_dist :: fp
  last_cmd :: bool
  st_pos :: int
  postime :: fp
  posdist :: fp

section \<open>Constants\<close>

definition PICKUP_TIME :: fp where "PICKUP_TIME = Fin 5"
definition LEFT :: fp where "LEFT = Fin (- 1)"
definition SLOW_VEL :: fp where "SLOW_VEL = f32 (4 / 10)"
definition FULL_VEL :: fp where "FULL_VEL = f32 (6 / 10)"
definition BEFORE_STOP :: int where "BEFORE_STOP = 1"
definition AFTER_STOP :: int where "AFTER_STOP = 2"
definition PARKED :: int where "PARKED = AFTER_STOP + 1"
definition UNPARKING :: int where "UNPARKING = PARKED + 1"

text \<open>The floating constants of the conditions are \<open>double\<close>, the assigned ones end as \<open>float\<close>.\<close>

definition dbl :: "rat \<Rightarrow> fp" where
  "dbl x = f64 x"

lemmas pos_defs [simp] = BEFORE_STOP_def AFTER_STOP_def PARKED_def UNPARKING_def

section \<open>The commands\<close>

type_synonym cmd_result = "bool \<times> cmd_state \<times> ctrl_val \<times> ip_opt"

definition cmd_ignore :: "cmd_state \<Rightarrow> ctrl_val \<Rightarrow> ip_opt \<Rightarrow> cmd_result" where
  "cmd_ignore s c i = (if AFTER_STOP \<le> st_pos s then (True, s, c, i) else (False, s, c, i))"

definition cmd_stop :: "cmd_state \<Rightarrow> ctrl_val \<Rightarrow> ip_opt \<Rightarrow> cmd_result" where
  "cmd_stop s c i =
     (if st_pos s = BEFORE_STOP \<and> stop_visible s then
        (let c1 = c\<lparr>vel_value := div32 (fneg (s_velocity (sens s))) (Fin 3)\<rparr>
         in (False, s,
             (if flt (s_velocity (sens s)) (dbl (3 / 10)) then c1\<lparr>vel_value := f32 (3 / 10)\<rparr> else c1), i))
      else if AFTER_STOP \<le> st_pos s then
        (last_cmd s \<or> fle PICKUP_TIME (postime s), s, c\<lparr>vel_value := Fin 0\<rparr>, i)
      else (False, s, c, i))"

definition cmd_park :: "cmd_state \<Rightarrow> ctrl_val \<Rightarrow> ip_opt \<Rightarrow> cmd_result" where
  "cmd_park s c i =
     (if st_pos s = BEFORE_STOP then
        (False, s, c, if stop_visible s then i\<lparr>ignore_left := True\<rparr> else i)
      else if st_pos s = AFTER_STOP then
        (let c1 = c\<lparr>vel_value := SLOW_VEL\<rparr>; i1 = i\<lparr>ignore_left := True\<rparr>
         in if flt (posdist s) (dbl (4 / 10)) then (False, s, c1\<lparr>rot_value := f32 (90 / 100)\<rparr>, i1)
            else if flt (dbl (8 / 10)) (posdist s) then
              (if last_cmd s then (True, s, c1, i1) else (False, s\<lparr>st_pos := PARKED\<rparr>, c1, i1))
            else (False, s, c1, i1))
      else if st_pos s = PARKED then
        (False, (if fle PICKUP_TIME (postime s) then s\<lparr>st_pos := UNPARKING\<rparr> else s),
         c\<lparr>vel_value := Fin 0\<rparr>, i)
      else if st_pos s = UNPARKING then
        (let i1 = i\<lparr>ignore_left := True\<rparr>
         in if flt (posdist s) (dbl (25 / 100)) then (False, s, c\<lparr>rot_value := LEFT\<rparr>, i1)
            else (True, s, c, i1))
      else (False, s, c, i))"

definition cmd_enter :: "cmd_state \<Rightarrow> ctrl_val \<Rightarrow> ip_opt \<Rightarrow> cmd_result" where
  "cmd_enter s c i =
     (if AFTER_STOP \<le> st_pos s then
        (if flt (posdist s) (dbl (1 / 10)) then (False, s, c, i\<lparr>ignore_left := True\<rparr>) else (True, s, c, i))
      else (False, s, c, i))"

definition cmd_continue :: "cmd_state \<Rightarrow> ctrl_val \<Rightarrow> ip_opt \<Rightarrow> cmd_result" where
  "cmd_continue s c i =
     (let i1 = (if st_pos s = BEFORE_STOP \<and> stop_visible s then i\<lparr>ignore_right := True\<rparr> else i)
      in if AFTER_STOP \<le> st_pos s then
           (if flt (posdist s) (dbl (7 / 10)) then (False, s, c, i1\<lparr>ignore_right := True\<rparr>) else (True, s, c, i1))
         else (False, s, c, i1))"

definition cmd_exit :: "cmd_state \<Rightarrow> ctrl_val \<Rightarrow> ip_opt \<Rightarrow> cmd_result" where
  "cmd_exit s c i =
     (if st_pos s = BEFORE_STOP \<and> stop_visible s then (False, s, c, i\<lparr>ignore_left := True\<rparr>)
      else if AFTER_STOP \<le> st_pos s then
        (if flt (posdist s) (dbl (5 / 10)) then (False, s, c, i\<lparr>ignore_left := True\<rparr>) else (True, s, c, i))
      else (False, s, c, i))"

section \<open>The table and the mission\<close>

text \<open>A pointer to an entry of \<open>CMDS\<close>.\<close>

datatype obj_cmd = IGNORE | STOP | PARK | ENTER | CONTINUE | EXIT

definition CMDS :: "obj_cmd list" where
  "CMDS = [IGNORE, STOP, PARK, ENTER, CONTINUE, EXIT]"

fun cmd_name :: "obj_cmd \<Rightarrow> string" where
  "cmd_name IGNORE = ''ignr''"
| "cmd_name STOP = ''stop''"
| "cmd_name PARK = ''park''"
| "cmd_name ENTER = ''entr''"
| "cmd_name CONTINUE = ''cont''"
| "cmd_name EXIT = ''exit''"

fun cmd_func :: "obj_cmd \<Rightarrow> cmd_state \<Rightarrow> ctrl_val \<Rightarrow> ip_opt \<Rightarrow> cmd_result" where
  "cmd_func IGNORE = cmd_ignore"
| "cmd_func STOP = cmd_stop"
| "cmd_func PARK = cmd_park"
| "cmd_func ENTER = cmd_enter"
| "cmd_func CONTINUE = cmd_continue"
| "cmd_func EXIT = cmd_exit"

text \<open>
  \<open>live\<close> counts the queue's items that are allocated. \<open>opts\<close> is what the image
  processing was last told, \<open>ip_resets\<close> how often it was reset.
\<close>

record obj =
  active :: bool
  current :: "obj_cmd option"
  o_queue :: "obj_cmd list"
  passtime :: fp
  passdist :: fp
  pos :: int
  live :: int
  opts :: ip_opt
  ip_resets :: nat

text \<open>
  \<open>queue_create\<close>: the queue and the number of items left allocated. An unknown name gives
  the null queue and everything allocated so far is freed.
\<close>

fun queue_loop :: "string list \<Rightarrow> obj_cmd list \<Rightarrow> obj_cmd list option" where
  "queue_loop [] q = Some q"
| "queue_loop (c # cs) q =
     (case List.find (\<lambda>e. c = cmd_name e) CMDS of
        None \<Rightarrow> None
      | Some e \<Rightarrow> queue_loop cs (q @ [e]))"

definition queue_create :: "string list \<Rightarrow> obj_cmd list" where
  "queue_create cmds = (case queue_loop cmds [] of Some q \<Rightarrow> q | None \<Rightarrow> [])"

definition obj_set_mission :: "string list \<Rightarrow> bool \<Rightarrow> obj \<Rightarrow> bool \<times> obj" where
  "obj_set_mission cmds app o0 =
     (let q = queue_create cmds; o1 = o0\<lparr>live := live o0 + int (length q)\<rparr>
      in if cmds = [] \<or> q \<noteq> [] then
           (let o2 = (if app then o1\<lparr>o_queue := o_queue o1 @ q\<rparr>
                      else o1\<lparr>current := None, o_queue := q, live := live o1 - int (length (o_queue o1))\<rparr>)
            in (True, o2\<lparr>passtime := Fin 0, passdist := Fin 0, pos := BEFORE_STOP,
                        ip_resets := ip_resets o2 + 1\<rparr>))
         else (False, o1))"

definition obj_create :: obj where
  "obj_create =
     snd (obj_set_mission [] False
       \<lparr>active = False, current = None, o_queue = [], passtime = Fin 0, passdist = Fin 0, pos = 0,
        live = 0, opts = ip_opt_zero, ip_resets = 0\<rparr>)"

definition obj_active :: "obj \<Rightarrow> bool" where
  "obj_active ob = active ob"

definition obj_set_state :: "bool \<Rightarrow> obj \<Rightarrow> obj" where
  "obj_set_state state ob = ob\<lparr>active := state\<rparr>"

definition obj_destroy :: "obj \<Rightarrow> obj" where
  "obj_destroy ob = ob\<lparr>live := live ob - int (length (o_queue ob)), o_queue := []\<rparr>"

section \<open>A step\<close>

text \<open>The next command, if none is being executed. The item it came in is not freed.\<close>

definition next_cmd :: "obj \<Rightarrow> obj" where
  "next_cmd ob =
     (case (current ob, o_queue ob) of
        (None, c # cs) \<Rightarrow> ob\<lparr>current := Some c, o_queue := cs\<rparr>
      | _ \<Rightarrow> ob)"

definition pass_line :: "sens_val \<Rightarrow> ip_res \<Rightarrow> obj \<Rightarrow> obj" where
  "pass_line sv ip ob =
     (if stopline_passed ip
      then ob\<lparr>pos := pos ob + 1, passtime := s_time sv, passdist := s_distance sv\<rparr>
      else ob)"

definition cmd_state_of :: "sens_val \<Rightarrow> ip_res \<Rightarrow> obj \<Rightarrow> cmd_state" where
  "cmd_state_of sv ip ob =
     \<lparr>sens = sv, st_lane_offset = lane_offset ip, stop_visible = stopline_visible ip,
      stop_dist = stopline_dist ip, last_cmd = (o_queue ob = []), st_pos = pos ob,
      postime = sub64 (s_time sv) (passtime ob), posdist = sub64 (s_distance sv) (passdist ob)\<rparr>"

definition cmd_done :: "obj \<Rightarrow> obj" where
  "cmd_done ob = ob\<lparr>pos := (if pos ob \<le> AFTER_STOP then pos ob - 1 else BEFORE_STOP), current := None\<rparr>"

definition obj_execute :: "sens_val \<Rightarrow> ip_res \<Rightarrow> obj \<Rightarrow> ctrl_val \<times> obj" where
  "obj_execute sv ip o0 =
     (let o1 = pass_line sv ip (next_cmd o0);
          ctrl = \<lparr>vel_value = Fin 0, vel_regulate = of_bool_f False,
                  rot_value = lane_offset ip, rot_regulate = of_bool_f True\<rparr>
      in case current o1 of
           None \<Rightarrow> (ctrl\<lparr>vel_value := Fin 0\<rparr>, o1)
         | Some c \<Rightarrow>
             (let (cmd_finished, st, ctrl1, opt) =
                    cmd_func c (cmd_state_of sv ip o1) (ctrl\<lparr>vel_value := FULL_VEL\<rparr>) ip_opt_zero;
                  o2 = o1\<lparr>opts := opt\<rparr>;
                  o3 = (if pos o2 \<noteq> st_pos st
                        then o2\<lparr>pos := st_pos st, passtime := s_time sv, passdist := s_distance sv\<rparr>
                        else o2)
              in (ctrl1, if cmd_finished then cmd_done o3 else o3)))"

lemmas [step_defs] = cmd_ignore_def cmd_stop_def cmd_park_def cmd_enter_def cmd_continue_def cmd_exit_def

section \<open>The remaining mission as a string\<close>

definition NAME_LEN :: nat where "NAME_LEN = 5"

text \<open>A write into a buffer is defined inside it only.\<close>

definition put :: "nat \<Rightarrow> string \<Rightarrow> string \<Rightarrow> string option" where
  "put off str buf =
     (if off + length str \<le> length buf
      then Some (take off buf @ str @ drop (off + length str) buf) else None)"

definition NUL :: char where "NUL = CHR 0x00"

text \<open>The entry at index \<open>i\<close>: the name with its terminator, then the separator over it.\<close>

definition put_name :: "nat \<Rightarrow> obj_cmd \<Rightarrow> string \<Rightarrow> string option" where
  "put_name i c buf =
     Option.bind (put (NAME_LEN * i) (cmd_name c @ [NUL]) buf)
       (put (NAME_LEN * (i + 1) - 1) '' '')"

fun put_names :: "nat \<Rightarrow> obj_cmd list \<Rightarrow> string \<Rightarrow> string option" where
  "put_names i [] buf = Some buf"
| "put_names i (c # cs) buf = Option.bind (put_name i c buf) (put_names (i + 1) cs)"

text \<open>
  \<open>obj_remaining\<close> with the memory \<open>malloc\<close> gave: nothing left is the null pointer, a write
  outside the buffer is \<open>None\<close>.
\<close>

definition obj_remaining :: "obj \<Rightarrow> string \<Rightarrow> string option option" where
  "obj_remaining ob buf =
     (let cs = (case current ob of None \<Rightarrow> [] | Some c \<Rightarrow> [c]) @ o_queue ob; count = length cs
      in if 0 < count
         then map_option Some
                (Option.bind (put_names 0 cs buf) (put (NAME_LEN * count - 1) [NUL]))
         else Some None)"

text \<open>The words of a C string, as \<open>strtok\<close> cuts them at single spaces.\<close>

definition c_string :: "string \<Rightarrow> string" where
  "c_string buf = takeWhile (\<lambda>c. c \<noteq> NUL) buf"

fun words_of :: "string \<Rightarrow> string \<Rightarrow> string list" where
  "words_of w [] = [w]"
| "words_of w (c # cs) = (if c = CHR '' '' then w # words_of [] cs else words_of (w @ [c]) cs)"

section \<open>Facts about the commands\<close>

text \<open>
  A command finishes behind the stop line only; it leaves the position alone, except that
  parking moves on by one.
\<close>

lemma cmd_position:
  assumes "cmd_func c st ctrl opt = (fin, st', ctrl', opt')"
  shows "fin \<Longrightarrow> 2 \<le> st_pos st" "fin \<Longrightarrow> st_pos st' = st_pos st"
    "st_pos st' = st_pos st \<or> c = PARK \<and> st_pos st' = st_pos st + 1 \<and> 2 \<le> st_pos st \<and> st_pos st \<le> 3"
  using assms by (cases c; auto simp: step_defs Let_def split: if_splits)+

lemma cmd_velocity:
  assumes "cmd_func c st ctrl opt = (fin, st', ctrl', opt')"
  shows "vel_value ctrl' \<in> {vel_value ctrl, SLOW_VEL, Fin 0, f32 (3 / 10)}
    \<or> c = STOP \<and> st_pos st = 1 \<and> stop_visible st \<and> \<not> flt (s_velocity (sens st)) (dbl (3 / 10))
      \<and> vel_value ctrl' = div32 (fneg (s_velocity (sens st))) (Fin 3)"
  using assms by (cases c; auto simp: step_defs Let_def split: if_splits)

lemma cmd_steers:
  assumes "cmd_func c st ctrl opt = (fin, st', ctrl', opt')"
  shows "rot_value ctrl' \<in> {rot_value ctrl, LEFT, f32 (90 / 100)}" "rot_regulate ctrl' = rot_regulate ctrl"
    "vel_regulate ctrl' = vel_regulate ctrl"
  using assms by (cases c; auto simp: step_defs Let_def split: if_splits)+

lemma velocity_values:
  "fle SLOW_VEL FULL_VEL" "fle (Fin 0) FULL_VEL" "fle (f32 (3 / 10)) FULL_VEL" "fle FULL_VEL FULL_VEL"
  "dbl (3 / 10) = Fin (5404319552844595 / 18014398509481984)"
  by code_simp+

text \<open>Braking in front of the line: a third of the speed, backwards.\<close>

lemma brake_negative:
  assumes "v \<noteq> NaN" "\<not> flt v (dbl (3 / 10))"
  shows "fle (div32 (fneg v) (Fin 3)) (Fin 0)"
proof (cases v)
  case (Fin x)
  with assms(2) have x: "0 < x" by (simp add: velocity_values flt_fin)
  have "fle (rnd 24 127 (- x / 3)) (rnd 24 127 0)" by (rule rnd_mono) (use x in simp_all)
  with x Fin show ?thesis by (simp add: fle_fdiv_fin)
qed (use assms in \<open>auto simp: velocity_values flt_def fle_def fdiv_def Let_def szero_def split: if_splits\<close>)

section \<open>Facts about a step\<close>

lemma next_cmd_frame [simp]:
  "pos (next_cmd ob) = pos ob" "passtime (next_cmd ob) = passtime ob" "passdist (next_cmd ob) = passdist ob"
  "live (next_cmd ob) = live ob" "active (next_cmd ob) = active ob"
  by (auto simp: next_cmd_def split: option.split list.split)

lemma pass_line_frame [simp]:
  "current (pass_line sv ip ob) = current ob" "o_queue (pass_line sv ip ob) = o_queue ob"
  "live (pass_line sv ip ob) = live ob" "active (pass_line sv ip ob) = active ob"
  by (simp_all add: pass_line_def)

lemma pass_line_pos [simp]: "pos (pass_line sv ip ob) = (if stopline_passed ip then pos ob + 1 else pos ob)"
  by (simp add: pass_line_def)

lemma cmd_done_frame [simp]:
  "current (cmd_done ob) = None" "o_queue (cmd_done ob) = o_queue ob" "live (cmd_done ob) = live ob"
  by (simp_all add: cmd_done_def)

text \<open>What a step does to the fields, by what is executed.\<close>

lemma obj_execute_cases:
  obtains (idle) "current (next_cmd ob) = None" "o_queue ob = []"
      "obj_execute sv ip ob = (\<lparr>vel_value = Fin 0, vel_regulate = Fin 0, rot_value = lane_offset ip,
          rot_regulate = Fin 1\<rparr>, pass_line sv ip ob)"
  | (cmd) c fin st ctrl opt where "current (next_cmd ob) = Some c"
      "cmd_func c (cmd_state_of sv ip (pass_line sv ip (next_cmd ob)))
         \<lparr>vel_value = FULL_VEL, vel_regulate = Fin 0, rot_value = lane_offset ip, rot_regulate = Fin 1\<rparr>
         ip_opt_zero = (fin, st, ctrl, opt)"
      "fst (obj_execute sv ip ob) = ctrl"
      "o_queue (snd (obj_execute sv ip ob)) = o_queue (next_cmd ob)"
      "live (snd (obj_execute sv ip ob)) = live ob"
      "current (snd (obj_execute sv ip ob)) = (if fin then None else Some c)"
      "pos (snd (obj_execute sv ip ob)) = (if fin then (if st_pos st \<le> 2 then st_pos st - 1 else 1) else st_pos st)"
proof (cases "current (next_cmd ob)")
  case None
  then have "o_queue ob = [] \<and> next_cmd ob = ob"
    by (auto simp: next_cmd_def split: option.splits list.splits)
  with None show ?thesis
    by (intro idle) (simp_all add: obj_execute_def Let_def of_bool_f_def)
next
  case (Some c)
  obtain fin st ctrl opt where f: "cmd_func c (cmd_state_of sv ip (pass_line sv ip (next_cmd ob)))
         \<lparr>vel_value = FULL_VEL, vel_regulate = Fin 0, rot_value = lane_offset ip, rot_regulate = Fin 1\<rparr>
         ip_opt_zero = (fin, st, ctrl, opt)" by (metis prod.exhaust)
  show ?thesis
    using Some f by (intro cmd [OF Some f]) (auto simp: obj_execute_def Let_def of_bool_f_def cmd_done_def)
qed

section \<open>Runs\<close>

datatype obj_op = Execute sens_val ip_res | Set_mission "string list" bool | Set_state bool

text \<open>The state after an operation, and the command it started, if any.\<close>

definition obj_started :: "obj \<Rightarrow> obj_op \<Rightarrow> obj_cmd list" where
  "obj_started ob e =
     (case e of
        Execute sv ip \<Rightarrow> (case (current ob, o_queue ob) of (None, c # cs) \<Rightarrow> [c] | _ \<Rightarrow> [])
      | _ \<Rightarrow> [])"

fun obj_step :: "obj \<Rightarrow> obj_op \<Rightarrow> obj" where
  "obj_step ob (Execute sv ip) = snd (obj_execute sv ip ob)"
| "obj_step ob (Set_mission cmds app) = snd (obj_set_mission cmds app ob)"
| "obj_step ob (Set_state b) = obj_set_state b ob"

fun obj_run :: "obj \<Rightarrow> obj_op list \<Rightarrow> obj \<times> obj_cmd list" where
  "obj_run ob [] = (ob, [])"
| "obj_run ob (e # es) =
     (let (ob', cs) = obj_run (obj_step ob e) es in (ob', obj_started ob e @ cs))"

text \<open>The position is at least 1, and exactly 1 whenever a command is about to start.\<close>

definition obj_inv :: "obj \<Rightarrow> bool" where
  "obj_inv ob \<longleftrightarrow> 1 \<le> pos ob \<and> (current ob = None \<and> o_queue ob \<noteq> [] \<longrightarrow> pos ob = 1)"

lemma obj_inv_create: "obj_inv obj_create"
  by (simp add: obj_inv_def obj_create_def obj_set_mission_def queue_create_def Let_def)

lemma obj_inv_step: "obj_inv ob \<Longrightarrow> obj_inv (obj_step ob e)"
proof (cases e)
  case (Execute sv ip)
  assume inv: "obj_inv ob"
  show ?thesis
  proof (cases rule: obj_execute_cases [of ob sv ip])
    case idle
    then show ?thesis using inv Execute by (auto simp: obj_inv_def)
  next
    case (cmd c fin st ctrl opt)
    have "1 \<le> st_pos st"
      using cmd_position(3) [OF cmd(2)] inv by (auto simp: obj_inv_def cmd_state_of_def split: if_splits)
    moreover have "fin \<Longrightarrow> 2 \<le> st_pos st" using cmd_position(1,2) [OF cmd(2)] by simp
    ultimately show ?thesis using cmd Execute by (auto simp: obj_inv_def)
  qed
qed (auto simp: obj_inv_def obj_set_mission_def obj_set_state_def Let_def)

lemma obj_inv_run: "obj_inv ob \<Longrightarrow> obj_inv (fst (obj_run ob es))"
  by (induction ob es rule: obj_run.induct) (auto simp: Let_def split_beta obj_inv_step)

lemma started_queue:
  "o_queue (snd (obj_execute sv ip ob)) = (case current ob of None \<Rightarrow> tl (o_queue ob) | Some c \<Rightarrow> o_queue ob)"
  by (cases rule: obj_execute_cases [of ob sv ip])
     (auto simp: next_cmd_def split: option.splits list.splits)

lemma live_execute: "live (snd (obj_execute sv ip ob)) = live ob"
  by (cases rule: obj_execute_cases [of ob sv ip]) auto

lemma live_step:
  "live (obj_step ob e) - int (length (o_queue (obj_step ob e)))
    = live ob - int (length (o_queue ob)) + int (length (obj_started ob e))
      + (case e of Set_mission cmds app \<Rightarrow> if cmds = [] \<or> queue_create cmds \<noteq> [] then 0 else int (length (queue_create cmds)) | _ \<Rightarrow> 0)"
  by (cases e)
     (auto simp: started_queue live_execute obj_started_def obj_set_state_def obj_set_mission_def Let_def
       split: option.splits list.splits)

lemma live_run:
  "live (fst (obj_run ob es)) - int (length (o_queue (fst (obj_run ob es))))
    = live ob - int (length (o_queue ob)) + int (length (snd (obj_run ob es)))"
proof (induction ob es rule: obj_run.induct)
  case (2 ob e es)
  have "(case e of Set_mission cmds app \<Rightarrow> if cmds = [] \<or> queue_create cmds \<noteq> [] then 0 else int (length (queue_create cmds))
      | _ \<Rightarrow> 0) = 0" by (auto split: obj_op.split)
  with 2 live_step [of ob e] show ?case by (simp add: Let_def split_beta)
qed simp

section \<open>Properties\<close>

text \<open>The velocity an objective asks for is never NaN and never above the full velocity, as long
  as the measured velocity is a number.\<close>

theorem obj_velocity_bounded:
  assumes "s_velocity sv \<noteq> NaN"
  shows "fle (vel_value (fst (obj_execute sv ip ob))) FULL_VEL"
proof (cases rule: obj_execute_cases [of ob sv ip])
  case idle
  then show ?thesis using velocity_values by simp
next
  case (cmd c fin st ctrl opt)
  have s: "s_velocity (sens (cmd_state_of sv ip (pass_line sv ip (next_cmd ob)))) = s_velocity sv"
    by (simp add: cmd_state_of_def)
  show ?thesis
    using cmd_velocity [OF cmd(2)] velocity_values brake_negative [OF assms] cmd(3)
      fle_trans [of "div32 (fneg (s_velocity sv)) (Fin 3)" "Fin 0" FULL_VEL]
    by (auto simp: s)
qed

text \<open>With nothing to do the taxi stands: the mission stays finished and the velocity zero.\<close>

theorem obj_idle_stands:
  assumes "current ob = None" "o_queue ob = []"
  shows "vel_value (fst (obj_execute sv ip ob)) = Fin 0
    \<and> current (snd (obj_execute sv ip ob)) = None \<and> o_queue (snd (obj_execute sv ip ob)) = []"
  using assms by (simp add: obj_execute_def next_cmd_def Let_def)

lemma execute_order:
  "snd (obj_run ob (map (\<lambda>(sv, ip). Execute sv ip) fs)) @ o_queue (fst (obj_run ob (map (\<lambda>(sv, ip). Execute sv ip) fs)))
    = o_queue ob"
proof (induction fs arbitrary: ob)
  case (Cons f fs)
  obtain sv ip where f: "f = (sv, ip)" by force
  have "obj_started ob (Execute sv ip) @ o_queue (snd (obj_execute sv ip ob)) = o_queue ob"
    by (auto simp: obj_started_def started_queue split: option.splits list.splits)
  with Cons [of "snd (obj_execute sv ip ob)"] show ?case
    by (simp add: f Let_def split_beta)
qed simp


text \<open>The position counter never falls below the place before the stop line, and every command
  starts there, for every sequence of missions, mode changes and frames.\<close>

theorem obj_position_invariant:
  "let ob = fst (obj_run obj_create es)
   in 1 \<le> pos ob \<and> (current ob = None \<and> o_queue ob \<noteq> [] \<longrightarrow> pos ob = BEFORE_STOP)"
  using obj_inv_run [OF obj_inv_create, of es] by (simp add: obj_inv_def Let_def)

text \<open>C26. At a stop with more to do the taxi stands still until the pickup time is over: as long as
  it is not, and no further stop line is passed, the velocity is zero and the command goes
  on.\<close>

theorem obj_stop_waits:
  assumes "current ob = Some STOP" "AFTER_STOP \<le> pos ob" "o_queue ob \<noteq> []"
    and "\<forall>(sv, ip) \<in> set fs. \<not> stopline_passed ip \<and> \<not> fle PICKUP_TIME (sub64 (s_time sv) (passtime ob))"
  shows "current (fst (obj_run ob (map (\<lambda>(sv, ip). Execute sv ip) fs))) = Some STOP
    \<and> (\<not> stopline_passed ip \<longrightarrow>
        vel_value (fst (obj_execute sv ip (fst (obj_run ob (map (\<lambda>(sv, ip). Execute sv ip) fs))))) = Fin 0)"
  using assms
proof (induction fs arbitrary: ob)
  case Nil
  then show ?case by (auto simp: obj_execute_def next_cmd_def cmd_stop_def cmd_state_of_def pass_line_def Let_def)
next
  case (Cons f fs)
  obtain sv1 ip1 where f: "f = (sv1, ip1)" by force
  have "snd (obj_execute sv1 ip1 ob) = ob\<lparr>opts := ip_opt_zero\<rparr>"
    using Cons.prems f
    by (auto simp: obj_execute_def next_cmd_def cmd_stop_def cmd_state_of_def pass_line_def Let_def)
  moreover have "\<forall>(sv, ip) \<in> set fs. \<not> stopline_passed ip \<and> \<not> fle PICKUP_TIME (sub64 (s_time sv) (passtime ob))"
    using Cons.prems(4) by simp
  ultimately show ?case
    using Cons.IH [of "ob\<lparr>opts := ip_opt_zero\<rparr>"] Cons.prems(1-3) by (simp add: f Let_def split_beta)
qed

text \<open>Once the pickup time is over the stop is left: the command ends and the position is back
  before the next stop line.\<close>

theorem obj_stop_ends:
  assumes "current ob = Some STOP" "AFTER_STOP \<le> pos ob" "\<not> stopline_passed ip"
    and "fle PICKUP_TIME (sub64 (s_time sv) (passtime ob)) \<or> o_queue ob = []"
  shows "current (snd (obj_execute sv ip ob)) = None \<and> pos (snd (obj_execute sv ip ob)) = BEFORE_STOP
    \<and> o_queue (snd (obj_execute sv ip ob)) = o_queue ob"
  using assms
  by (auto simp: obj_execute_def next_cmd_def cmd_stop_def cmd_state_of_def pass_line_def Let_def cmd_done_def)


lemma park_stuck_step:
  assumes "current ob = Some PARK" "4 < pos ob"
  shows "current (snd (obj_execute sv ip ob)) = Some PARK \<and> 4 < pos (snd (obj_execute sv ip ob))
    \<and> vel_value (fst (obj_execute sv ip ob)) = FULL_VEL"
  using assms by (auto simp: obj_execute_def next_cmd_def cmd_park_def cmd_state_of_def pass_line_def Let_def)

text \<open>C40. A stop line seen while pulling out of the parking space is counted as one more position, for
  which parking has no case: from then on the command never ends. Until a new mission is set
  the taxi goes on at full velocity and none of the commands behind it is started.\<close>

theorem obj_park_stuck:
  assumes "current ob = Some PARK" "pos ob = UNPARKING" "stopline_passed ip"
  shows "let ob' = fst (obj_run ob (Execute sv ip # map (\<lambda>(sv, ip). Execute sv ip) fs))
    in current ob' = Some PARK \<and> vel_value (fst (obj_execute sv' ip' ob')) = FULL_VEL"
proof -
  have stuck: "current ob1 = Some PARK \<Longrightarrow> 4 < pos ob1 \<Longrightarrow>
      current (fst (obj_run ob1 (map (\<lambda>(sv, ip). Execute sv ip) fs))) = Some PARK
      \<and> 4 < pos (fst (obj_run ob1 (map (\<lambda>(sv, ip). Execute sv ip) fs)))" for ob1
    by (induction fs arbitrary: ob1) (auto simp: Let_def split_beta park_stuck_step)
  have "current (snd (obj_execute sv ip ob)) = Some PARK \<and> 4 < pos (snd (obj_execute sv ip ob))"
    using assms by (auto simp: obj_execute_def next_cmd_def cmd_park_def cmd_state_of_def pass_line_def Let_def)
  with stuck [of "snd (obj_execute sv ip ob)"] park_stuck_step show ?thesis
    by (simp add: Let_def split_beta)
qed

text \<open>Appending to a mission makes the running command forget where it is: a taxi that waits at a
  stop drives off at full velocity, and waits for the next stop line instead.\<close>

theorem obj_append_forgets_position:
  assumes "current ob = Some STOP" "AFTER_STOP \<le> pos ob" "obj_set_mission cmds True ob = (True, ob')"
    and "\<not> stopline_passed ip" "\<not> stopline_visible ip"
  shows "vel_value (fst (obj_execute sv ip ob)) = Fin 0
    \<and> vel_value (fst (obj_execute sv ip ob')) = FULL_VEL \<and> current (snd (obj_execute sv ip ob')) = Some STOP"
  using assms
  by (auto simp: obj_execute_def next_cmd_def cmd_stop_def cmd_state_of_def pass_line_def Let_def obj_set_mission_def
      split: if_splits)

text \<open>Every command that is started leaks the item it was queued in: after the objective is
  destroyed there are exactly as many items left as commands were started.\<close>

theorem obj_items_leak:
  "live (obj_destroy (fst (obj_run obj_create es))) = int (length (snd (obj_run obj_create es)))"
  using live_run [of obj_create es]
  by (simp add: obj_destroy_def) (simp add: obj_create_def obj_set_mission_def queue_create_def Let_def)

lemma length_cmd_name [simp]: "length (cmd_name c) = 4"
  by (cases c) simp_all

lemma cmd_name_chars [simp]: "CHR '' '' \<notin> set (cmd_name c)" "NUL \<notin> set (cmd_name c)"
  by (cases c; simp add: NUL_def)+

lemma put_name_eq:
  assumes "NAME_LEN * (i + 1) \<le> length buf"
  shows "put_name i c buf = Some (take (NAME_LEN * i) buf @ (cmd_name c @ '' '') @ drop (NAME_LEN * (i + 1)) buf)"
proof -
  let ?a = "take (5 * i) buf" and ?z = "drop (5 * (i + 1)) buf"
  have "put (5 * i) (cmd_name c @ [NUL]) buf = Some (?a @ cmd_name c @ [NUL] @ ?z)"
    using assms by (simp add: put_def NAME_LEN_def add.commute [of 5])
  moreover have "put (5 * (i + 1) - 1) '' '' (?a @ cmd_name c @ [NUL] @ ?z) = Some (?a @ (cmd_name c @ '' '') @ ?z)"
    using assms by (simp add: put_def NAME_LEN_def min_def add.commute [of 5])
  ultimately show ?thesis by (simp add: put_name_def NAME_LEN_def)
qed

lemma put_names_eq:
  assumes "length buf = NAME_LEN * (i + length cs)"
  shows "put_names i cs buf = Some (take (NAME_LEN * i) buf @ concat (map (\<lambda>c. cmd_name c @ '' '') cs))"
  using assms
proof (induction cs arbitrary: i buf)
  case (Cons c cs)
  let ?buf = "take (NAME_LEN * i) buf @ (cmd_name c @ '' '') @ drop (NAME_LEN * (i + 1)) buf"
  have "put_name i c buf = Some ?buf"
    using Cons.prems by (intro put_name_eq) simp
  moreover have "length ?buf = NAME_LEN * (i + 1 + length cs)" "take (NAME_LEN * (i + 1)) ?buf = take (NAME_LEN * i) buf @ cmd_name c @ '' ''"
    using Cons.prems by (simp_all add: NAME_LEN_def min_def)
  ultimately show ?case using Cons.IH [of ?buf "i + 1"] by simp
qed simp

definition joined :: "obj_cmd list \<Rightarrow> string" where
  "joined cs = butlast (concat (map (\<lambda>c. cmd_name c @ '' '') cs))"

lemma concat_names_length: "length (concat (map (\<lambda>c. cmd_name c @ '' '') cs)) = NAME_LEN * length cs"
  by (induction cs) (simp_all add: NAME_LEN_def)

lemma joined_simps:
  "joined [c] = cmd_name c" "cs \<noteq> [] \<Longrightarrow> joined (c # cs) = cmd_name c @ CHR '' '' # joined cs"
  by (auto simp: joined_def butlast_append)

lemma words_of_chars: "CHR '' '' \<notin> set x \<Longrightarrow> words_of w (x @ y) = words_of (w @ x) y"
  by (induction x arbitrary: w) auto

lemma words_joined: "cs \<noteq> [] \<Longrightarrow> words_of [] (joined cs) = map cmd_name cs"
proof (induction cs)
  case (Cons c cs)
  show ?case
  proof (cases "cs = []")
    case True
    then show ?thesis using words_of_chars [of "cmd_name c" "[]" "[]"] by (simp add: joined_simps)
  next
    case False
    then show ?thesis using Cons.IH words_of_chars [of "cmd_name c" "[]" "CHR '' '' # joined cs"]
      by (simp add: joined_simps)
  qed
qed simp

lemma joined_no_NUL: "NUL \<notin> set (joined cs)"
proof -
  have "NUL \<notin> set (concat (map (\<lambda>c. cmd_name c @ '' '') cs))"
    using cmd_name_chars(2) by (auto simp: NUL_def)
  then show ?thesis unfolding joined_def by (meson in_set_butlastD)
qed

lemma queue_loop_names: "queue_loop (map cmd_name cs) q = Some (q @ cs)"
proof (induction cs arbitrary: q)
  case (Cons c cs)
  have "List.find (\<lambda>e. cmd_name c = cmd_name e) CMDS = Some c" by (cases c) (simp_all add: CMDS_def)
  with Cons show ?case by simp
qed simp

text \<open>C31. The remaining mission as a string stays inside the buffer that was allocated for it, and
  read back word by word it is the running command and the queue.\<close>

theorem obj_remaining_roundtrip:
  assumes "cs = (case current ob of None \<Rightarrow> [] | Some c \<Rightarrow> [c]) @ o_queue ob" "cs \<noteq> []"
    and "length buf = length cs * NAME_LEN"
  shows "\<exists>str. obj_remaining ob buf = Some (Some str) \<and> length str = length buf
    \<and> queue_create (words_of [] (c_string str)) = cs"
proof -
  let ?all = "concat (map (\<lambda>c. cmd_name c @ '' '') cs)" and ?n = "NAME_LEN * length cs"
  have len: "length ?all = ?n" by (rule concat_names_length)
  have pos: "0 < length cs" using assms(2) by simp
  have names: "put_names 0 cs buf = Some ?all"
    using put_names_eq [of buf 0 cs] assms(3) by (simp add: mult.commute)
  have n: "0 < ?n" using pos by (simp add: NAME_LEN_def)
  then have "drop ?n ?all = []" "take (?n - 1) ?all = joined cs"
    using len by (simp_all add: joined_def butlast_conv_take)
  then have last: "put (?n - 1) [NUL] ?all = Some (joined cs @ [NUL])"
    using len n by (simp add: put_def)
  have "obj_remaining ob buf = Some (Some (joined cs @ [NUL]))"
    unfolding obj_remaining_def Let_def using assms(1,2) pos names last by simp
  moreover have "c_string (joined cs @ [NUL]) = joined cs"
    using joined_no_NUL [of cs] by (auto simp: c_string_def takeWhile_append)
  moreover have "length (joined cs @ [NUL]) = length buf"
    using n assms(3) len by (simp add: joined_def mult.commute)
  ultimately show ?thesis
    using words_joined [OF assms(2)] queue_loop_names [of cs "[]"] by (auto simp: queue_create_def)
qed

subsection \<open>The properties at work\<close>

definition demo_sens :: sens_val where
  "demo_sens = \<lparr>s_dist_front = Fin 2, s_dist_right = Fin 1, s_distance = Fin 3, s_velocity = Fin 1, s_time = Fin 4\<rparr>"

definition demo_ip :: ip_res where
  "demo_ip = \<lparr>lane_offset = Fin 0, stopline_dist = Fin 0, stopline_visible = False, stopline_passed = False,
     lane_right_visible = True, lane_left_visible = True\<rparr>"

definition demo_obj :: obj where
  "demo_obj = \<lparr>active = True, current = Some STOP, o_queue = [PARK, EXIT], passtime = Fin 3, passdist = Fin 2,
     pos = 2, live = 3, opts = ip_opt_zero, ip_resets = 1\<rparr>"

theorem obj_velocity_bounded_witness: "fle (vel_value (fst (obj_execute demo_sens demo_ip demo_obj))) FULL_VEL"
  by (rule obj_velocity_bounded) (simp add: demo_sens_def)

theorem obj_idle_stands_witness:
  "vel_value (fst (obj_execute demo_sens demo_ip obj_create)) = Fin 0"
  using obj_idle_stands [of obj_create demo_sens demo_ip]
  by (simp add: obj_create_def obj_set_mission_def queue_create_def Let_def)


theorem obj_position_invariant_witness:
  "pos (fst (obj_run obj_create [Set_mission [''stop''] False])) = BEFORE_STOP"
  using obj_position_invariant [of "[Set_mission [''stop''] False]"]
  by (simp add: obj_create_def obj_set_mission_def queue_create_def CMDS_def Let_def)

theorem obj_stop_waits_witness:
  "current (fst (obj_run demo_obj (map (\<lambda>(sv, ip). Execute sv ip) [(demo_sens, demo_ip)]))) = Some STOP"
proof -
  have "\<not> fle PICKUP_TIME (sub64 (Fin 4) (Fin 3))" by code_simp
  then show ?thesis
    using obj_stop_waits [of demo_obj "[(demo_sens, demo_ip)]" demo_ip demo_sens]
    by (simp add: demo_obj_def demo_sens_def demo_ip_def)
qed

theorem obj_stop_ends_witness:
  "current (snd (obj_execute demo_sens demo_ip (demo_obj\<lparr>o_queue := []\<rparr>))) = None"
  using obj_stop_ends [of "demo_obj\<lparr>o_queue := []\<rparr>" demo_ip demo_sens] by (simp add: demo_obj_def demo_ip_def)


theorem obj_park_stuck_witness:
  "current (fst (obj_run (demo_obj\<lparr>current := Some PARK, pos := UNPARKING\<rparr>)
      (Execute demo_sens (demo_ip\<lparr>stopline_passed := True\<rparr>)
        # map (\<lambda>(sv, ip). Execute sv ip) [(demo_sens, demo_ip)]))) = Some PARK"
  using obj_park_stuck [of "demo_obj\<lparr>current := Some PARK, pos := UNPARKING\<rparr>" "demo_ip\<lparr>stopline_passed := True\<rparr>"
      demo_sens "[(demo_sens, demo_ip)]" demo_sens demo_ip]
  by (simp add: demo_obj_def Let_def)

theorem obj_append_forgets_position_witness:
  "vel_value (fst (obj_execute demo_sens demo_ip (snd (obj_set_mission [''exit''] True demo_obj)))) = FULL_VEL"
  using obj_append_forgets_position [of demo_obj "[''exit'']" "snd (obj_set_mission [''exit''] True demo_obj)" demo_ip demo_sens]
  by (simp add: demo_obj_def demo_ip_def obj_set_mission_def queue_create_def CMDS_def Let_def)

theorem obj_remaining_roundtrip_witness:
  "\<exists>str. obj_remaining demo_obj (replicate 15 CHR ''x'') = Some (Some str) \<and> length str = length (replicate 15 CHR ''x'')
    \<and> queue_create (words_of [] (c_string str)) = [STOP, PARK, EXIT]"
  by (rule obj_remaining_roundtrip) (simp_all add: demo_obj_def NAME_LEN_def)

end
