(* ===== verification/Cstdlib.thy ===== *)
theory Cstdlib
  imports Cfloat
begin

text \<open>
  What the server's commands use of the C library: decimal numbers as \<open>%d\<close> and \<open>%.2f\<close>
  print them, and \<open>strtof\<close>, which reads decimal and hexadecimal numbers, infinities and NaN.
  Reading rounds to the nearest \<open>float\<close>, printing rounds the exact value to the digits asked for.
\<close>

section \<open>Printing\<close>

function dec :: "int \<Rightarrow> string" where
  "dec n = (if n < 10 then [char_of (48 + n)] else dec (n div 10) @ [char_of (48 + n mod 10)])"
  by pat_completeness auto

termination
  by (relation "measure nat") auto

declare dec.simps [simp del]

definition pad :: "nat \<Rightarrow> string \<Rightarrow> string" where
  "pad p s = replicate (p - length s) (CHR ''0'') @ s"

definition fixed_digits :: "nat \<Rightarrow> int \<Rightarrow> string" where
  "fixed_digits p n = dec (n div 10 ^ p) @ ''.'' @ pad p (dec (n mod 10 ^ p))"

text \<open>\<open>%.pf\<close> for \<open>0 < p\<close>.\<close>

definition print_fixed :: "nat \<Rightarrow> fp \<Rightarrow> string" where
  "print_fixed p a =
     (case a of
        NaN \<Rightarrow> ''nan''
      | Inf s \<Rightarrow> (if s then ''-inf'' else ''inf'')
      | _ \<Rightarrow> (if is_neg a then ''-'' else []) @ fixed_digits p (roundne (\<bar>fval a\<bar> * 10 ^ p)))"

section \<open>Reading\<close>

definition is_space :: "char \<Rightarrow> bool" where
  "is_space c \<longleftrightarrow> (of_char c :: int) = 32 \<or> (9 \<le> (of_char c :: int) \<and> (of_char c :: int) \<le> 13)"

definition lower :: "char \<Rightarrow> char" where
  "lower c = (let n = of_char c :: int in if 65 \<le> n \<and> n \<le> 90 then char_of (n + 32) else c)"

definition digit :: "int \<Rightarrow> char \<Rightarrow> int option" where
  "digit base c =
     (let n = of_char (lower c) :: int
      in if 48 \<le> n \<and> n \<le> 57 then Some (n - 48)
         else if base = 16 \<and> 97 \<le> n \<and> n \<le> 102 then Some (n - 87) else None)"

text \<open>The value so far, the number of digits, and the rest.\<close>

fun digits :: "int \<Rightarrow> int \<Rightarrow> nat \<Rightarrow> string \<Rightarrow> int \<times> nat \<times> string" where
  "digits base v k [] = (v, k, [])"
| "digits base v k (c # cs) =
     (case digit base c of None \<Rightarrow> (v, k, c # cs) | Some d \<Rightarrow> digits base (base * v + d) (k + 1) cs)"

text \<open>Digits with at most one point among them, and at least one of them.\<close>

definition mantissa :: "int \<Rightarrow> string \<Rightarrow> (int \<times> nat \<times> string) option" where
  "mantissa base s =
     (let (v, k, r) = digits base 0 0 s;
          (v', f, r') = (case r of [] \<Rightarrow> (v, 0, r)
                                 | c # cs \<Rightarrow> if c = CHR ''.'' then digits base v 0 cs else (v, 0, r))
      in if k + f = 0 then None else Some (v', f, r'))"

definition sign :: "string \<Rightarrow> bool \<times> string" where
  "sign s = (case s of [] \<Rightarrow> (False, [])
     | c # cs \<Rightarrow> if c = CHR ''-'' then (True, cs) else if c = CHR ''+'' then (False, cs) else (False, s))"

definition exponent :: "char \<Rightarrow> string \<Rightarrow> int" where
  "exponent e s =
     (case s of [] \<Rightarrow> 0
      | c # cs \<Rightarrow>
          if lower c = e
          then (let (neg, r) = sign cs; (v, k, _) = digits 10 0 0 r
                in if k = 0 then 0 else if neg then - v else v)
          else 0)"

definition scale :: "int \<Rightarrow> int \<Rightarrow> int \<Rightarrow> rat" where
  "scale b e v = (if 0 \<le> e then of_int (v * b ^ nat e) else of_int v / of_int (b ^ nat (- e)))"

definition signed :: "bool \<Rightarrow> fp \<Rightarrow> fp" where
  "signed neg a = (if neg then fneg a else a)"

text \<open>\<open>strtof\<close>: the value, or \<open>None\<close> if there is no number and \<open>endptr\<close> does not move.\<close>

definition strtof :: "string \<Rightarrow> fp option" where
  "strtof s =
     (let (neg, t) = sign (dropWhile is_space s); low = List.map lower t
      in if take 3 low = ''inf'' then Some (Inf neg)
         else if take 3 low = ''nan'' then Some NaN
         else case (if take 2 low = ''0x'' then mantissa 16 (drop 2 t) else None) of
           Some (v, f, r) \<Rightarrow> Some (signed neg (f32 (scale 2 (exponent (CHR ''p'') r - 4 * int f) v)))
         | None \<Rightarrow>
             (case mantissa 10 t of
                Some (v, f, r) \<Rightarrow> Some (signed neg (f32 (scale 10 (exponent (CHR ''e'') r - int f) v)))
              | None \<Rightarrow> None))"

section \<open>Facts\<close>

lemma fp_ok_fneg [simp]: "fp_ok p em (fneg a) = fp_ok p em a"
proof -
  have r: "rnd p em x = Fin x \<longleftrightarrow> smag p em x = x \<and> \<bar>x\<bar> < pow2 (em + 1)" if "x \<noteq> 0" for x
    using that by (auto simp: rnd_def Let_def abs_less_iff)
  have "smag p em (- x) = - x \<longleftrightarrow> smag p em x = x" for x
    by (auto simp: smag_def)
  then show ?thesis
    using r by (cases a) (auto simp: fp_ok_def fneg_def split: if_splits)
qed

text \<open>What \<open>strtof\<close> returns is a \<open>float\<close>.\<close>

lemma strtof_float: "strtof s = Some a \<Longrightarrow> fp_ok 24 127 a"
  by (auto simp: strtof_def signed_def Let_def split: prod.splits option.splits if_splits)

lemma fp_ok_Fin:
  assumes "mag 24 127 v = v" "0 < v" "v < pow2 128"
  shows "fp_ok 24 127 (Fin (if s then - v else v))"
  using assms by (cases s) (simp_all add: fp_ok_def rnd_def Let_def smag_def)

lemma fp_ok_fields:
  assumes "0 \<le> M" "M < 2 ^ 24" "- 149 \<le> k" "k \<le> 104" "of_int M * pow2 k \<noteq> 0"
  shows "fp_ok 24 127 (Fin (if s then - (of_int M * pow2 k) else of_int M * pow2 k))"
proof (rule fp_ok_Fin)
  have M: "0 < M" using assms(1,5) by (auto simp: less_le)
  then show "mag 24 127 (of_int M * pow2 k) = of_int M * pow2 k"
    using assms by (intro mag_exact) simp_all
  show "0 < of_int M * pow2 k" using M by simp
  have "of_int M * pow2 k < of_int (2 ^ 24) * pow2 k"
    using assms(2) by (simp only: mult_less_cancel_right_pos pow2_pos of_int_less_iff)
  also have "\<dots> \<le> of_int (2 ^ 24) * pow2 104" using assms(4) by (intro mult_left_mono pow2_mono) simp_all
  also have "\<dots> = pow2 128" by (simp add: pow2_def)
  finally show "of_int M * pow2 k < pow2 128" .
qed

lemma of_bits32_float: "fp_ok 24 127 (of_bits32 w)"
proof -
  have key: "fp_ok 24 127 (if e = 255 then (if m = 0 then Inf s else NaN) else if v = 0 then szero s
      else Fin (if s then - v else v))"
    if "v = (if e = 0 then of_int m * pow2 (- 149) else of_int (2 ^ 23 + m) * pow2 (e - 150))"
      "0 \<le> m" "m < 2 ^ 23" "0 \<le> e" "e < 2 ^ 8" for e m :: int and s v
    using that fp_ok_fields [of m "- 149" s] fp_ok_fields [of "2 ^ 23 + m" "e - 150" s]
    by (cases "e = 0"; cases s) simp_all
  show ?thesis unfolding of_bits32_def Let_def by (rule key [OF refl]) simp_all
qed

lemma bytes_float_float [simp]: "fp_ok 24 127 (bytes_float bs)"
  by (simp add: bytes_float_def of_bits32_float)


text \<open>How long a number gets.\<close>

lemma dec_length: "10 ^ k \<le> n \<Longrightarrow> k < length (dec n)"
proof (induction k arbitrary: n)
  case 0
  then show ?case by (subst dec.simps) simp
next
  case (Suc k)
  have "10 ^ k \<le> n div 10" using Suc.prems by (simp add: zdiv_mono1 [of "10 ^ Suc k" n 10, simplified])
  then have "k < length (dec (n div 10))" by (rule Suc.IH)
  moreover have "\<not> n < 10"
  proof -
    have "(1 :: int) \<le> 10 ^ k" by simp
    with Suc.prems show ?thesis unfolding power_Suc by linarith
  qed
  ultimately show ?case by (subst dec.simps) simp
qed

lemma pad_length: "p \<le> length (pad p s)"
  by (simp add: pad_def)

lemma print_fixed_length:
  assumes "x \<le> - (10 ^ k)"
  shows "k + p + 3 \<le> length (print_fixed p (Fin x))"
proof -
  have "(0 :: rat) < 10 ^ k" by simp
  with assms have "x < 0" by linarith
  have "10 ^ k * 10 ^ p \<le> \<bar>x\<bar> * 10 ^ p" using assms \<open>x < 0\<close> by (intro mult_right_mono) simp_all
  then have "of_int (10 ^ k * 10 ^ p) \<le> \<bar>x\<bar> * 10 ^ p" by simp
  then have "10 ^ k * 10 ^ p \<le> roundne (\<bar>x\<bar> * 10 ^ p)" by (rule roundne_ge_int)
  then have "10 ^ k \<le> roundne (\<bar>x\<bar> * 10 ^ p) div 10 ^ p"
    using zdiv_mono1 [of "10 ^ k * 10 ^ p" "roundne (\<bar>x\<bar> * 10 ^ p)" "10 ^ p"] by simp
  from dec_length [OF this] show ?thesis
    using \<open>x < 0\<close> pad_length [of p "dec (roundne (\<bar>x\<bar> * 10 ^ p) mod 10 ^ p)"]
    by (simp add: print_fixed_def fixed_digits_def)
qed

section \<open>Lengths\<close>

lemma dec_length_le: "0 \<le> n \<Longrightarrow> n < 10 ^ Suc k \<Longrightarrow> length (dec n) \<le> Suc k"
proof (induction k arbitrary: n)
  case 0
  then show ?case by (subst dec.simps) simp
next
  case (Suc k)
  show ?case
  proof (cases "n < 10")
    case True
    then show ?thesis by (subst dec.simps) simp
  next
    case False
    have "n div 10 < 10 ^ Suc k" using Suc.prems by (simp add: div_less_iff_less_mult)
    moreover have "0 \<le> n div 10" using Suc.prems(1) by simp
    ultimately have "length (dec (n div 10)) \<le> Suc k" by (intro Suc.IH)
    with False show ?thesis by (subst dec.simps) simp
  qed
qed

lemma pad_le: "length s \<le> p \<Longrightarrow> length (pad p s) = p"
  by (simp add: pad_def)

lemma fixed_length_le:
  assumes "0 \<le> n" "n < 10 ^ (Suc k + p)" "0 < p"
  shows "length (fixed_digits p n) \<le> Suc k + 1 + p"
proof -
  have "n div 10 ^ p < 10 ^ Suc k"
  proof (rule ccontr)
    assume "\<not> ?thesis"
    then have "10 ^ Suc k * 10 ^ p \<le> n div 10 ^ p * 10 ^ p" by (intro mult_right_mono) simp_all
    also have "\<dots> \<le> n"
    proof -
      have "0 \<le> n mod 10 ^ p" by simp
      with div_mult_mod_eq [of n "10 ^ p"] show ?thesis by linarith
    qed
    finally show False using assms(2) by (simp add: power_add)
  qed
  with assms(1) have 1: "length (dec (n div 10 ^ p)) \<le> Suc k" by (intro dec_length_le) (simp_all add: pos_imp_zdiv_nonneg_iff)
  obtain q where q: "p = Suc q" using assms(3) by (cases p) auto
  have "n mod 10 ^ p < 10 ^ p" by simp
  then have "length (dec (n mod 10 ^ p)) \<le> p" using dec_length_le [of "n mod 10 ^ p" q] by (simp add: q)
  with 1 show ?thesis by (simp add: fixed_digits_def pad_le)
qed

lemma print_fixed_le:
  assumes "is_fin x \<Longrightarrow> \<bar>fval x\<bar> * 10 ^ p \<le> of_int m" "m < 10 ^ (Suc k + p)" "0 < p"
  shows "length (print_fixed p x) \<le> k + p + 3"
proof (cases "is_fin x")
  case True
  let ?n = "roundne (\<bar>fval x\<bar> * 10 ^ p)"
  have "?n \<le> m" using assms(1) [OF True] by (rule roundne_le_int)
  moreover have "0 \<le> ?n" using roundne_ge_int [of 0 "\<bar>fval x\<bar> * 10 ^ p"] by simp
  ultimately have "length (fixed_digits p ?n) \<le> Suc k + 1 + p"
    using assms(2,3) by (intro fixed_length_le) simp_all
  moreover have "print_fixed p x = (if is_neg x then ''-'' else []) @ fixed_digits p ?n"
    using True by (cases x) (simp_all add: print_fixed_def)
  ultimately show ?thesis by simp
next
  case False
  then show ?thesis using assms(3) by (cases x) (simp_all add: print_fixed_def)
qed

end
