(* ===== verification/Server.thy ===== *)
theory Server
  imports Cstdlib
begin

text \<open>
  The remote control server, \<^verbatim>\<open>src/comm/server.c\<close>: responses, the reception of a message,
  its parsing into a command and arguments, the execution and one round of the thread.
  C strings are lists of characters without the terminator. A result of \<open>None\<close> is undefined
  behaviour of the C code: a write outside a buffer, a null pointer used, a \<open>va_list\<close> used
  twice. What the kernel answers is an input.
\<close>

section \<open>Responses\<close>

text \<open>
  \<open>str_append_var\<close>. \<open>txt\<close> is what the format and its arguments print. If it does not fit at
  the first attempt the buffer grows and \<open>ap\<close> is used a second time, which C does not define.
\<close>

definition str_append_var :: "string \<Rightarrow> string \<Rightarrow> string option" where
  "str_append_var str txt =
     (let buf_size = 64 + 2 * length str; max_app = buf_size - length str
      in if length txt < max_app then Some (str @ txt) else None)"

definition str_create :: "string \<Rightarrow> string option" where
  "str_create txt = str_append_var [] txt"

definition str_append :: "string \<Rightarrow> string \<Rightarrow> string option" where
  "str_append str txt = str_append_var str txt"

definition set_last :: "char \<Rightarrow> string \<Rightarrow> string" where
  "set_last c str = butlast str @ [c]"

fun append_all :: "('a \<Rightarrow> string) \<Rightarrow> 'a list \<Rightarrow> string \<Rightarrow> string option" where
  "append_all f [] str = Some str"
| "append_all f (x # xs) str = Option.bind (str_append str (f x)) (append_all f xs)"

section \<open>Commands\<close>

text \<open>
  An action gets its arguments, the command's name first, and the state the \<open>data\<close> pointers
  lead to; it returns success, a response if any, and the new state.
\<close>

type_synonym 's action = "string list \<Rightarrow> 's \<Rightarrow> (bool \<times> string option \<times> 's) option"

record 's srv_cmd =
  name :: string
  min_args :: nat
  action :: "'s action"

definition sc_check :: "'s action" where
  "sc_check args s =
     Option.bind (str_create (''argc: '' @ dec (int (length args)) @ '','')) (\<lambda>rsp.
     Option.bind
       (if 0 < length args
        then Option.bind (str_append rsp '' args: '')
               (append_all (\<lambda>a. CHR 0x22 # a @ [CHR 0x22, CHR '' '']) args)
        else Some rsp) (\<lambda>rsp'.
     Some (True, Some (set_last (CHR ''.'') rsp'), s)))"

definition sc_help :: "string list \<Rightarrow> 's action" where
  "sc_help names args s =
     Option.bind (str_create ''available commands: '') (\<lambda>rsp.
     Option.bind (append_all (\<lambda>n. n @ '' '') names rsp) (\<lambda>rsp'.
     Some (True, Some (set_last (CHR ''.'') rsp'), s)))"

section \<open>Reception\<close>

text \<open>
  A call of \<open>recv\<close> with \<open>MSG_DONTWAIT\<close> finds bytes (none: the peer has closed) or would
  block. Bytes that do not fit are found by the next call.
\<close>

datatype arrival = Bytes string | Would_block

fun recv :: "arrival list \<Rightarrow> nat \<Rightarrow> int \<times> string \<times> arrival list" where
  "recv [] max_receive = (- 1, [], [])"
| "recv (Would_block # as) max_receive = (- 1, [], as)"
| "recv (Bytes bs # as) max_receive =
     (int (length (take max_receive bs)), take max_receive bs,
      if length bs \<le> max_receive then as else Bytes (drop max_receive bs) # as)"

definition MSG_BUF_SIZE :: nat where "MSG_BUF_SIZE = 2048"

fun arrival_size :: "arrival \<Rightarrow> nat" where
  "arrival_size (Bytes bs) = Suc (length bs)"
| "arrival_size Would_block = 1"

lemma recv_progress:
  "recv as m = (r, bs, as') \<Longrightarrow> r = int m \<Longrightarrow> 0 < m \<Longrightarrow>
   sum_list (map arrival_size as') < sum_list (map arrival_size as)"
  by (cases "(as, m)" rule: recv.cases) (auto split: if_splits)

text \<open>The loop of \<open>receive\<close>: the length summed up, and the bytes in the buffer.\<close>

function recv_loop :: "nat \<Rightarrow> int \<Rightarrow> string \<Rightarrow> arrival list \<Rightarrow> int \<times> string \<times> arrival list" where
  "recv_loop bufsize len buf as =
     (let bufsize' = (if int bufsize \<le> len then 2 * bufsize else bufsize);
          max_receive = nat (int bufsize' - len);
          (received, bs, as') = recv as max_receive
      in if received = int max_receive \<and> 0 < max_receive
         then recv_loop bufsize' (len + received) (buf @ bs) as'
         else (len + received, buf @ bs, as'))"
  by pat_completeness auto

termination
  by (relation "measure (\<lambda>(bufsize, len, buf, as). sum_list (map arrival_size as))")
     (auto intro: recv_progress dest: sym)

declare recv_loop.simps [simp del]

text \<open>
  \<open>receive\<close>: the message, the length reported, and what has not been read. The terminator is
  written at the index \<open>length\<close>, which a failing \<open>recv\<close> has made one too small.
\<close>

definition receive_msg :: "int \<Rightarrow> arrival list \<Rightarrow> (string option \<times> int \<times> arrival list) option" where
  "receive_msg conn_fd as =
     (let (len, buf, as') = (if 0 \<le> conn_fd then recv_loop MSG_BUF_SIZE 0 [] as else (0, [], as))
      in if len = 0 then Some (None, len, as')
         else if len < 0 then None
         else Some (Some (take (nat len) buf), len, as'))"

section \<open>Parsing\<close>

text \<open>\<open>strtok_r\<close> with one delimiter: the token, and where the next search starts.\<close>

definition strtok :: "char \<Rightarrow> string \<Rightarrow> string option \<times> string" where
  "strtok dl s =
     (let s1 = dropWhile (\<lambda>c. c = dl) s
      in if s1 = [] then (None, [])
         else (Some (takeWhile (\<lambda>c. c \<noteq> dl) s1), drop 1 (dropWhile (\<lambda>c. c \<noteq> dl) s1)))"

lemma strtok_shorter: "strtok dl s = (Some t, s') \<Longrightarrow> length s' < length s"
proof -
  assume a: "strtok dl s = (Some t, s')"
  let ?s1 = "dropWhile (\<lambda>c. c = dl) s"
  from a have ne: "?s1 \<noteq> []" and s': "s' = drop 1 (dropWhile (\<lambda>c. c \<noteq> dl) ?s1)"
    by (auto simp: strtok_def Let_def split: if_splits)
  let ?r = "dropWhile (\<lambda>c. c \<noteq> dl) ?s1"
  have "length ?r \<le> length ?s1" "length ?s1 \<le> length s" by (rule length_dropWhile_le)+
  moreover have "0 < length ?s1" using ne by simp
  ultimately show ?thesis unfolding s' length_drop by linarith
qed

definition CMD_DELIM :: char where "CMD_DELIM = CHR '':''"
definition ARG_DELIM :: char where "ARG_DELIM = CHR '',''"
definition ARG_BUF_SIZE :: nat where "ARG_BUF_SIZE = 64"

text \<open>
  The loop that collects the arguments. \<open>args\<close> are those before the index \<open>argc\<close>, \<open>cur\<close> is
  the one at it. The check whether the array is full comes before the index is advanced.
\<close>

function args_loop :: "nat \<Rightarrow> string list \<Rightarrow> string option \<Rightarrow> string \<Rightarrow> string list option" where
  "args_loop bufsize args None rest = Some args"
| "args_loop bufsize args (Some a) rest =
     (let bufsize' = (if length args = bufsize then 2 * bufsize else bufsize);
          (cur, rest') = strtok ARG_DELIM rest
      in if length args + 1 < bufsize' then args_loop bufsize' (args @ [a]) cur rest' else None)"
  by pat_completeness auto

termination
  by (relation "measure (\<lambda>(bufsize, args, cur, rest). case cur of None \<Rightarrow> 0 | Some a \<Rightarrow> Suc (length rest))")
     (auto split: option.splits prod.splits dest: strtok_shorter)

text \<open>
  \<open>parse_cmd\<close>: the command, if the name is known, and its arguments, if there are enough.
\<close>

definition parse_cmd :: "'s srv_cmd list \<Rightarrow> string \<Rightarrow> ('s srv_cmd option \<times> string list option) option" where
  "parse_cmd cmds msg =
     (let (cmd_str, rest) = strtok CMD_DELIM msg; (arg_str, rest') = strtok ARG_DELIM rest
      in case cmd_str of
           None \<Rightarrow> if cmds = [] then Some (None, None) else None
         | Some cs \<Rightarrow>
             (case List.find (\<lambda>c. name c = cs) cmds of
                None \<Rightarrow> Some (None, None)
              | Some c \<Rightarrow>
                  (case args_loop ARG_BUF_SIZE [cs] arg_str rest' of
                     None \<Rightarrow> None
                   | Some args \<Rightarrow>
                       Some (Some c, if length args - 1 < min_args c then None else Some args))))"

section \<open>Execution\<close>

definition RSP_SUCCESS_PRE :: string where "RSP_SUCCESS_PRE = ''success:''"
definition RSP_FAILURE_PRE :: string where "RSP_FAILURE_PRE = ''failure:''"
definition RSP_INVALID_ARG :: string where "RSP_INVALID_ARG = ''invalid_arg''"
definition RSP_INVALID_CMD :: string where "RSP_INVALID_CMD = ''invalid_cmd''"

text \<open>
  \<open>execute_cmd\<close>: the response, the state after the action, and how many argument arrays were
  allocated and not freed.
\<close>

definition execute_cmd :: "'s srv_cmd list \<Rightarrow> string \<Rightarrow> 's \<Rightarrow> (string \<times> 's \<times> nat) option" where
  "execute_cmd cmds msg s =
     (case parse_cmd cmds msg of
        None \<Rightarrow> None
      | Some (Some c, Some args) \<Rightarrow>
          (case action c args s of
             None \<Rightarrow> None
           | Some (success, resp, s') \<Rightarrow>
               Some ((if success then RSP_SUCCESS_PRE else RSP_FAILURE_PRE)
                       @ (case resp of None \<Rightarrow> [] | Some r \<Rightarrow> r), s', 1))
      | Some (Some c, None) \<Rightarrow> Some (RSP_FAILURE_PRE @ RSP_INVALID_ARG, s, 0)
      | Some (None, _) \<Rightarrow> Some (RSP_FAILURE_PRE @ RSP_INVALID_CMD, s, 0))"

section \<open>A round of the thread\<close>

text \<open>\<open>sent\<close> is history: what was sent to the remote, the latest first.\<close>

record 's srv =
  conn_fd :: int
  app :: 's
  leaked_args :: nat
  sent :: "string list"

text \<open>
  What the kernel answers in a round: the descriptor of a new connection or -1, what the
  connection delivers, whether the listening socket is reported readable, whether a
  heartbeat could be sent, and whether the server is to be destroyed.
\<close>

record round_input =
  accepted :: int
  arrivals :: "arrival list"
  listen_ready :: bool
  heartbeat_ok :: bool
  terminated :: bool

definition srv_round :: "'s srv_cmd list \<Rightarrow> round_input \<Rightarrow> 's srv \<Rightarrow> 's srv option" where
  "srv_round cmds i s =
     (if 0 \<le> accepted i then Some (s\<lparr>conn_fd := accepted i\<rparr>)
      else
        case receive_msg (conn_fd s) (arrivals i) of
          None \<Rightarrow> None
        | Some (msg, msglen, _) \<Rightarrow>
            (case msg of
               Some m \<Rightarrow>
                 (case execute_cmd cmds (takeWhile (\<lambda>c. c \<noteq> CHR 0x00) m) (app s) of
                    None \<Rightarrow> None
                  | Some (rsp, a, l) \<Rightarrow>
                      Some (s\<lparr>app := a, leaked_args := leaked_args s + l, sent := rsp # sent s\<rparr>))
             | None \<Rightarrow>
                 if listen_ready i then
                   (if 0 \<le> conn_fd s \<and> heartbeat_ok i then Some (s\<lparr>sent := ''heartbeat'' # sent s\<rparr>)
                    else Some (s\<lparr>conn_fd := - 1\<rparr>))
                 else Some s))"

text \<open>\<open>srv_thread\<close>, with whether it has ended; then the connection is closed.\<close>

fun srv_thread :: "'s srv_cmd list \<Rightarrow> round_input list \<Rightarrow> 's srv \<Rightarrow> ('s srv \<times> bool) option" where
  "srv_thread cmds [] s = Some (s, False)"
| "srv_thread cmds (i # is) s =
     Option.bind (srv_round cmds i s)
       (\<lambda>s'. if terminated i then Some (s'\<lparr>conn_fd := - 1\<rparr>, True) else srv_thread cmds is s')"

section \<open>Creation and destruction\<close>

text \<open>
  \<open>srv_destroy\<close>: the descriptors it closes. Joining a thread that was never started is undefined.
\<close>

definition srv_destroy :: "bool \<Rightarrow> int \<Rightarrow> int list option" where
  "srv_destroy started listen_fd =
     (if \<not> started then None else Some (if 0 \<le> listen_fd then [listen_fd] else []))"

text \<open>
  \<open>srv_create\<close>, with what \<open>socket\<close>, \<open>bind\<close> per port and \<open>listen\<close> return: the table of commands,
  the built-in ones first, and the state of the thread. A failure destroys the server and
  returns the null pointer.
\<close>

fun bind_ports :: "(nat \<Rightarrow> int) \<Rightarrow> nat list \<Rightarrow> int \<Rightarrow> int" where
  "bind_ports bnd [] succ = succ"
| "bind_ports bnd (p # ps) succ = (let succ' = bnd p in if 0 \<le> succ' then succ' else bind_ports bnd ps succ')"

definition cmds_all :: "'s srv_cmd list \<Rightarrow> 's srv_cmd list" where
  "cmds_all cmds_in =
     (let names = ''help'' # ''check'' # map name cmds_in
      in \<lparr>name = ''help'', min_args = 0, action = sc_help names\<rparr>
         # \<lparr>name = ''check'', min_args = 0, action = sc_check\<rparr> # cmds_in)"

definition srv_create ::
  "int \<Rightarrow> (nat \<Rightarrow> int) \<Rightarrow> int \<Rightarrow> nat \<Rightarrow> nat \<Rightarrow> 's srv_cmd list \<Rightarrow> 's
     \<Rightarrow> ('s srv_cmd list \<times> 's srv) option option" where
  "srv_create listen_fd bnd lst port_start port_end cmds_in a =
     (let fail = map_option (\<lambda>fds. None) (srv_destroy False listen_fd)
      in if listen_fd = - 1 then fail
         else if bind_ports bnd [port_start..<port_end + 1] 0 = - 1 then fail
         else if lst = - 1 then fail
         else Some (Some (cmds_all cmds_in, \<lparr>conn_fd = - 1, app = a, leaked_args = 0, sent = []\<rparr>)))"

section \<open>What parsing amounts to\<close>

text \<open>The nonempty pieces between delimiters.\<close>

fun pieces :: "char \<Rightarrow> string \<Rightarrow> string \<Rightarrow> string list" where
  "pieces dl w [] = (if w = [] then [] else [w])"
| "pieces dl w (c # cs) =
     (if c = dl then (if w = [] then pieces dl [] cs else w # pieces dl [] cs)
      else pieces dl (w @ [c]) cs)"

lemma pieces_word:
  "w \<noteq> [] \<Longrightarrow> pieces dl w s = (w @ takeWhile (\<lambda>c. c \<noteq> dl) s) # pieces dl [] (drop 1 (dropWhile (\<lambda>c. c \<noteq> dl) s))"
  by (induction s arbitrary: w) auto

lemma pieces_skip: "pieces dl [] (dropWhile (\<lambda>c. c = dl) s) = pieces dl [] s"
  by (induction s) auto

lemma pieces_Cons:
  "dropWhile (\<lambda>c. c = dl) s = c # cs \<Longrightarrow>
   pieces dl [] s = takeWhile (\<lambda>c. c \<noteq> dl) (c # cs) # pieces dl [] (drop 1 (dropWhile (\<lambda>c. c \<noteq> dl) (c # cs)))"
proof -
  assume c: "dropWhile (\<lambda>c. c = dl) s = c # cs"
  then have "c \<noteq> dl" by (induction s) (auto split: if_splits)
  moreover have "pieces dl [] s = pieces dl [] (c # cs)" using pieces_skip [of dl s] unfolding c by (rule sym)
  ultimately show ?thesis using pieces_word [of "[c]" dl cs] by (simp del: One_nat_def)
qed

lemma strtok_pieces:
  "strtok dl s = (cur, r) \<Longrightarrow>
   pieces dl [] s = (case cur of None \<Rightarrow> [] | Some t \<Rightarrow> t # pieces dl [] r)"
proof -
  assume a: "strtok dl s = (cur, r)"
  show ?thesis
  proof (cases "dropWhile (\<lambda>c. c = dl) s")
    case Nil
    then have "cur = None" using a unfolding strtok_def Let_def by simp
    moreover have "pieces dl [] s = []" using pieces_skip [of dl s] unfolding Nil by simp
    ultimately show ?thesis by simp
  next
    case (Cons c cs)
    then have "cur = Some (takeWhile (\<lambda>c. c \<noteq> dl) (c # cs))"
      and "r = drop 1 (dropWhile (\<lambda>c. c \<noteq> dl) (c # cs))"
      using a unfolding strtok_def Let_def Cons by (simp_all only: list.distinct if_False prod.inject)
    then show ?thesis using pieces_Cons [OF Cons] by (simp only: option.case)
  qed
qed

lemma args_loop_spec:
  assumes "0 < length args" "length args \<le> 63"
  shows "args_loop ARG_BUF_SIZE args cur rest =
    (let ts = (case cur of None \<Rightarrow> [] | Some a \<Rightarrow> a # pieces ARG_DELIM [] rest)
     in if length args + length ts \<le> 63 then Some (args @ ts) else None)"
  using assms
proof (induction ARG_BUF_SIZE args cur rest rule: args_loop.induct)
  case (2 args a rest)
  obtain cur' rest' where st: "strtok ARG_DELIM rest = (cur', rest')" by force
  have ps: "pieces ARG_DELIM [] rest = (case cur' of None \<Rightarrow> [] | Some t \<Rightarrow> t # pieces ARG_DELIM [] rest')"
    by (rule strtok_pieces [OF st])
  show ?case
  proof (cases "length args + 1 < ARG_BUF_SIZE")
    case True
    then show ?thesis
      using 2 st ps by (simp add: ARG_BUF_SIZE_def Let_def)
  next
    case False
    then show ?thesis using 2 st by (simp add: ARG_BUF_SIZE_def Let_def)
  qed
qed simp

text \<open>\<open>parse_cmd\<close> without its buffers.\<close>

definition parse_spec :: "'s srv_cmd list \<Rightarrow> string \<Rightarrow> ('s srv_cmd option \<times> string list option) option" where
  "parse_spec cmds msg =
     (let m = dropWhile (\<lambda>c. c = CMD_DELIM) msg;
          n = takeWhile (\<lambda>c. c \<noteq> CMD_DELIM) m;
          as = pieces ARG_DELIM [] (drop 1 (dropWhile (\<lambda>c. c \<noteq> CMD_DELIM) m))
      in if m = [] then (if cmds = [] then Some (None, None) else None)
         else (case List.find (\<lambda>c. name c = n) cmds of
                 None \<Rightarrow> Some (None, None)
               | Some c \<Rightarrow>
                   if 62 < length as then None
                   else Some (Some c, if length as < min_args c then None else Some (n # as))))"

lemma parse_spec_eq: "parse_cmd cmds msg = parse_spec cmds msg"
proof (cases "dropWhile (\<lambda>c. c = CMD_DELIM) msg = []")
  case True
  then show ?thesis by (simp add: parse_cmd_def parse_spec_def strtok_def split_beta)
next
  case False
  let ?m = "dropWhile (\<lambda>c. c = CMD_DELIM) msg"
  let ?rest = "drop 1 (dropWhile (\<lambda>c. c \<noteq> CMD_DELIM) ?m)" and ?n = "takeWhile (\<lambda>c. c \<noteq> CMD_DELIM) ?m"
  have tok: "strtok CMD_DELIM msg = (Some ?n, ?rest)"
    using False by (simp add: strtok_def Let_def)
  obtain cur rest where st: "strtok ARG_DELIM ?rest = (cur, rest)" by force
  have ps: "pieces ARG_DELIM [] ?rest = (case cur of None \<Rightarrow> [] | Some t \<Rightarrow> t # pieces ARG_DELIM [] rest)"
    by (rule strtok_pieces [OF st])
  have loop: "args_loop ARG_BUF_SIZE [?n] cur rest =
    (if length (pieces ARG_DELIM [] ?rest) \<le> 62 then Some (?n # pieces ARG_DELIM [] ?rest) else None)"
    using args_loop_spec [of "[?n]" cur rest] ps by (simp add: Let_def)
  show ?thesis
    using False
    by (simp add: parse_cmd_def parse_spec_def tok st loop Let_def split: option.split
        del: One_nat_def dropWhile_eq_Nil_conv)
qed

text \<open>The message a client sends for a command with arguments.\<close>

fun join_args :: "string list \<Rightarrow> string" where
  "join_args [] = []"
| "join_args [a] = a"
| "join_args (a # b # bs) = a @ ARG_DELIM # join_args (b # bs)"

lemma pieces_chars: "dl \<notin> set x \<Longrightarrow> pieces dl w (x @ y) = pieces dl (w @ x) y"
  by (induction x arbitrary: w) auto

lemma pieces_join:
  "\<forall>a \<in> set as. a \<noteq> [] \<and> ARG_DELIM \<notin> set a \<Longrightarrow> pieces ARG_DELIM [] (join_args as) = as"
proof (induction as rule: join_args.induct)
  case (2 a)
  then show ?case using pieces_chars [of ARG_DELIM a "[]" "[]"] by simp
next
  case (3 a b bs)
  then show ?case using pieces_chars [of ARG_DELIM a "[]" "ARG_DELIM # join_args (b # bs)"] by simp
qed simp

section \<open>What reception amounts to\<close>

lemma recv_loop_full:
  assumes "0 < b" "bs \<noteq> []"
  shows "recv_loop b (int b) buf [Bytes bs] =
    (int (b + length bs) - (if \<exists>k. b + length bs = b * 2 ^ Suc k then 1 else 0), buf @ bs, [])"
  using assms
proof (induction "length bs" arbitrary: b bs buf rule: less_induct)
  case less
  have unfold: "recv_loop b (int b) buf [Bytes bs] =
    (let (received, cs, as') = recv [Bytes bs] b
     in if received = int b then recv_loop (2 * b) (int b + received) (buf @ cs) as'
        else (int b + received, buf @ cs, as'))"
    using less.prems(1) by (subst recv_loop.simps) (simp add: Let_def)
  consider "length bs < b" | "length bs = b" | "b < length bs" by linarith
  then show ?case
  proof cases
    case 1
    have "\<not> (\<exists>k. b + length bs = b * 2 ^ Suc k)"
    proof
      assume "\<exists>k. b + length bs = b * 2 ^ Suc k"
      then obtain k where "b + length bs = b * (2 * 2 ^ k)" by auto
      moreover have "b * (2 * 1) \<le> b * (2 * 2 ^ k)" by (intro mult_le_mono) simp_all
      ultimately show False using 1 by simp
    qed
    with 1 unfold show ?thesis by simp
  next
    case 2
    have e: "\<exists>k. b + length bs = b * 2 ^ Suc k" using 2 by (intro exI [of _ 0]) simp
    have "recv_loop (2 * b) (int b + int b) (buf @ bs) [] = (int b + int b - 1, buf @ bs, [])"
      by (subst recv_loop.simps) (simp add: Let_def)
    with 2 unfold e show ?thesis by simp
  next
    case 3
    have iff: "(\<exists>k. b + length bs = 2 * b * 2 ^ Suc k) \<longleftrightarrow> (\<exists>k. b + length bs = b * 2 ^ Suc k)"
    proof
      assume "\<exists>k. b + length bs = b * 2 ^ Suc k"
      then obtain k where k: "b + length bs = b * 2 ^ Suc k" by blast
      with 3 have "k \<noteq> 0" by (intro notI) simp
      then obtain j where "k = Suc j" by (cases k) auto
      with k show "\<exists>k. b + length bs = 2 * b * 2 ^ Suc k" by (intro exI [of _ j]) simp
    qed (auto intro: exI [of _ "Suc _"])
    have "recv_loop (2 * b) (int (2 * b)) (buf @ take b bs) [Bytes (drop b bs)] =
      (int (2 * b + length (drop b bs)) - (if \<exists>k. 2 * b + length (drop b bs) = 2 * b * 2 ^ Suc k then 1 else 0),
       (buf @ take b bs) @ drop b bs, [])"
      using less.hyps [of "drop b bs" "2 * b" "buf @ take b bs"] less.prems 3 by simp
    moreover have "2 * b + length (drop b bs) = b + length bs" using 3 by simp
    ultimately show ?thesis using unfold 3 iff by simp
  qed
qed

lemma recv_single:
  assumes "bs \<noteq> []"
  shows "recv_loop MSG_BUF_SIZE 0 [] [Bytes bs] =
    (int (length bs) - (if \<exists>k. length bs = MSG_BUF_SIZE * 2 ^ k then 1 else 0), bs, [])"
proof -
  let ?b = "MSG_BUF_SIZE"
  have b: "0 < ?b" by (simp add: MSG_BUF_SIZE_def)
  have unfold: "recv_loop ?b 0 [] [Bytes bs] =
    (let (received, cs, as') = recv [Bytes bs] ?b
     in if received = int ?b then recv_loop ?b received cs as' else (received, cs, as'))"
    using b by (subst recv_loop.simps) (simp add: Let_def)
  consider "length bs < ?b" | "length bs = ?b" | "?b < length bs" by linarith
  then show ?thesis
  proof cases
    case 1
    have "?b \<le> ?b * 2 ^ k" for k by simp
    with 1 have "\<not> (\<exists>k. length bs = ?b * 2 ^ k)" by (metis not_less)
    with 1 unfold show ?thesis by simp
  next
    case 2
    have e: "\<exists>k. length bs = ?b * 2 ^ k" using 2 by (intro exI [of _ 0]) simp
    have "recv_loop ?b (int ?b) bs [] = (int ?b - 1, bs, [])"
      using b by (subst recv_loop.simps) (simp add: Let_def)
    with 2 unfold e show ?thesis by simp
  next
    case 3
    have iff: "(\<exists>k. length bs = ?b * 2 ^ Suc k) \<longleftrightarrow> (\<exists>k. length bs = ?b * 2 ^ k)"
    proof
      assume "\<exists>k. length bs = ?b * 2 ^ k"
      then obtain k where k: "length bs = ?b * 2 ^ k" by blast
      with 3 have "k \<noteq> 0" by (intro notI) simp
      with k show "\<exists>k. length bs = ?b * 2 ^ Suc k" by (cases k) blast+
    qed blast
    with 3 unfold recv_loop_full [OF b, of "drop ?b bs" "take ?b bs"] show ?thesis by simp
  qed
qed

section \<open>Properties\<close>

lemma parse_message:
  assumes "n \<noteq> []" "CMD_DELIM \<notin> set n" "\<forall>a \<in> set as. a \<noteq> [] \<and> ARG_DELIM \<notin> set a"
    "List.find (\<lambda>c. name c = n) cmds = Some c"
  shows "parse_cmd cmds (n @ CMD_DELIM # join_args as) =
    (if 62 < length as then None
     else Some (Some c, if length as < min_args c then None else Some (n # as)))"
proof -
  let ?m = "n @ CMD_DELIM # join_args as"
  obtain x xs where n: "n = x # xs" using assms(1) by (cases n) auto
  then have m: "dropWhile (\<lambda>c. c = CMD_DELIM) ?m = ?m" using assms(2) by auto
  have t: "takeWhile (\<lambda>c. c \<noteq> CMD_DELIM) ?m = n"
    and d: "dropWhile (\<lambda>c. c \<noteq> CMD_DELIM) ?m = CMD_DELIM # join_args as"
    using assms(2) by (induction n) auto
  have "?m \<noteq> []" by simp
  then show ?thesis
    unfolding parse_spec_eq parse_spec_def Let_def m t d assms(4)
    using pieces_join [OF assms(3)] by (simp add: n)
qed

text \<open>C11. The parser is a specification without buffers. The name is the first nonempty piece
  before a colon, the arguments are the nonempty pieces between commas after it; an unknown name
  gives no command, too few arguments no arguments, and the undefined cases are exactly
  a message of colons only, and more than 62 arguments to a known command.\<close>

theorem parse_cmd_is_spec: "parse_cmd cmds msg = parse_spec cmds msg"
  by (rule parse_spec_eq)

text \<open>C13. What a client joins with the two delimiters, the server takes apart again: command and
  arguments arrive as they were sent, for up to 62 arguments and at least the required number.\<close>

theorem parse_roundtrip:
  assumes "List.find (\<lambda>c. name c = n) cmds = Some c"
    and "n \<noteq> []" "CMD_DELIM \<notin> set n" "\<forall>a \<in> set as. a \<noteq> [] \<and> ARG_DELIM \<notin> set a"
    and "min_args c \<le> length as" "length as \<le> 62"
  shows "parse_cmd cmds (n @ CMD_DELIM # join_args as) = Some (Some c, Some (n # as))"
  using parse_message [OF assms(2-4,1)] assms(5,6) by simp

definition demo_cmd :: "nat srv_cmd" where
  "demo_cmd = \<lparr>name = ''go'', min_args = 1, action = (\<lambda>args s. Some (True, None, s + length args))\<rparr>"

theorem parse_roundtrip_witness:
  "parse_cmd [demo_cmd] ''go:left,right'' = Some (Some demo_cmd, Some [''go'', ''left'', ''right''])"
  using parse_roundtrip [of "''go''" "[demo_cmd]" demo_cmd "[''left'', ''right'']"]
  by (simp add: demo_cmd_def CMD_DELIM_def ARG_DELIM_def)

text \<open>A command with 63 arguments or more writes behind the array of arguments, since the
  check whether the array is full precedes the increment of the index: the bound of the buffer
  is never used to enlarge it.\<close>

theorem parse_overflows:
  assumes "List.find (\<lambda>c. name c = n) cmds = Some c"
    and "n \<noteq> []" "CMD_DELIM \<notin> set n" "\<forall>a \<in> set as. a \<noteq> [] \<and> ARG_DELIM \<notin> set a"
    and "63 \<le> length as"
  shows "execute_cmd cmds (n @ CMD_DELIM # join_args as) s = None"
  using parse_message [OF assms(2-4,1)] assms(5) by (simp add: execute_cmd_def)

theorem parse_overflows_witness:
  "execute_cmd [demo_cmd] (''go:'' @ join_args (replicate 63 ''x'')) 0 = None"
  using parse_overflows [of "''go''" "[demo_cmd]" demo_cmd "replicate 63 ''x''" 0]
  by (simp add: demo_cmd_def CMD_DELIM_def ARG_DELIM_def)

lemma execute_cases:
  assumes "execute_cmd cmds msg s = Some (rsp, s', l)"
  shows "(l = 0 \<and> s' = s \<and> rsp \<in> {''failure:invalid_cmd'', ''failure:invalid_arg''}) \<or>
    (l = 1 \<and> (\<exists>c args ok resp. c \<in> set cmds \<and> name c = hd args \<and> min_args c < length args
       \<and> action c args s = Some (ok, resp, s')
       \<and> rsp = (if ok then ''success:'' else ''failure:'') @ (case resp of None \<Rightarrow> [] | Some r \<Rightarrow> r)))"
proof -
  obtain pc where pc: "parse_spec cmds msg = Some pc"
    using assms by (auto simp: execute_cmd_def parse_spec_eq split: option.splits)
  obtain co ao where p: "pc = (co, ao)" by force
  consider "co = None" | c where "co = Some c" "ao = None" | c args where "co = Some c" "ao = Some args"
    by (cases co; cases ao) auto
  then show ?thesis
  proof cases
    case 1
    then show ?thesis using assms pc p
      by (simp add: execute_cmd_def parse_spec_eq RSP_FAILURE_PRE_def RSP_INVALID_CMD_def)
  next
    case 2
    then show ?thesis using assms pc p
      by (simp add: execute_cmd_def parse_spec_eq RSP_FAILURE_PRE_def RSP_INVALID_ARG_def)
  next
    case (3 c args)
    have c: "c \<in> set cmds" "name c = hd args" "min_args c < length args"
      using pc unfolding p 3 parse_spec_def Let_def
      by (auto simp: find_Some_iff split: if_splits option.splits)
    obtain ok resp s2 where act: "action c args s = Some (ok, resp, s2)"
      using assms pc p 3 by (cases "action c args s") (auto simp: execute_cmd_def parse_spec_eq)
    have "rsp = (if ok then ''success:'' else ''failure:'') @ (case resp of None \<Rightarrow> [] | Some r \<Rightarrow> r)"
      "s2 = s'" "l = 1"
      using assms pc p 3 act
      by (auto simp: execute_cmd_def parse_spec_eq RSP_FAILURE_PRE_def RSP_SUCCESS_PRE_def)
    with c act show ?thesis by blast
  qed
qed

text \<open>A defined execution answers with exactly one of the two prefixes; a refused
  message changes no state and leaks nothing, and an executed one leaks its argument array.\<close>

theorem execute_answers:
  assumes "execute_cmd cmds msg s = Some (rsp, s', l)"
  shows "(l = 0 \<and> s' = s \<and> rsp \<in> {''failure:invalid_cmd'', ''failure:invalid_arg''}) \<or>
    (l = 1 \<and> (\<exists>c args ok resp. c \<in> set cmds \<and> name c = hd args \<and> min_args c < length args
       \<and> action c args s = Some (ok, resp, s')
       \<and> rsp = (if ok then ''success:'' else ''failure:'') @ (case resp of None \<Rightarrow> [] | Some r \<Rightarrow> r)))"
  by (rule execute_cases [OF assms])

theorem execute_answers_witness: "snd (the (execute_cmd [demo_cmd] ''go:x'' 5)) = (7, 1)"
proof -
  have e: "execute_cmd [demo_cmd] ''go:x'' 5 = Some (''success:'', 7, 1)"
    by (simp add: execute_cmd_def parse_spec_eq parse_spec_def demo_cmd_def CMD_DELIM_def ARG_DELIM_def
        RSP_SUCCESS_PRE_def Let_def)
  show ?thesis using execute_answers [OF e] e by simp
qed

text \<open>A message that arrives in one piece is received whole, whatever its size, unless the
  buffer is exactly full after a call: then one more call fails, its \<open>-1\<close> is added to the
  length and the last byte is lost.\<close>

theorem receive_one_message:
  assumes "0 \<le> fd" "2 \<le> length bs"
  shows "receive_msg fd [Bytes bs] =
    (if \<exists>k. length bs = 2048 * 2 ^ k then Some (Some (butlast bs), int (length bs) - 1, [])
     else Some (Some bs, int (length bs), []))"
proof -
  have "bs \<noteq> []" using assms(2) by (cases bs) simp_all
  note single = recv_single [OF this, unfolded MSG_BUF_SIZE_def]
  show ?thesis
  proof (cases "\<exists>k. length bs = 2048 * 2 ^ k")
    case True
    then have "recv_loop MSG_BUF_SIZE 0 [] [Bytes bs] = (int (length bs) - 1, bs, [])"
      using single by (simp only: MSG_BUF_SIZE_def if_True)
    moreover have "nat (int (length bs) - 1) = length bs - 1" using assms(2) by simp
    moreover have "int (length bs) - 1 \<noteq> 0" "\<not> int (length bs) - 1 < 0" using assms(2) by linarith+
    ultimately show ?thesis using True assms(1)
      by (simp only: receive_msg_def if_True if_False Let_def prod.case butlast_conv_take)
  next
    case False
    then have "recv_loop MSG_BUF_SIZE 0 [] [Bytes bs] = (int (length bs), bs, [])"
      using single by (simp only: MSG_BUF_SIZE_def if_False) simp
    then show ?thesis using False assms \<open>bs \<noteq> []\<close> by (simp add: receive_msg_def)
  qed
qed

theorem receive_one_message_witness:
  "receive_msg 4 [Bytes ''help''] = Some (Some ''help'', 4, [])"
proof -
  have l: "length ''help'' = 4" by simp
  have "length ''help'' \<noteq> 2048 * 2 ^ k" for k
    using one_le_power [of "2 :: nat" k] unfolding l by linarith
  then have "\<not> (\<exists>k. length ''help'' = 2048 * 2 ^ k)" by blast
  then show ?thesis using receive_one_message [of 4 "''help''"] by (simp only: if_False) simp
qed

text \<open>A connection with nothing to read makes the server write the terminator in front
  of its buffer: the failing \<open>recv\<close> gives the length \<open>-1\<close>.\<close>

theorem idle_round_undefined:
  assumes "0 \<le> conn_fd s" "accepted i < 0" "arrivals i = []"
  shows "srv_round cmds i s = None"
proof -
  have "recv_loop MSG_BUF_SIZE 0 [] [] = (- 1, [], [])"
    by (subst recv_loop.simps) (simp add: MSG_BUF_SIZE_def)
  then show ?thesis using assms by (simp add: srv_round_def receive_msg_def)
qed

theorem idle_round_undefined_witness:
  "srv_round [demo_cmd] \<lparr>accepted = - 1, arrivals = [], listen_ready = False, heartbeat_ok = True,
       terminated = False\<rparr>
     \<lparr>conn_fd = 5, app = 0, leaked_args = 0, sent = []\<rparr> = None"
  by (rule idle_round_undefined) simp_all

text \<open>A closed connection is not noticed: \<open>recv\<close> returns 0, the round changes nothing, and
  the descriptor is kept for good unless the listening socket is reported readable.\<close>

theorem closed_connection_kept:
  assumes "\<forall>i \<in> set is. accepted i < 0 \<and> arrivals i = [Bytes []] \<and> \<not> listen_ready i
      \<and> \<not> terminated i"
  shows "srv_thread cmds is s = Some (s, False)"
  using assms
proof (induction "is")
  case (Cons i "is")
  have "recv_loop MSG_BUF_SIZE 0 [] [Bytes []] = (0, [], [])"
    by (subst recv_loop.simps) (simp add: MSG_BUF_SIZE_def)
  then have "srv_round cmds i s = Some s" using Cons.prems by (simp add: srv_round_def receive_msg_def)
  then show ?case using Cons by simp
qed simp

theorem closed_connection_kept_witness:
  "srv_thread [demo_cmd] (replicate 3 \<lparr>accepted = - 1, arrivals = [Bytes []], listen_ready = False,
       heartbeat_ok = False, terminated = False\<rparr>) \<lparr>conn_fd = 5, app = 0, leaked_args = 0, sent = []\<rparr>
     = Some (\<lparr>conn_fd = 5, app = 0, leaked_args = 0, sent = []\<rparr>, False)"
  by (rule closed_connection_kept) simp

text \<open>The built-in \<open>check\<close> returns its argument in quotes, as long as it has less than 84
  characters; with more, the response does not fit its buffer and the argument list of the
  formatting is used twice.\<close>

theorem check_echoes:
  assumes "a \<noteq> []" "CHR '','' \<notin> set a"
  shows "execute_cmd (cmds_all cmds) (''check:'' @ a) s =
    (if length a < 84 then Some (''success:argc: 2, args: '' @ [CHR 0x22] @ ''check'' @ [CHR 0x22, CHR '' '', CHR 0x22]
       @ a @ [CHR 0x22, CHR ''.''], s, 1)
     else None)"
proof -
  let ?c = "\<lparr>name = ''check'', min_args = 0, action = sc_check\<rparr>"
  have find: "List.find (\<lambda>c. name c = ''check'') (cmds_all cmds) = Some ?c"
    by (simp add: cmds_all_def)
  have parse: "parse_cmd (cmds_all cmds) (''check:'' @ a) = Some (Some ?c, Some [''check'', a])"
    using parse_message [OF _ _ _ find, of "[a]"] assms by (simp add: CMD_DELIM_def ARG_DELIM_def)
  have "dec 2 = ''2''" by code_simp
  then have "sc_check [''check'', a] s = (if length a < 84 then Some (True, Some (''argc: 2, args: '' @ [CHR 0x22]
      @ ''check'' @ [CHR 0x22, CHR '' '', CHR 0x22] @ a @ [CHR 0x22, CHR ''.'']), s) else None)"
    by (simp add: sc_check_def str_create_def str_append_def str_append_var_def set_last_def butlast_append)
  then show ?thesis unfolding execute_cmd_def parse by (simp add: RSP_SUCCESS_PRE_def)
qed

theorem check_echoes_witness:
  "execute_cmd (cmds_all [demo_cmd]) ''check:hi'' 3 = Some (''success:argc: 2, args: '' @ [CHR 0x22] @ ''check''
     @ [CHR 0x22, CHR '' '', CHR 0x22] @ ''hi'' @ [CHR 0x22, CHR ''.''], 3, 1)"
  using check_echoes [of "''hi''" "[demo_cmd]" 3] by simp

text \<open>A server that cannot be created is not reported as such: when the socket, every port or
  the listening fails, the clean-up joins the thread that was never started.\<close>

theorem srv_create_failure_undefined:
  assumes "listen_fd = - 1 \<or> lst = - 1 \<or> bind_ports bnd [p0..<p1 + 1] 0 = - 1"
  shows "srv_create listen_fd bnd lst p0 p1 cmds a = None"
  using assms by (auto simp: srv_create_def srv_destroy_def)

theorem srv_create_failure_undefined_witness: "srv_create (- 1) (\<lambda>p. 0) 0 9000 9100 [demo_cmd] 0 = None"
  by (rule srv_create_failure_undefined) simp

end
