(* ===== verification/Main_Loop.thy ===== *)
theory Main_Loop
  imports Server Bus Sens Objective Ctrl
begin

text \<open>
  The communication module's main program, \<^verbatim>\<open>src/comm/main.c\<close>: the data the threads share,
  the commands the server offers, the handler of received sensor data, and the main loop. Every
  critical section and every call of \<open>bus_schedule\<close> is one step; messages to the server and
  sensor data arrive between any two of them.
\<close>

section \<open>The shared data\<close>

record data_sensors =
  sd_val :: sens_val
  sd_ip :: ip_res
  sd_vel :: fp
  sd_rot :: fp

record data_rc =
  rc_vel :: fp
  rc_rot :: fp

text \<open>
  Where the main thread is in an iteration, with its locals: before the test of \<open>quit\<close>, with
  the sensor values it copied, with the control values it determined.
\<close>

datatype mpc =
    M_Head
  | M_Get sens_val
  | M_Choose sens_val
  | M_Execute sens_val
  | M_Ip sens_val ctrl_val ip_res
  | M_Rc sens_val
  | M_Store sens_val ctrl_val
  | M_Vel ctrl_val
  | M_Rot ctrl_val
  | M_Reset bool
  | M_Exit

text \<open>
  \<open>scheduled\<close> is history: the calls of \<open>bus_schedule\<close>, the latest first, with the message and
  whether \<open>bsh_sens_recv\<close> is the handler.
\<close>

type_synonym request = "bc_ptr \<times> u8 list option \<times> bool"

record app =
  sens_data :: data_sensors
  rc_data :: data_rc
  mission :: obj
  quit_flag :: bool
  ts_start :: "int \<times> int"
  mpc :: mpc
  scheduled :: "request list"

definition schedule :: "bc_ptr \<Rightarrow> u8 list option \<Rightarrow> bool \<Rightarrow> app \<Rightarrow> app" where
  "schedule b msg hnd a = a\<lparr>scheduled := (b, msg, hnd) # scheduled a\<rparr>"

section \<open>The server's commands\<close>

definition sc_get_sens :: "app action" where
  "sc_get_sens args a =
     (let d = sens_data a; p = print_fixed 2
      in map_option (\<lambda>rsp. (True, Some rsp, a))
           (str_create
             (p (s_dist_front (sd_val d)) @ '' '' @ p (s_dist_right (sd_val d)) @ '' '' @
              p (s_velocity (sd_val d)) @ '' '' @ p (s_distance (sd_val d)) @ '' '' @
              p (lane_offset (sd_ip d)) @ '' '' @ p (sd_vel d) @ '' '' @ p (sd_rot d))))"

text \<open>The memory \<open>malloc\<close> returns for a size is an argument; a null pointer is no response.\<close>

definition sc_get_mission :: "(nat \<Rightarrow> string) \<Rightarrow> app action" where
  "sc_get_mission heap args a =
     (let count = length ((case current (mission a) of None \<Rightarrow> [] | Some c \<Rightarrow> [c]) @ o_queue (mission a))
      in map_option (\<lambda>rsp. (True, map_option c_string rsp, a))
           (obj_remaining (mission a) (heap (count * NAME_LEN))))"

definition sc_set_mission :: "app action" where
  "sc_set_mission args a =
     (let (success, ob) = obj_set_mission (tl args) False (mission a)
      in map_option (\<lambda>rsp. (success, Some rsp, a\<lparr>mission := ob\<rparr>))
           (str_create (if success then ''mission set'' else ''invalid mission'')))"

definition sc_append_mission :: "app action" where
  "sc_append_mission args a =
     (let (success, ob) = obj_set_mission (tl args) True (mission a)
      in map_option (\<lambda>rsp. (success, Some rsp, a\<lparr>mission := ob\<rparr>))
           (str_create (if success then ''mission appended'' else ''invalid mission'')))"

definition sc_set_auto :: "app action" where
  "sc_set_auto args a =
     (case args of
        _ # (c # _) # _ \<Rightarrow>
          (let state = (c = CHR ''T'')
           in map_option (\<lambda>rsp. (True, Some rsp, a\<lparr>mission := obj_set_state state (mission a)\<rparr>))
                (str_create (''setting '' @ (if state then ''auto'' else ''manual'') @ '' mode'')))
      | _ \<Rightarrow> None)"

definition sc_shutdown :: "app action" where
  "sc_shutdown args a =
     map_option (\<lambda>rsp. (True, Some rsp, a\<lparr>quit_flag := True\<rparr>)) (str_create ''shutting down'')"

definition sc_set_float :: "(fp \<Rightarrow> app \<Rightarrow> app) \<Rightarrow> app action" where
  "sc_set_float dst args a =
     (case args of
        _ # float_str # _ \<Rightarrow>
          (case strtof float_str of
             Some val \<Rightarrow>
               map_option (\<lambda>rsp. (True, Some rsp, dst val a))
                 (str_create (''setting value to '' @ print_fixed 6 val))
           | None \<Rightarrow>
               map_option (\<lambda>rsp. (False, Some rsp, a))
                 (str_create (''invalid argument -- '' @ [CHR 0x22] @ float_str @ [CHR 0x22])))
      | _ \<Rightarrow> None)"

definition sc_bus_send_float :: "bc_ptr \<Rightarrow> app action" where
  "sc_bus_send_float b args a =
     (case args of
        _ # float_str # _ \<Rightarrow>
          (case strtof float_str of
             Some val \<Rightarrow>
               map_option (\<lambda>rsp. (True, Some rsp, schedule b (Some (float_bytes val)) False a))
                 (str_create (''sending value '' @ print_fixed 6 val))
           | None \<Rightarrow>
               map_option (\<lambda>rsp. (False, Some rsp, a))
                 (str_create (''invalid arg -- '' @ [CHR 0x22] @ float_str @ [CHR 0x22])))
      | _ \<Rightarrow> None)"

definition set_rc_vel :: "fp \<Rightarrow> app \<Rightarrow> app" where
  "set_rc_vel val a = a\<lparr>rc_data := (rc_data a)\<lparr>rc_vel := val\<rparr>\<rparr>"

definition set_rc_rot :: "fp \<Rightarrow> app \<Rightarrow> app" where
  "set_rc_rot val a = a\<lparr>rc_data := (rc_data a)\<lparr>rc_rot := val\<rparr>\<rparr>"

definition cmds :: "(nat \<Rightarrow> string) \<Rightarrow> app srv_cmd list" where
  "cmds heap =
     [\<lparr>name = ''get_sensor'', min_args = 0, action = sc_get_sens\<rparr>,
      \<lparr>name = ''get_miss'', min_args = 0, action = sc_get_mission heap\<rparr>,
      \<lparr>name = ''set_miss'', min_args = 0, action = sc_set_mission\<rparr>,
      \<lparr>name = ''app_miss'', min_args = 0, action = sc_append_mission\<rparr>,
      \<lparr>name = ''set_auto'', min_args = 1, action = sc_set_auto\<rparr>,
      \<lparr>name = ''shutdown'', min_args = 0, action = sc_shutdown\<rparr>,
      \<lparr>name = ''set_vel'', min_args = 1, action = sc_set_float set_rc_vel\<rparr>,
      \<lparr>name = ''set_rot'', min_args = 1, action = sc_set_float set_rc_rot\<rparr>,
      \<lparr>name = ''set_vel_kp'', min_args = 1, action = sc_bus_send_float (BCCS_at BBC_VEL_KP)\<rparr>,
      \<lparr>name = ''set_vel_kd'', min_args = 1, action = sc_bus_send_float (BCCS_at BBC_VEL_KD)\<rparr>,
      \<lparr>name = ''set_rot_kp'', min_args = 1, action = sc_bus_send_float (BCCS_at BBC_ROT_KP)\<rparr>,
      \<lparr>name = ''set_rot_kd'', min_args = 1, action = sc_bus_send_float (BCCS_at BBC_ROT_KD)\<rparr>]"

section \<open>Received sensor data\<close>

definition time_since :: "int \<times> int \<Rightarrow> int \<times> int \<Rightarrow> fp" where
  "time_since start now =
     add64 (f64 (of_int (fst now - fst start)))
       (div64 (f64 (of_int (snd now - snd start))) (f64 1000000000))"

definition bsh_sens_recv :: "int \<times> int \<Rightarrow> u8 list \<Rightarrow> app \<Rightarrow> app" where
  "bsh_sens_recv now bytes a =
     (let sd = bytes_sens bytes;
          sens_new = \<lparr>s_dist_front = dist_front sd, s_dist_right = dist_right sd, s_distance = distance sd,
                      s_velocity = velocity sd, s_time = time_since (ts_start a) now\<rparr>
      in a\<lparr>sens_data := (sens_data a)\<lparr>sd_val := sens_new\<rparr>\<rparr>)"

section \<open>The main loop\<close>

definition sens_zero :: sens_val where
  "sens_zero = \<lparr>s_dist_front = Fin 0, s_dist_right = Fin 0, s_distance = Fin 0, s_velocity = Fin 0, s_time = Fin 0\<rparr>"

definition ip_res_zero :: ip_res where
  "ip_res_zero = \<lparr>lane_offset = Fin 0, stopline_dist = Fin 0, stopline_visible = False, stopline_passed = False,
     lane_right_visible = False, lane_left_visible = False\<rparr>"

text \<open>What happens before the loop: the state and the first two orders.\<close>

definition main_init :: "int \<times> int \<Rightarrow> app" where
  "main_init now =
     schedule (BCCS_at BBC_RST) None False (schedule (BCSS_at BBS_RST) None False
       \<lparr>sens_data = \<lparr>sd_val = sens_zero, sd_ip = ip_res_zero, sd_vel = Fin 0, sd_rot = Fin 0\<rparr>,
        rc_data = \<lparr>rc_vel = Fin 0, rc_rot = Fin 0\<rparr>, mission = obj_create, quit_flag = False,
        ts_start = now, mpc = M_Head, scheduled = []\<rparr>)"

text \<open>
  \<open>main\<close> until the loop: whether an address is given, whether the camera opens, and what
  \<open>srv_create\<close> did. Without an address there is no bus when the clean-up destroys it.
\<close>

definition main_fail :: "bool \<Rightarrow> app option option" where
  "main_fail has_bus = (if has_bus then Some None else None)"

definition main_start :: "bool \<Rightarrow> bool \<Rightarrow> bool option \<Rightarrow> int \<times> int \<Rightarrow> app option option" where
  "main_start has_addr has_camera srv now =
     (if \<not> has_addr then main_fail False
      else if \<not> has_camera then main_fail True
      else case srv of
        None \<Rightarrow> None
      | Some created \<Rightarrow> if created then Some (Some (main_init now)) else main_fail True)"

definition brake :: "sens_val \<Rightarrow> ctrl_val \<Rightarrow> ctrl_val" where
  "brake sv ctrl =
     (if flt (s_dist_front sv) (dbl (7 / 10)) \<and> flt (Fin 0) (vel_value ctrl)
      then ctrl\<lparr>vel_value := fneg (s_velocity sv)\<rparr> else ctrl)"

text \<open>A step of the main thread; \<open>ip\<close> is what the image processing returns if it is called.\<close>

definition main_step :: "ip_res \<Rightarrow> app \<Rightarrow> app" where
  "main_step ip a =
     (case mpc a of
        M_Head \<Rightarrow> a\<lparr>mpc := (if quit_flag a then M_Reset False else M_Get (sd_val (sens_data a)))\<rparr>
      | M_Get sv \<Rightarrow> (schedule (BCSS_at BBS_GET) None True a)\<lparr>mpc := M_Choose sv\<rparr>
      | M_Choose sv \<Rightarrow> a\<lparr>mpc := (if obj_active (mission a) then M_Execute sv else M_Rc sv)\<rparr>
      | M_Execute sv \<Rightarrow>
          (let (ctrl, ob) = obj_execute sv ip (mission a) in a\<lparr>mission := ob, mpc := M_Ip sv ctrl ip\<rparr>)
      | M_Ip sv ctrl res \<Rightarrow> a\<lparr>sens_data := (sens_data a)\<lparr>sd_ip := res\<rparr>, mpc := M_Store sv ctrl\<rparr>
      | M_Rc sv \<Rightarrow>
          a\<lparr>mpc := M_Store sv (ctrl_zero_val\<lparr>vel_value := rc_vel (rc_data a), rot_value := rc_rot (rc_data a),
              vel_regulate := of_bool_f False, rot_regulate := of_bool_f False\<rparr>)\<rparr>
      | M_Store sv ctrl0 \<Rightarrow>
          (let ctrl = brake sv ctrl0
           in a\<lparr>sens_data := (sens_data a)\<lparr>sd_vel := vel_value ctrl, sd_rot := rot_value ctrl\<rparr>, mpc := M_Vel ctrl\<rparr>)
      | M_Vel ctrl \<Rightarrow> (schedule (BCCS_at BBC_VEL_VAL) (Some (float_bytes (vel_value ctrl))) False a)\<lparr>mpc := M_Rot ctrl\<rparr>
      | M_Rot ctrl \<Rightarrow>
          (schedule (BCCS_at (if f_true (rot_regulate ctrl) then BBC_ROT_ERR else BBC_ROT_VAL))
             (Some (float_bytes (rot_value ctrl))) False a)\<lparr>mpc := M_Head\<rparr>
      | M_Reset done \<Rightarrow>
          (if done then (schedule (BCCS_at BBC_RST) None False a)\<lparr>mpc := M_Exit\<rparr>
           else (schedule (BCSS_at BBS_RST) None False a)\<lparr>mpc := M_Reset True\<rparr>)
      | M_Exit \<Rightarrow> a)"

section \<open>Runs\<close>

datatype app_event =
    Main ip_res
  | Message string
  | Received "int \<times> int" "u8 list"

fun app_step :: "(nat \<Rightarrow> string) \<Rightarrow> app_event \<Rightarrow> app \<Rightarrow> app option" where
  "app_step heap (Main ip) a = Some (main_step ip a)"
| "app_step heap (Message msg) a = map_option (\<lambda>(rsp, a', l). a') (execute_cmd (cmds_all (cmds heap)) msg a)"
| "app_step heap (Received now bytes) a = Some (bsh_sens_recv now bytes a)"

inductive app_steps :: "(nat \<Rightarrow> string) \<Rightarrow> app \<Rightarrow> app_event list \<Rightarrow> app \<Rightarrow> bool" for heap where
  none: "app_steps heap a [] a"
| more: "app_steps heap a es b \<Longrightarrow> app_step heap e b = Some c \<Longrightarrow> app_steps heap a (es @ [e]) c"

inductive_cases app_steps_noneE: "app_steps heap a [] b"
inductive_cases app_steps_moreE: "app_steps heap a (es @ [e]) b"

section \<open>What every step keeps\<close>

text \<open>
  The numbers that are sent are \<open>float\<close> values, and every request is one the bus accepts:
  a command of the tables, with as many bytes as it writes, and the handler for the sensor
  values only.
\<close>

definition req_ok :: "request \<Rightarrow> bool" where
  "req_ok r =
     (case r of (b, msg, hnd) \<Rightarrow>
        bc_ok b \<and> (case msg of None \<Rightarrow> \<not> write (bc b) | Some bs \<Rightarrow> write (bc b) \<and> length bs = len (bc b))
        \<and> (hnd \<longrightarrow> b = BCSS_at BBS_GET))"

fun mpc_ok :: "mpc \<Rightarrow> bool" where
  "mpc_ok (M_Get sv) = fp_ok 24 127 (s_velocity sv)"
| "mpc_ok (M_Choose sv) = fp_ok 24 127 (s_velocity sv)"
| "mpc_ok (M_Execute sv) = fp_ok 24 127 (s_velocity sv)"
| "mpc_ok (M_Ip sv c ip) = (fp_ok 24 127 (s_velocity sv) \<and> fp_ok 24 127 (vel_value c))"
| "mpc_ok (M_Rc sv) = fp_ok 24 127 (s_velocity sv)"
| "mpc_ok (M_Store sv c) = (fp_ok 24 127 (s_velocity sv) \<and> fp_ok 24 127 (vel_value c))"
| "mpc_ok (M_Vel c) = fp_ok 24 127 (vel_value c)"
| "mpc_ok _ = True"

definition app_ok :: "app \<Rightarrow> bool" where
  "app_ok a \<longleftrightarrow> fp_ok 24 127 (rc_vel (rc_data a)) \<and> fp_ok 24 127 (s_velocity (sd_val (sens_data a)))
     \<and> mpc_ok (mpc a) \<and> (\<forall>r \<in> set (scheduled a). req_ok r)"

lemma req_ok_read [simp]:
  "req_ok (BCSS_at BBS_GET, None, h)" "req_ok (BCSS_at BBS_RST, None, False)" "req_ok (BCCS_at BBC_RST, None, False)"
  using bc_ok_entries by (simp_all add: req_ok_def proto_simps)

lemma req_ok_write [simp]:
  "length bs = 4 \<Longrightarrow> b \<in> {BCCS_at BBC_VEL_VAL, BCCS_at BBC_ROT_VAL, BCCS_at BBC_ROT_ERR, BCCS_at BBC_VEL_KP,
      BCCS_at BBC_VEL_KD, BCCS_at BBC_ROT_KP, BCCS_at BBC_ROT_KD} \<Longrightarrow> req_ok (b, Some bs, False)"
  by (auto simp: req_ok_def SIZEOF_CTRL_VAL_def)

lemma schedule_frame [simp]:
  "rc_data (schedule b m h a) = rc_data a" "sens_data (schedule b m h a) = sens_data a"
  "mpc (schedule b m h a) = mpc a" "quit_flag (schedule b m h a) = quit_flag a"
  "mission (schedule b m h a) = mission a" "ts_start (schedule b m h a) = ts_start a"
  "scheduled (schedule b m h a) = (b, m, h) # scheduled a"
  by (simp_all add: schedule_def)

lemma set_rc_frame [simp]:
  "sens_data (set_rc_vel v a) = sens_data a" "mpc (set_rc_vel v a) = mpc a" "quit_flag (set_rc_vel v a) = quit_flag a"
  "scheduled (set_rc_vel v a) = scheduled a" "rc_data (set_rc_vel v a) = (rc_data a)\<lparr>rc_vel := v\<rparr>"
  "sens_data (set_rc_rot v a) = sens_data a" "mpc (set_rc_rot v a) = mpc a" "quit_flag (set_rc_rot v a) = quit_flag a"
  "scheduled (set_rc_rot v a) = scheduled a" "rc_data (set_rc_rot v a) = (rc_data a)\<lparr>rc_rot := v\<rparr>"
  by (simp_all add: set_rc_vel_def set_rc_rot_def)

lemmas sc_defs = sc_get_sens_def sc_get_mission_def sc_set_mission_def sc_append_mission_def sc_set_auto_def
  sc_shutdown_def sc_set_float_def sc_bus_send_float_def sc_help_def sc_check_def

lemma set_float_effect:
  "sc_set_float dst args a = Some (ok, resp, a') \<Longrightarrow> a' = a \<or> (\<exists>v. fp_ok 24 127 v \<and> a' = dst v a)"
  by (auto simp: sc_set_float_def dest: strtof_float split: list.splits option.splits)

lemma bus_send_effect:
  "sc_bus_send_float b args a = Some (ok, resp, a') \<Longrightarrow>
   a' = a \<or> (\<exists>v. a' = schedule b (Some (float_bytes v)) False a)"
  by (auto simp: sc_bus_send_float_def split: list.splits option.splits)

lemma sc_effect:
  "sc_get_sens args a = Some (ok, resp, a') \<Longrightarrow> a' = a"
  "sc_get_mission heap args a = Some (ok, resp, a') \<Longrightarrow> a' = a"
  "sc_help names args a = Some (ok, resp, a') \<Longrightarrow> a' = a"
  "sc_check args a = Some (ok, resp, a') \<Longrightarrow> a' = a"
  "sc_set_mission args a = Some (ok, resp, a') \<Longrightarrow> \<exists>ob. a' = a\<lparr>mission := ob\<rparr>"
  "sc_append_mission args a = Some (ok, resp, a') \<Longrightarrow> \<exists>ob. a' = a\<lparr>mission := ob\<rparr>"
  "sc_set_auto args a = Some (ok, resp, a') \<Longrightarrow> \<exists>ob. a' = a\<lparr>mission := ob\<rparr>"
  "sc_shutdown args a = Some (ok, resp, a') \<Longrightarrow> a' = a\<lparr>quit_flag := True\<rparr>"
  by (auto simp: sc_defs Let_def bind_eq_Some_conv split: prod.splits list.splits option.splits)

text \<open>What a command can change.\<close>

definition gain_orders :: "bc_ptr set" where
  "gain_orders = {BCCS_at BBC_VEL_KP, BCCS_at BBC_VEL_KD, BCCS_at BBC_ROT_KP, BCCS_at BBC_ROT_KD}"

inductive changes :: "app \<Rightarrow> app \<Rightarrow> bool" where
  nothing: "changes a a"
| new_mission: "changes a (a\<lparr>mission := ob\<rparr>)"
| quits: "changes a (a\<lparr>quit_flag := True\<rparr>)"
| vel: "fp_ok 24 127 v \<Longrightarrow> changes a (set_rc_vel v a)"
| rot: "fp_ok 24 127 v \<Longrightarrow> changes a (set_rc_rot v a)"
| gain: "b \<in> gain_orders \<Longrightarrow> changes a (schedule b (Some (float_bytes v)) False a)"

lemma command_effect:
  assumes "c \<in> set (cmds_all (cmds heap))" "action c args a = Some (ok, resp, a')"
  shows "changes a a'"
proof -
  have "action c \<in> {sc_get_sens, sc_get_mission heap, sc_check} \<or> (\<exists>names. action c = sc_help names)
    \<or> action c \<in> {sc_set_mission, sc_append_mission, sc_set_auto} \<or> action c = sc_shutdown
    \<or> action c \<in> {sc_set_float set_rc_vel, sc_set_float set_rc_rot}
    \<or> (\<exists>b. b \<in> gain_orders \<and> action c = sc_bus_send_float b)"
    using assms(1) unfolding cmds_all_def cmds_def Let_def by (auto simp: gain_orders_def)
  then show ?thesis
    using assms(2) by (auto dest!: sc_effect set_float_effect bus_send_effect intro: changes.intros)
qed

lemma app_ok_command:
  assumes "c \<in> set (cmds_all (cmds heap))" "action c args a = Some (ok, resp, a')" "app_ok a"
  shows "app_ok a'"
  using command_effect [OF assms(1,2)] assms(3)
  by cases (auto simp: app_ok_def gain_orders_def)

lemma app_ok_main:
  assumes "app_ok a"
  shows "app_ok (main_step ip a)"
proof (cases "mpc a")
  case (M_Execute sv)
  obtain ctrl ob where e: "obj_execute sv ip (mission a) = (ctrl, ob)" by force
  have "fp_ok 24 127 (vel_value ctrl)"
  proof (cases rule: obj_execute_cases [of "mission a" sv ip])
    case idle
    then show ?thesis using e by simp
  next
    case (cmd c fin st ctrl' opt)
    then show ?thesis
      using cmd_velocity [OF cmd(2)] e by (auto simp: FULL_VEL_def SLOW_VEL_def)
  qed
  with e M_Execute assms show ?thesis by (simp add: main_step_def app_ok_def)
next
  case (M_Store sv c)
  with assms show ?thesis by (simp add: main_step_def app_ok_def brake_def Let_def)
next
  case (M_Rc sv)
  with assms show ?thesis by (simp add: main_step_def app_ok_def)
qed (use assms in \<open>auto simp: main_step_def app_ok_def\<close>)

lemma app_ok_step: "app_step heap e a = Some b \<Longrightarrow> app_ok a \<Longrightarrow> app_ok b"
proof (induction heap e a rule: app_step.induct)
  case (2 heap msg a)
  then obtain rsp l where "execute_cmd (cmds_all (cmds heap)) msg a = Some (rsp, b, l)" by auto
  from execute_cases [OF this] 2 show ?case by (auto intro: app_ok_command)
next
  case (3 heap now bytes a)
  then show ?case by (auto simp: bsh_sens_recv_def Let_def app_ok_def bytes_sens_def)
qed (auto intro: app_ok_main)

lemma app_ok_init: "app_ok (main_init now)"
  by (simp add: app_ok_def main_init_def sens_zero_def)

lemma app_ok_steps: "app_steps heap a es b \<Longrightarrow> app_ok a \<Longrightarrow> app_ok b"
  by (induction rule: app_steps.induct) (auto intro: app_ok_step)

section \<open>How the main thread moves on\<close>

text \<open>Only the main thread's own steps move it.\<close>

fun is_main :: "app_event \<Rightarrow> bool" where
  "is_main (Main ip) = True"
| "is_main _ = False"

lemma changes_frame: "changes a b \<Longrightarrow> mpc b = mpc a \<and> (quit_flag a \<longrightarrow> quit_flag b)"
  by (induction rule: changes.induct) auto

lemma other_step:
  assumes "app_step heap e a = Some b" "\<not> is_main e"
  shows "mpc b = mpc a \<and> (quit_flag a \<longrightarrow> quit_flag b)"
proof (cases e)
  case (Message msg)
  then obtain rsp l where "execute_cmd (cmds_all (cmds heap)) msg a = Some (rsp, b, l)" using assms by auto
  from execute_cases [OF this] show ?thesis
    using changes_frame by (auto dest!: command_effect)
next
  case (Received now bytes)
  with assms show ?thesis by (auto simp: bsh_sens_recv_def Let_def)
qed (use assms in auto)

lemma others_steps:
  "app_steps heap a es b \<Longrightarrow> \<forall>e \<in> set es. \<not> is_main e \<Longrightarrow> mpc b = mpc a"
  by (induction rule: app_steps.induct) (auto dest: other_step)

text \<open>Steps left until the thread has ended, once it is told to.\<close>

fun steps_left :: "mpc \<Rightarrow> nat" where
  "steps_left M_Exit = 0"
| "steps_left (M_Reset done) = (if done then 1 else 2)"
| "steps_left M_Head = 3"
| "steps_left (M_Rot c) = 4"
| "steps_left (M_Vel c) = 5"
| "steps_left (M_Store sv c) = 6"
| "steps_left (M_Ip sv c ip) = 7"
| "steps_left (M_Rc sv) = 7"
| "steps_left (M_Execute sv) = 8"
| "steps_left (M_Choose sv) = 9"
| "steps_left (M_Get sv) = 10"

lemma main_step_left:
  "quit_flag a \<Longrightarrow> steps_left (mpc (main_step ip a)) \<le> steps_left (mpc a) - 1 \<and> quit_flag (main_step ip a)"
  by (cases "mpc a") (auto simp: main_step_def Let_def split: prod.split)

lemma left_steps:
  "app_steps heap a es b \<Longrightarrow> quit_flag a \<Longrightarrow>
   quit_flag b \<and> steps_left (mpc b) \<le> steps_left (mpc a) - length (filter is_main es)"
proof (induction rule: app_steps.induct)
  case (more a es b e c)
  show ?case
  proof (cases "is_main e")
    case True
    then obtain ip where "e = Main ip" by (cases e) auto
    with more main_step_left [of b ip] show ?thesis by auto
  next
    case False
    with more other_step [of heap e b c] show ?thesis by auto
  qed
qed simp

lemma find_distinct: "distinct (map f xs) \<Longrightarrow> x \<in> set xs \<Longrightarrow> List.find (\<lambda>y. f y = f x) xs = Some x"
  by (induction xs) auto

lemma command_names:
  "map name (cmds_all (cmds heap)) = [''help'', ''check'', ''get_sensor'', ''get_miss'', ''set_miss'', ''app_miss'',
     ''set_auto'', ''shutdown'', ''set_vel'', ''set_rot'', ''set_vel_kp'', ''set_vel_kd'', ''set_rot_kp'', ''set_rot_kd'']"
  by (simp add: cmds_all_def cmds_def)

lemma find_command:
  assumes "c \<in> set (cmds_all (cmds heap))"
  shows "List.find (\<lambda>d. name d = name c) (cmds_all (cmds heap)) = Some c"
    and "name c \<noteq> []" "CMD_DELIM \<notin> set (name c)"
proof -
  have "distinct (map name (cmds_all (cmds heap)))"
    and "\<forall>n \<in> set (map name (cmds_all (cmds heap))). n \<noteq> [] \<and> CMD_DELIM \<notin> set n"
    unfolding command_names CMD_DELIM_def by simp_all
  with assms show "List.find (\<lambda>d. name d = name c) (cmds_all (cmds heap)) = Some c"
    and "name c \<noteq> []" "CMD_DELIM \<notin> set (name c)"
    by (auto intro: find_distinct)
qed

text \<open>A message with one argument.\<close>

lemma execute_one_arg:
  assumes "c \<in> set (cmds_all (cmds heap))" "min_args c \<le> 1" "arg \<noteq> []" "ARG_DELIM \<notin> set arg"
  shows "execute_cmd (cmds_all (cmds heap)) (name c @ CMD_DELIM # arg) a =
    (case action c [name c, arg] a of
       None \<Rightarrow> None
     | Some (success, resp, a') \<Rightarrow>
         Some ((if success then RSP_SUCCESS_PRE else RSP_FAILURE_PRE)
                 @ (case resp of None \<Rightarrow> [] | Some r \<Rightarrow> r), a', 1))"
proof -
  have "parse_cmd (cmds_all (cmds heap)) (name c @ CMD_DELIM # join_args [arg]) = Some (Some c, Some [name c, arg])"
    using parse_message [OF find_command(2,3) [OF assms(1)], of "[arg]", OF _ find_command(1) [OF assms(1)]]
      assms(2-4) by simp
  then show ?thesis unfolding join_args.simps execute_cmd_def by simp
qed

text \<open>The motor's pulse for a velocity order.\<close>

lemma velocity_order_backward:
  assumes "fp_ok 24 127 v" "fle v (Fin 0)"
  shows "OCR_VEL (ctrl_iter (BBC_VEL_VAL, float_bytes v) s) \<in> {1400..1500}"
  using assms pwm_vel_backward [OF assms(2)]
  by (auto simp: ctrl_iter_def ctrl_step_def direct_def drive_def Let_def store16_def put_pdv_def)

lemma velocity_order_NaN: "OCR_VEL (ctrl_iter (BBC_VEL_VAL, float_bytes NaN) s) = 1600"
  by (simp add: ctrl_iter_def ctrl_step_def direct_def drive_def Let_def store16_def put_pdv_def pwm_end_values)

lemma manual_iteration_run:
  assumes "mpc a = M_Head" "\<not> quit_flag a" "\<not> obj_active (mission a)"
    and "\<not> flt (s_dist_front (sd_val (sens_data a))) (dbl (7 / 10))"
  shows "scheduled ((main_step ip ^^ 7) a) =
      (BCCS_at BBC_ROT_VAL, Some (float_bytes (rc_rot (rc_data a))), False)
      # (BCCS_at BBC_VEL_VAL, Some (float_bytes (rc_vel (rc_data a))), False)
      # (BCSS_at BBS_GET, None, True) # scheduled a
    \<and> mpc ((main_step ip ^^ 7) a) = M_Head"
  using assms by (simp add: eval_nat_numeral main_step_def schedule_def brake_def Let_def
      ctrl_zero_val_def of_bool_f_def f_true_def)

lemma brakes_run:
  assumes "app_ok a" "mpc a = M_Store sv c"
    and "flt (s_dist_front sv) (dbl (7 / 10))" "fle (Fin 0) (s_velocity sv)" "vel_value c \<noteq> NaN"
    and "app_steps heap (main_step ip a) es b" "\<forall>e \<in> set es. \<not> is_main e"
  shows "\<exists>msg. scheduled (main_step ip' b) = (BCCS_at BBC_VEL_VAL, Some msg, False) # scheduled b
    \<and> length msg = 4 \<and> (\<forall>s. OCR_VEL (ctrl_iter (BBC_VEL_VAL, msg) s) \<in> {1400..1500})"
proof -
  let ?c = "brake sv c"
  have ok: "fp_ok 24 127 (vel_value c)" "fp_ok 24 127 (s_velocity sv)"
    using assms(1,2) by (auto simp: app_ok_def)
  have "mpc b = M_Vel ?c"
    using others_steps [OF assms(6,7)] assms(2) by (simp add: main_step_def Let_def)
  moreover have "fp_ok 24 127 (vel_value ?c)" using ok by (simp add: brake_def)
  moreover have "fle (vel_value ?c) (Fin 0)"
  proof (cases "flt (Fin 0) (vel_value c)")
    case True
    then have "vel_value ?c = fneg (s_velocity sv)" using assms(3) by (simp add: brake_def)
    then show ?thesis using assms(4) by (cases "s_velocity sv") (auto simp: fle_def)
  next
    case False
    then have "vel_value ?c = vel_value c" by (simp add: brake_def)
    then show ?thesis using False assms(5) by (cases "vel_value c") (auto simp: fle_def flt_def)
  qed
  ultimately show ?thesis
    using velocity_order_backward by (auto simp: main_step_def)
qed

section \<open>Properties\<close>

text \<open>However the threads interleave, everything the communication module schedules is what the
  bus can take: the command is one of the tables, a write brings exactly its bytes, and the
  handler is only given to reads of the sensor values.\<close>

theorem main_requests_fit:
  assumes "app_steps heap (main_init now) es a" "(b, msg, hnd) \<in> set (scheduled a)"
    and "mem s addr = None" "length junk = len (bc b)"
  shows "event_ok s (Schedule addr b msg junk h) \<and> (hnd \<longrightarrow> b = BCSS_at BBS_GET)"
proof -
  have "req_ok (b, msg, hnd)"
    using app_ok_steps [OF assms(1) app_ok_init] assms(2) by (auto simp: app_ok_def)
  then show ?thesis using assms(3,4) by (auto simp: req_ok_def split: option.splits)
qed

text \<open>With an obstacle closer than 0.7 m the main loop never drives forward. Whatever control
  value an iteration arrived at, and whatever happens in the other threads meanwhile, the
  velocity order it schedules makes the control module's motor stand or brake, as long as
  the control value is a number and the measured speed is not negative.\<close>

theorem main_brakes:
  assumes "app_steps heap (main_init now) es a" "mpc a = M_Store sv c"
    and "flt (s_dist_front sv) (dbl (7 / 10))" "fle (Fin 0) (s_velocity sv)" "vel_value c \<noteq> NaN"
    and "app_steps heap (main_step ip a) es' b" "\<forall>e \<in> set es'. \<not> is_main e"
  shows "\<exists>msg. scheduled (main_step ip' b) = (BCCS_at BBC_VEL_VAL, Some msg, False) # scheduled b
    \<and> (\<forall>s. OCR_VEL (ctrl_iter (BBC_VEL_VAL, msg) s) \<in> {1400..1500})"
  using brakes_run [OF app_ok_steps [OF assms(1) app_ok_init] assms(2-7)] by blast

text \<open>C37. A message sets the brake aside: after \<open>set_vel:nan\<close> in manual mode the next iteration, with
  whatever distance measured in front, orders NaN, which drives the motor at full speed.\<close>

theorem nan_bypasses_brake:
  assumes "mpc a = M_Head" "\<not> quit_flag a" "\<not> obj_active (mission a)"
  shows "\<exists>a' msg. app_step heap (Message ''set_vel:nan'') a = Some a'
    \<and> (BCCS_at BBC_VEL_VAL, Some msg, False) \<in> set (take 2 (scheduled ((main_step ip ^^ 7) a')))
    \<and> (\<forall>s. OCR_VEL (ctrl_iter (BBC_VEL_VAL, msg) s) = 1600)"
proof -
  let ?c = "\<lparr>name = ''set_vel'', min_args = 1, action = sc_set_float set_rc_vel\<rparr>" and ?a = "set_rc_vel NaN a"
  have nan: "strtof ''nan'' = Some NaN" by code_simp
  have "?c \<in> set (cmds_all (cmds heap))" by (simp add: cmds_all_def cmds_def)
  from execute_one_arg [OF this, of "''nan''" a]
  have "app_step heap (Message ''set_vel:nan'') a = Some ?a"
    by (simp add: CMD_DELIM_def ARG_DELIM_def sc_set_float_def nan str_create_def str_append_var_def print_fixed_def)
  moreover have "take 2 (scheduled ((main_step ip ^^ 7) ?a)) =
      [(BCCS_at BBC_ROT_VAL, Some (float_bytes (rc_rot (rc_data a))), False),
       (BCCS_at BBC_VEL_VAL, Some (float_bytes NaN), False)]"
    using assms by (simp add: eval_nat_numeral main_step_def set_rc_vel_def schedule_def brake_def Let_def
        ctrl_zero_val_def of_bool_f_def f_true_def)
  ultimately show ?thesis
    using velocity_order_NaN by (intro exI [of _ ?a] exI [of _ "float_bytes NaN"]) simp
qed

text \<open>In manual mode an iteration schedules a request for sensor values and the two values the
  remote control set last, in this order, if nothing is near in front; the velocity is
  a setting, never a regulator's error, and so is the steering.\<close>

theorem manual_iteration:
  assumes "mpc a = M_Head" "\<not> quit_flag a" "\<not> obj_active (mission a)"
    and "\<not> flt (s_dist_front (sd_val (sens_data a))) (dbl (7 / 10))"
  shows "scheduled ((main_step ip ^^ 7) a) =
      (BCCS_at BBC_ROT_VAL, Some (float_bytes (rc_rot (rc_data a))), False)
      # (BCCS_at BBC_VEL_VAL, Some (float_bytes (rc_vel (rc_data a))), False)
      # (BCSS_at BBS_GET, None, True) # scheduled a
    \<and> mpc ((main_step ip ^^ 7) a) = M_Head"
  by (rule manual_iteration_run [OF assms])

text \<open>C21. A shutdown ends the main loop: ten steps of the main thread after the flag is set, wherever
  it was and whatever else happened, it has left the loop and scheduled its last orders.\<close>

theorem main_ends:
  assumes "app_steps heap a es b" "quit_flag a" "10 \<le> length (filter is_main es)"
  shows "mpc b = M_Exit"
proof -
  have "steps_left (mpc a) \<le> 10" by (cases "mpc a") auto
  then have "steps_left (mpc b) = 0" using left_steps [OF assms(1,2)] assms(3) by simp
  then show ?thesis by (cases "mpc b") (auto split: if_splits)
qed

text \<open>Every command of the table can be reached: the names are distinct, so each message finds
  the command it names and no other, with the built-in ones included.\<close>

theorem commands_reachable:
  assumes "c \<in> set (cmds_all (cmds heap))" "min_args c = 0"
  shows "parse_cmd (cmds_all (cmds heap)) (name c @ '':'') = Some (Some c, Some [name c])"
  using parse_message [OF find_command(2,3) [OF assms(1)], of "[]", OF _ find_command(1) [OF assms(1)]] assms(2)
  by (simp add: CMD_DELIM_def)

text \<open>A mission sent as names reaches the objective as it was sent, and is confirmed.\<close>

theorem mission_upload:
  assumes "queue_create ms \<noteq> []" "length ms \<le> 62" "\<forall>m \<in> set ms. m \<noteq> [] \<and> ARG_DELIM \<notin> set m"
  shows "\<exists>a'. execute_cmd (cmds_all (cmds heap)) (''set_miss:'' @ join_args ms) a = Some (''success:mission set'', a', 1)
    \<and> o_queue (mission a') = queue_create ms \<and> current (mission a') = None \<and> pos (mission a') = BEFORE_STOP"
proof -
  let ?c = "\<lparr>name = ''set_miss'', min_args = 0, action = sc_set_mission\<rparr>"
  have c: "?c \<in> set (cmds_all (cmds heap))" by (simp add: cmds_all_def cmds_def)
  have parse: "parse_cmd (cmds_all (cmds heap)) (''set_miss:'' @ join_args ms) = Some (Some ?c, Some (''set_miss'' # ms))"
    using parse_message [OF _ _ assms(3) find_command(1) [OF c]] assms(2) by (simp add: CMD_DELIM_def)
  show ?thesis
    using assms(1) unfolding execute_cmd_def parse
    by (auto simp: sc_set_mission_def obj_set_mission_def Let_def str_create_def str_append_var_def RSP_SUCCESS_PRE_def)
qed

text \<open>The answer to a large negative number does not fit: from \<open>-1e38\<close> on, the response
  of \<open>set_vel\<close> needs more than the 64 bytes it starts with, and growing it uses the
  argument list a second time.\<close>

theorem set_vel_overflows:
  assumes "strtof str = Some (Fin x)" "x \<le> - (10 ^ 38)" "str \<noteq> []" "ARG_DELIM \<notin> set str"
  shows "execute_cmd (cmds_all (cmds heap)) (''set_vel:'' @ str) a = None"
proof -
  let ?c = "\<lparr>name = ''set_vel'', min_args = 1, action = sc_set_float set_rc_vel\<rparr>"
  have "?c \<in> set (cmds_all (cmds heap))" by (simp add: cmds_all_def cmds_def)
  note run = execute_one_arg [OF this _ assms(3,4), of a]
  have "47 \<le> length (print_fixed 6 (Fin x))" using print_fixed_length [OF assms(2), of 6] by simp
  then have "sc_set_float set_rc_vel [''set_vel'', str] a = None"
    using assms(1) by (simp add: sc_set_float_def str_create_def str_append_var_def)
  with run show ?thesis by (simp add: CMD_DELIM_def)
qed

section \<open>Witnesses\<close>

lemma main_run: "app_steps heap a (replicate n (Main ip)) ((main_step ip ^^ n) a)"
proof (induction n)
  case (Suc n)
  have "app_steps heap a (replicate n (Main ip) @ [Main ip]) (main_step ip ((main_step ip ^^ n) a))"
    by (rule app_steps.more [OF Suc]) simp
  then show ?case by (simp add: replicate_append_same)
qed (simp add: app_steps.none)

lemmas main_sims = main_step_def schedule_def main_init_def sens_zero_def obj_create_def obj_set_mission_def
  queue_create_def obj_active_def Let_def

theorem main_requests_fit_witness:
  "event_ok (bus_create :: nat bus) (Schedule 5 (BCCS_at BBC_RST) None [] None)"
proof -
  have "event_ok (bus_create :: nat bus) (Schedule 5 (BCCS_at BBC_RST) None [] None)
      \<and> (False \<longrightarrow> BCCS_at BBC_RST = BCSS_at BBS_GET)"
    by (rule main_requests_fit [OF app_steps.none, where now = "(0, 0)"])
       (simp_all add: main_init_def schedule_def bus_create_def proto_simps)
  then show ?thesis by simp
qed

theorem main_brakes_witness:
  "\<exists>msg. hd (scheduled ((main_step ip_res_zero ^^ 6) (main_init (0, 0)))) = (BCCS_at BBC_VEL_VAL, Some msg, False)
    \<and> (\<forall>s. OCR_VEL (ctrl_iter (BBC_VEL_VAL, msg) s) \<in> {1400..1500})"
proof -
  let ?a = "(main_step ip_res_zero ^^ 4) (main_init (0, 0))"
  have near: "flt (s_dist_front sens_zero) (dbl (7 / 10))" by code_simp
  have "mpc ?a = M_Store sens_zero ctrl_zero_val"
    by (simp add: eval_nat_numeral main_sims ctrl_zero_val_def of_bool_f_def)
  from main_brakes [OF main_run this near _ _ app_steps.none, where ip = ip_res_zero and ip' = ip_res_zero]
  show ?thesis
    by (simp add: sens_zero_def ctrl_zero_val_def fle_def eval_nat_numeral) (metis list.sel(1))
qed

theorem nan_bypasses_brake_witness:
  "\<exists>a' msg. app_step (\<lambda>n. []) (Message ''set_vel:nan'') (main_init (0, 0)) = Some a'
    \<and> (BCCS_at BBC_VEL_VAL, Some msg, False) \<in> set (take 2 (scheduled ((main_step ip_res_zero ^^ 7) a')))
    \<and> (\<forall>s. OCR_VEL (ctrl_iter (BBC_VEL_VAL, msg) s) = 1600)"
  by (rule nan_bypasses_brake) (simp_all add: main_sims)

definition far :: app where
  "far = (main_init (0, 0))\<lparr>sens_data := \<lparr>sd_val = sens_zero\<lparr>s_dist_front := Fin 2\<rparr>, sd_ip = ip_res_zero,
     sd_vel = Fin 0, sd_rot = Fin 0\<rparr>, rc_data := \<lparr>rc_vel = Fin (1 / 2), rc_rot = Fin 1\<rparr>\<rparr>"

theorem manual_iteration_witness:
  "hd (tl (scheduled ((main_step ip_res_zero ^^ 7) far)))
    = (BCCS_at BBC_VEL_VAL, Some (float_bytes (Fin (1 / 2))), False)"
proof -
  have "\<not> flt (Fin 2) (dbl (7 / 10))" by code_simp
  then show ?thesis
    using manual_iteration [of far ip_res_zero] by (simp add: far_def) (simp add: main_sims)
qed

theorem main_ends_witness:
  "mpc ((main_step ip_res_zero ^^ 10) ((main_init (0, 0))\<lparr>quit_flag := True\<rparr>)) = M_Exit"
  by (rule main_ends [OF main_run]) simp_all

theorem commands_reachable_witness:
  "parse_cmd (cmds_all (cmds (\<lambda>n. []))) ''get_miss:'' =
     Some (Some \<lparr>name = ''get_miss'', min_args = 0, action = sc_get_mission (\<lambda>n. [])\<rparr>, Some [''get_miss''])"
  using commands_reachable [of "\<lparr>name = ''get_miss'', min_args = 0, action = sc_get_mission (\<lambda>n. [])\<rparr>" "\<lambda>n. []"]
  by (simp add: cmds_all_def cmds_def)

theorem mission_upload_witness:
  "\<exists>a'. execute_cmd (cmds_all (cmds (\<lambda>n. []))) (''set_miss:'' @ join_args [''stop'', ''park'']) (main_init (0, 0))
      = Some (''success:mission set'', a', 1) \<and> o_queue (mission a') = [STOP, PARK]"
proof -
  have "queue_create [''stop'', ''park''] = [STOP, PARK]" by (simp add: queue_create_def CMDS_def)
  then show ?thesis
    using mission_upload [of "[''stop'', ''park'']" "\<lambda>n. []" "main_init (0, 0)"] by (auto simp: ARG_DELIM_def)
qed

theorem set_vel_overflows_witness:
  "execute_cmd (cmds_all (cmds (\<lambda>n. []))) ''set_vel:-3e38'' (main_init (0, 0)) = None"
proof -
  have "case strtof ''-3e38'' of Some (Fin x) \<Rightarrow> x \<le> - (10 ^ 38) | _ \<Rightarrow> False" by code_simp
  then obtain x where "strtof ''-3e38'' = Some (Fin x)" "x \<le> - (10 ^ 38)"
    by (auto split: option.splits fp.splits)
  then show ?thesis
    using set_vel_overflows [of "''-3e38''" x "\<lambda>n. []" "main_init (0, 0)"] by (simp add: ARG_DELIM_def)
qed

end
