(* ===== verification/Fp_Bounds.thy ===== *)
theory Fp_Bounds
  imports Cfloat
begin

text \<open>
  Exact \<open>double\<close> values and bounds of results: whole numbers are exact, rounding respects powers of
  two, and so the arithmetic operations have simple bounds on magnitudes.
\<close>

section \<open>Exact values\<close>

lemma f64_fixed:
  assumes "mag 53 1023 v = v" "0 < v" "v < pow2 1024"
  shows "f64 v = Fin v" "f64 (- v) = Fin (- v)"
  using assms by (simp_all add: rnd_def Let_def smag_def)

lemma f64_exact:
  assumes "\<bar>n\<bar> \<le> 2 ^ 53" "- 1000 \<le> k" "k \<le> 900"
  shows "f64 (of_int n * pow2 k) = Fin (of_int n * pow2 k)"
proof -
  let ?v = "of_int \<bar>n\<bar> * pow2 k :: rat"
  have "?v \<le> of_int (2 ^ 53) * pow2 k" using assms(1) by (simp only: mult_le_cancel_right_pos pow2_pos of_int_le_iff)
  also have "\<dots> = pow2 (53 + k)" by (simp add: pow2_add) (simp add: pow2_def)
  also have "\<dots> < pow2 1024" using assms(3) by simp
  finally have big: "?v < pow2 1024" .
  show ?thesis
  proof (cases "n = 0")
    case False
    then have "mag 53 1023 ?v = ?v" using assms by (intro mag_exact) simp_all
    moreover have "0 < ?v" using False by simp
    ultimately have "f64 ?v = Fin ?v" "f64 (- ?v) = Fin (- ?v)" using big by (simp_all only: f64_fixed)
    then show ?thesis by (cases "0 \<le> n") simp_all
  qed simp
qed

definition fint :: "int \<Rightarrow> fp" where
  "fint n = f64 (of_int n)"

lemma fint_exact: "\<bar>n\<bar> \<le> 2 ^ 53 \<Longrightarrow> fint n = Fin (of_int n)"
  using f64_exact [of n 0] by (simp add: fint_def pow2_def)

section \<open>Comparison with a rounded value\<close>

lemma fle_rnd_exact:
  assumes "f64 c = Fin c"
  shows "x \<le> c \<Longrightarrow> fle (f64 x) (Fin c)" "c \<le> x \<Longrightarrow> fle (Fin c) (f64 x)"
  using rnd_mono [of x c 53 1023] rnd_mono [of c x 53 1023] assms by simp_all

lemma fle_Fin: "fle (Fin a) (Fin b) \<longleftrightarrow> a \<le> b"
  by (simp add: fle_def)

lemma fle_antisym_Fin: "fle (Fin a) x \<Longrightarrow> fle x (Fin b) \<Longrightarrow> a \<le> b"
  using fle_trans [of "Fin a" x "Fin b"] by (simp add: fle_Fin)

text \<open>The sign of a quotient of whole numbers, and whether it is beyond one, survive the rounding.\<close>

lemma quotient_sign:
  assumes "\<bar>d\<bar> \<le> 2 ^ 52" "d \<noteq> 0"
  shows "fle (f64 (of_int n / of_int d)) (Fin 0) \<longleftrightarrow> of_int n / of_int d \<le> (0 :: rat)"
proof
  show "fle (f64 (of_int n / of_int d)) (Fin 0)" if "of_int n / of_int d \<le> (0 :: rat)"
    using that fle_rnd_exact [of 0] by simp
  show "of_int n / of_int d \<le> (0 :: rat)" if le: "fle (f64 (of_int n / of_int d)) (Fin 0)"
  proof (rule ccontr)
    assume pos: "\<not> of_int n / of_int d \<le> (0 :: rat)"
    have "n \<noteq> 0" using pos by auto
    then have "(1 :: rat) \<le> of_int \<bar>n\<bar>" by simp
    moreover have "(of_int \<bar>d\<bar> :: rat) \<le> 2 ^ 52" using assms(1) of_int_le_iff [of "\<bar>d\<bar>" "2 ^ 52", where 'a = rat] by simp
    moreover have "of_int n / of_int d = (of_int \<bar>n\<bar> / of_int \<bar>d\<bar> :: rat)"
      using pos by (auto simp: not_le zero_less_divide_iff abs_if)
    ultimately have "1 / 2 ^ 52 \<le> (of_int n / of_int d :: rat)"
      using assms(2) by (simp add: frac_le)
    moreover have "f64 (1 / 2 ^ 52) = Fin (1 / 2 ^ 52)"
      using f64_exact [of 1 "- 52"] by (simp add: pow2_def power_int_minus field_simps)
    ultimately have "fle (Fin (1 / 2 ^ 52)) (f64 (of_int n / of_int d))" using fle_rnd_exact(2) by blast
    from fle_antisym_Fin [OF this le] show False by simp
  qed
qed

lemma quotient_one:
  assumes "\<bar>d\<bar> \<le> 2 ^ 52" "d \<noteq> 0"
  shows "fle (Fin (- 1)) (f64 (of_int n / of_int d)) \<longleftrightarrow> - 1 \<le> (of_int n / of_int d :: rat)"
proof
  have one: "f64 (- 1) = Fin (- 1)" using f64_exact [of "- 1" 0] by (simp add: pow2_def)
  show "fle (Fin (- 1)) (f64 (of_int n / of_int d))" if "- 1 \<le> (of_int n / of_int d :: rat)"
    using that fle_rnd_exact(2) [OF one] by simp
  show "- 1 \<le> (of_int n / of_int d :: rat)" if le: "fle (Fin (- 1)) (f64 (of_int n / of_int d))"
  proof (rule ccontr)
    assume neg: "\<not> - 1 \<le> (of_int n / of_int d :: rat)"
    let ?c = "- (1 + 1 / 2 ^ 52) :: rat"
    have c: "f64 ?c = Fin ?c"
      using f64_exact [of "- (2 ^ 52 + 1)" "- 52"] by (simp add: pow2_def power_int_minus field_simps)
    have eq: "of_int n / of_int d = - (of_int \<bar>n\<bar> / of_int \<bar>d\<bar> :: rat)"
    proof -
      have "of_int n / of_int d < (0 :: rat)" using neg by linarith
      then show ?thesis by (auto simp: divide_less_0_iff abs_if)
    qed
    with neg have "of_int \<bar>d\<bar> < (of_int \<bar>n\<bar> :: rat)" using assms(2) by (simp add: not_le less_divide_eq)
    then have n: "\<bar>d\<bar> + 1 \<le> \<bar>n\<bar>" by (simp only: of_int_less_iff)
    have d: "0 < (of_int \<bar>d\<bar> :: rat)" using assms(2) by simp
    have "1 + 1 / of_int \<bar>d\<bar> = (of_int (\<bar>d\<bar> + 1) / of_int \<bar>d\<bar> :: rat)" using d by (simp add: add_divide_distrib)
    also have "\<dots> \<le> of_int \<bar>n\<bar> / of_int \<bar>d\<bar>" using n d by (intro divide_right_mono) (simp_all only: of_int_le_iff less_imp_le)
    finally have "1 + 1 / of_int \<bar>d\<bar> \<le> (of_int \<bar>n\<bar> / of_int \<bar>d\<bar> :: rat)" .
    moreover have "1 / 2 ^ 52 \<le> (1 / of_int \<bar>d\<bar> :: rat)"
      using assms(1) d of_int_le_iff [of "\<bar>d\<bar>" "2 ^ 52", where 'a = rat] by (simp add: frac_le)
    ultimately have "of_int n / of_int d \<le> ?c" unfolding eq by linarith
    then have "fle (f64 (of_int n / of_int d)) (Fin ?c)" by (rule fle_rnd_exact(1) [OF c])
    from fle_antisym_Fin [OF le this] show False by simp
  qed
qed

section \<open>Magnitudes\<close>

definition bnd :: "nat \<Rightarrow> fp \<Rightarrow> bool" where
  "bnd j a \<longleftrightarrow> is_fin a \<and> \<bar>fval a\<bar> \<le> 2 ^ j"

lemma f64_two_power: "j \<le> 900 \<Longrightarrow> f64 (2 ^ j) = Fin (2 ^ j)" "j \<le> 900 \<Longrightarrow> f64 (- (2 ^ j)) = Fin (- (2 ^ j))"
  using f64_exact [of 1 "int j"] f64_exact [of "- 1" "int j"] by (simp_all add: pow2_nat)

lemma bnd_rnd: "\<bar>x\<bar> \<le> 2 ^ j \<Longrightarrow> j \<le> 900 \<Longrightarrow> bnd j (f64 x)"
  using fle_rnd_exact(1) [OF f64_two_power(1), of j x] fle_rnd_exact(2) [OF f64_two_power(2), of j x]
    fle_between_fin [of "- (2 ^ j)" "f64 x" "2 ^ j"]
  by (simp add: bnd_def abs_le_iff minus_le_iff)

lemma bnd_szero [simp]: "bnd j (szero s)"
  by (simp add: bnd_def)

lemma bnd_mono: "bnd i a \<Longrightarrow> i \<le> j \<Longrightarrow> bnd j a"
  unfolding bnd_def by (auto elim!: order_trans intro: power_increasing)

lemma bnd_fint: "\<bar>n\<bar> \<le> 2 ^ j \<Longrightarrow> j \<le> 53 \<Longrightarrow> bnd j (fint n)"
proof -
  assume n: "\<bar>n\<bar> \<le> 2 ^ j" and j: "j \<le> 53"
  have "\<bar>of_int n :: rat\<bar> \<le> 2 ^ j" using n of_int_le_iff [of "\<bar>n\<bar>" "2 ^ j", where 'a = rat] by simp
  with j show ?thesis unfolding fint_def by (intro bnd_rnd) simp_all
qed

lemma bnd_sub: "bnd j a \<Longrightarrow> bnd j b \<Longrightarrow> j < 900 \<Longrightarrow> bnd (Suc j) (sub64 a b)"
proof -
  assume a: "bnd j a" and b: "bnd j b" and j: "j < 900"
  have "\<bar>fval a + fval (fneg b)\<bar> \<le> \<bar>fval a\<bar> + \<bar>fval b\<bar>" by simp
  also have "\<dots> \<le> 2 ^ Suc j" using a b by (simp add: bnd_def)
  finally have "\<bar>fval a + fval (fneg b)\<bar> \<le> 2 ^ Suc j" .
  then have "bnd (Suc j) (f64 (fval a + fval (fneg b)))" using j by (intro bnd_rnd) simp_all
  moreover have "bnd (Suc j) NZero" by (simp add: bnd_def)
  ultimately show ?thesis using a b by (cases a; cases "fneg b") (auto simp: fsub_def fadd_def bnd_def)
qed

lemma bnd_mul: "bnd i a \<Longrightarrow> bnd j b \<Longrightarrow> i + j \<le> 900 \<Longrightarrow> bnd (i + j) (mul64 a b)"
proof -
  assume a: "bnd i a" and b: "bnd j b" and j: "i + j \<le> 900"
  have "\<bar>fval a * fval b\<bar> \<le> 2 ^ (i + j)"
    using a b by (simp add: bnd_def abs_mult power_add mult_mono)
  then have "bnd (i + j) (f64 (fval a * fval b))" using j by (rule bnd_rnd)
  then show ?thesis using a b by (auto simp: fmul_def Let_def bnd_def)
qed

lemma bnd_div:
  "bnd i a \<Longrightarrow> is_fin b \<Longrightarrow> 1 / 2 ^ j \<le> \<bar>fval b\<bar> \<Longrightarrow> i + j \<le> 900 \<Longrightarrow> bnd (i + j) (div64 a b)"
proof -
  assume a: "bnd i a" and b: "is_fin b" "1 / 2 ^ j \<le> \<bar>fval b\<bar>" and j: "i + j \<le> 900"
  have "0 < (1 / 2 ^ j :: rat)" by simp
  with b have pos: "0 < \<bar>fval b\<bar>" by linarith
  have "\<bar>fval a / fval b\<bar> = \<bar>fval a\<bar> / \<bar>fval b\<bar>" by (rule abs_divide)
  also have "\<dots> \<le> 2 ^ i / (1 / 2 ^ j)" using a b pos by (intro frac_le) (simp_all add: bnd_def)
  also have "\<dots> = 2 ^ (i + j)" by (simp add: power_add)
  finally have "bnd (i + j) (f64 (fval a / fval b))" using j by (rule bnd_rnd)
  then show ?thesis using a b pos by (auto simp: fdiv_def Let_def bnd_def)
qed

text \<open>A quotient that is not small.\<close>

lemma rnd_not_small:
  assumes "1 / 2 ^ j \<le> \<bar>x\<bar>" "j \<le> 900" "is_fin (f64 x)"
  shows "1 / 2 ^ j \<le> \<bar>fval (f64 x)\<bar>"
proof -
  let ?c = "1 / 2 ^ j :: rat"
  have p: "pow2 (- int j) = ?c" by (simp add: pow2_powi power_int_minus divide_inverse)
  have e: "f64 ?c = Fin ?c" "f64 (- ?c) = Fin (- ?c)"
    using f64_exact [of 1 "- int j"] f64_exact [of "- 1" "- int j"] assms(2) by (simp_all add: p)
  consider "?c \<le> x" | "x \<le> - ?c" using assms(1) by linarith
  then show ?thesis
  proof cases
    case 1
    then have "fle (Fin ?c) (f64 x)" by (rule fle_rnd_exact(2) [OF e(1)])
    then show ?thesis using assms(3) by (simp add: fle_fin)
  next
    case 2
    then have "fle (f64 x) (Fin (- ?c))" by (rule fle_rnd_exact(1) [OF e(2)])
    then show ?thesis using assms(3) by (simp add: fle_fin)
  qed
qed

end
