(* ===== verification/Img.thy ===== *)
theory Img
  imports Objective Fp_Bounds "HOL-Library.Signed_Division" "HOL-Library.Multiset"
begin

text \<open>
  The image processing, \<^verbatim>\<open>src/comm/ip/img_proc.cpp\<close>, from the lines the Hough transform finds to
  the result the objective uses. What OpenCV does is input: whether the camera opens, the
  size of its frames, the lines of a frame, and \<open>norm\<close> of a point. \<open>acos\<close> and
  \<open>nth_element\<close> are arguments too, since the standard leaves their rounding and the
  order of the elements open. The filters and the drawing are in \<^verbatim>\<open>Overlay\<close>.
  Integers do not wrap here; \<^verbatim>\<open>Frames\<close> says for which pictures they cannot overflow.
\<close>

section \<open>Square root\<close>

text \<open>The correctly rounded root: two bits more than needed, and a half for the rest.\<close>

function isqrt :: "int \<Rightarrow> int" where
  "isqrt n = (if n \<le> 0 then 0 else let r = 2 * isqrt (n div 4) in if (r + 1) * (r + 1) \<le> n then r + 1 else r)"
  by pat_completeness auto

termination
  by (relation "measure nat") auto

declare isqrt.simps [simp del]

definition sqrt64 :: "fp \<Rightarrow> fp" where
  "sqrt64 a =
     (case a of
        Fin x \<Rightarrow>
          if x = 0 then Fin 0
          else if x < 0 then NaN
          else (let k = 54 - ilog2 x div 2; y = x * pow2 (2 * k); n = isqrt \<lfloor>y\<rfloor>;
                    rest = (if of_int n * of_int n = y then 0 else 1 / 2)
                in f64 ((of_int n + rest) * pow2 (- k)))
      | NZero \<Rightarrow> NZero
      | Inf s \<Rightarrow> (if s then NaN else Inf False)
      | NaN \<Rightarrow> NaN)"

section \<open>Data\<close>

type_synonym point = "int \<times> int"
type_synonym line = "int \<times> int \<times> int \<times> int"

text \<open>Conversion to \<open>int\<close>, which C leaves undefined outside the range.\<close>

definition to_int :: "fp \<Rightarrow> int option" where
  "to_int a = (case ftrunc a of Some k \<Rightarrow> if - (2 ^ 31) \<le> k \<and> k < 2 ^ 31 then Some k else None | None \<Rightarrow> None)"

record lib =
  acos_d :: "fp \<Rightarrow> fp"
  cv_norm :: "point \<Rightarrow> fp"
  nth_element :: "nat \<Rightarrow> int list \<Rightarrow> int list"

text \<open>The static variables.\<close>

record globals =
  WIDTH :: int
  HEIGHT :: int
  thresh_value :: int
  thresh_type :: int
  hough_threshold :: int
  line_min_length :: int
  line_max_gap :: int
  mask_width_top :: int
  mask_start_y :: int
  mask_end_y :: int
  thresh_angle_lane :: fp
  thresh_angle_stop :: fp
  max_stop_diff :: int
  weight_lt :: fp
  weight_lw :: fp
  weight_lx :: fp
  weight_sd :: fp
  thresh_stop_vis :: int
  lane_center :: int
  max_lane_error :: int
  lane_width_min :: int
  lane_width_max :: int

definition globals_init :: globals where
  "globals_init =
     \<lparr>WIDTH = 256, HEIGHT = 144, thresh_value = 0, thresh_type = 0, hough_threshold = 0, line_min_length = 0,
      line_max_gap = 0, mask_width_top = 0, mask_start_y = 0, mask_end_y = 0, thresh_angle_lane = Fin 0,
      thresh_angle_stop = Fin 0, max_stop_diff = 0, weight_lt = Fin 0, weight_lw = Fin 0, weight_lx = Fin 0,
      weight_sd = Fin 0, thresh_stop_vis = 0, lane_center = 0, max_lane_error = 0, lane_width_min = 0,
      lane_width_max = 0\<rparr>"

definition CV_PI :: fp where
  "CV_PI = f64 (31415926535897932384626433832795 / 10 ^ 31)"

text \<open>A product with a literal, stored in an \<open>int\<close>: the fraction is cut off.\<close>

definition itrunc :: "fp \<Rightarrow> int" where
  "itrunc a = (case ftrunc a of Some k \<Rightarrow> k | None \<Rightarrow> 0)"

definition part :: "rat \<Rightarrow> int \<Rightarrow> int" where
  "part r n = itrunc (mul64 (f64 r) (fint n))"

definition set_constants :: "globals \<Rightarrow> globals" where
  "set_constants g =
     g\<lparr>thresh_value := 20, thresh_type := 6, hough_threshold := 7, line_min_length := 20, line_max_gap := 40,
       mask_width_top := part (55 / 100) (WIDTH g), mask_start_y := part (9 / 10) (HEIGHT g),
       mask_end_y := part (5 / 10) (HEIGHT g),
       thresh_angle_lane := fconv 24 127 (mul64 (f64 (3 / 10)) CV_PI),
       thresh_angle_stop := fconv 24 127 (mul64 (f64 (3 / 10)) CV_PI),
       max_stop_diff := part (2 / 10) (HEIGHT g),
       weight_lt := f64 (3 / 10), weight_lw := f64 (6 / 100), weight_lx := f64 1, weight_sd := f64 (6 / 10),
       thresh_stop_vis := 10, lane_center := part (48 / 100) (WIDTH g), max_lane_error := part (4 / 10) (WIDTH g),
       lane_width_min := part (45 / 100) (WIDTH g), lane_width_max := part (75 / 100) (WIDTH g)\<rparr>"

record ip =
  lane :: point
  lane_dir :: point
  lane_width :: int
  stop :: point
  stop_dir :: point
  stop_diff :: int
  stop_vis :: int
  stop_valid :: bool
  opt :: ip_opt

definition ip_reset :: "globals \<Rightarrow> ip \<Rightarrow> ip" where
  "ip_reset g p =
     p\<lparr>lane := (lane_center g, part (5 / 10) (HEIGHT g)), lane_dir := (0, - 1), lane_width := part (8 / 10) (WIDTH g),
       stop := (lane_center g, mask_width_top g), stop_dir := (1, 0), stop_diff := 0, stop_vis := 0,
       stop_valid := False, opt := ip_opt_zero\<rparr>"

definition ip_calloc :: ip where
  "ip_calloc = \<lparr>lane = (0, 0), lane_dir = (0, 0), lane_width = 0, stop = (0, 0), stop_dir = (0, 0), stop_diff = 0,
     stop_vis = 0, stop_valid = False, opt = ip_opt_zero\<rparr>"

text \<open>\<open>ip_init\<close>: whether the camera opened, and the size it reports. The reset comes first.\<close>

definition ip_init :: "bool \<Rightarrow> int \<Rightarrow> int \<Rightarrow> globals \<Rightarrow> ip option \<times> globals" where
  "ip_init opened w h g =
     (if \<not> opened then (None, g)
      else let g1 = g\<lparr>WIDTH := w, HEIGHT := h\<rparr>
           in (Some (ip_reset g1 ip_calloc), set_constants g1))"

definition ip_set_opt :: "ip_opt \<Rightarrow> ip \<Rightarrow> ip" where
  "ip_set_opt op p = p\<lparr>opt := op\<rparr>"

section \<open>Geometry\<close>

definition pt_add :: "point \<Rightarrow> point \<Rightarrow> point" where
  "pt_add p q = (fst p + fst q, snd p + snd q)"

definition pt_sub :: "point \<Rightarrow> point \<Rightarrow> point" where
  "pt_sub p q = (fst p - fst q, snd p - snd q)"

text \<open>The corners of the region of interest. The sides are \<open>float\<close>s before they are coordinates.\<close>

definition via_float :: "int \<Rightarrow> int" where
  "via_float n = itrunc (f32 (of_int n))"

definition create_mask :: "globals \<Rightarrow> point list" where
  "create_mask g =
     (let top_y = via_float (mask_end_y g);
          top_rx = via_float ((WIDTH g + mask_width_top g) sdiv 2);
          top_lx = via_float ((WIDTH g - mask_width_top g) sdiv 2);
          bot_y = via_float (mask_start_y g); bot_lx = via_float 0; bot_rx = via_float (WIDTH g)
      in [(0, HEIGHT g), (bot_lx, bot_y), (top_lx, top_y), (top_rx, top_y), (bot_rx, bot_y), (WIDTH g, HEIGHT g)])"

definition cross :: "point \<Rightarrow> point \<Rightarrow> point \<Rightarrow> int" where
  "cross s e p = (fst p - fst s) * (snd e - snd s) - (snd p - snd s) * (fst e - fst s)"

definition pt_distance :: "point \<Rightarrow> point \<Rightarrow> point \<Rightarrow> fp" where
  "pt_distance s e p = fint (cross s e p)"

definition intersects :: "point \<Rightarrow> point \<Rightarrow> point \<Rightarrow> point \<Rightarrow> bool" where
  "intersects s1 e1 s2 e2 =
     (let denominator = fint ((fst s1 - fst e1) * (snd s2 - snd e2) - (snd s1 - snd e1) * (fst s2 - fst e2))
      in if \<not> (is_fin denominator \<and> fval denominator = 0) then
           (let numerator = fint ((fst s1 - fst e1) * (snd s1 - snd s2) - (snd s1 - snd e1) * (fst s1 - fst s2));
                u = fneg (div64 numerator denominator)
            in fle (Fin 0) u \<and> fle u (Fin 1))
         else False)"

text \<open>\<open>std::min\<close>, which returns the first of two values that do not compare.\<close>

definition std_min :: "fp \<Rightarrow> fp \<Rightarrow> fp" where
  "std_min a b = (if flt b a then b else a)"

definition angle :: "lib \<Rightarrow> int \<Rightarrow> int \<Rightarrow> int \<Rightarrow> int \<Rightarrow> fp" where
  "angle L ax ay bx by' =
     (let len_a = sqrt64 (fint (ax * ax + ay * ay));
          len_b = sqrt64 (fint (bx * bx + by' * by'));
          ang = acos_d L (div64 (div64 (fint (ax * bx + ay * by')) len_a) len_b)
      in std_min ang (sub64 CV_PI ang))"

definition fp_abs :: "fp \<Rightarrow> fp" where
  "fp_abs a = (if is_neg a then fneg a else a)"

definition is_stopline :: "lib \<Rightarrow> globals \<Rightarrow> ip \<Rightarrow> point \<Rightarrow> point \<Rightarrow> fp \<Rightarrow> bool" where
  "is_stopline L g p s e angle_to_lane =
     (if flt angle_to_lane (thresh_angle_stop g) then False
      else if \<not> intersects (lane p) (pt_add (lane p) (lane_dir p)) s e then False
      else
        let dis = (\<lambda>q. div64 (fp_abs (pt_distance (stop p) (pt_add (stop p) (stop_dir p)) q)) (cv_norm L (stop_dir p)))
        in if flt (fint (max_stop_diff g)) (dis s) then False
           else if flt (fint (max_stop_diff g)) (dis e) then False
           else True)"

text \<open>1 right, -1 left, 0 neither. The distances are whole numbers and become \<open>int\<close>s.\<close>

definition is_side_line :: "globals \<Rightarrow> ip \<Rightarrow> point \<Rightarrow> point \<Rightarrow> fp \<Rightarrow> int" where
  "is_side_line g p s e angle_to_lane =
     (if flt (thresh_angle_lane g) angle_to_lane then 0
      else if snd s < snd (lane p) \<and> snd e < snd (lane p) then 0
      else
        let start_side = itrunc (pt_distance (lane p) (pt_add (lane p) (lane_dir p)) s);
            end_side = itrunc (pt_distance (lane p) (pt_add (lane p) (lane_dir p)) e)
        in if start_side < 0 \<and> end_side < 0 then 1
           else if 0 < start_side \<and> 0 < end_side then - 1
           else 0)"

fun line_start :: "line \<Rightarrow> point" where
  "line_start (x0, y0, x1, y1) = (x0, y0)"

fun line_end :: "line \<Rightarrow> point" where
  "line_end (x0, y0, x1, y1) = (x1, y1)"

record classes =
  right_lines :: "line list"
  left_lines :: "line list"
  stop_lines :: "line list"
  rem_lines :: "line list"

definition add_line :: "lib \<Rightarrow> globals \<Rightarrow> ip \<Rightarrow> line \<Rightarrow> classes \<Rightarrow> classes" where
  "add_line L g p l cl =
     (let s = line_start l; e = line_end l;
          angle_to_lane = angle L (fst e - fst s) (snd e - snd s) (fst (lane_dir p)) (snd (lane_dir p))
      in if \<not> ignore_stop (opt p) \<and> is_stopline L g p s e angle_to_lane
         then cl\<lparr>stop_lines := stop_lines cl @ [l]\<rparr>
         else
           let type = is_side_line g p s e angle_to_lane
           in if \<not> ignore_left (opt p) \<and> type = - 1 then cl\<lparr>left_lines := left_lines cl @ [l]\<rparr>
              else if \<not> ignore_right (opt p) \<and> type = 1 then cl\<lparr>right_lines := right_lines cl @ [l]\<rparr>
              else cl\<lparr>rem_lines := rem_lines cl @ [l]\<rparr>)"

fun classify_lines :: "lib \<Rightarrow> globals \<Rightarrow> ip \<Rightarrow> line list \<Rightarrow> classes \<Rightarrow> classes" where
  "classify_lines L g p [] cl = cl"
| "classify_lines L g p (l # ls) cl = classify_lines L g p ls (add_line L g p l cl)"

definition median :: "lib \<Rightarrow> int list \<Rightarrow> int" where
  "median L v =
     (let middle = length v div 2; v1 = nth_element L middle v
      in if length v mod 2 = 0
         then let v2 = nth_element L (middle + 1) v1 in (v2 ! (middle - 1) + v2 ! middle) sdiv 2
         else v1 ! middle)"

text \<open>Where a line crosses a height; no value for a horizontal line, \<open>None\<close> if undefined.\<close>

definition cross_x :: "int \<Rightarrow> line \<Rightarrow> int list option" where
  "cross_x height l =
     (let s = line_start l; e = line_end l
      in if fst s = fst e then Some [fst s]
         else if snd s \<noteq> snd e then
           (let k = div64 (fint (snd e - snd s)) (fint (fst e - fst s));
                m = sub64 (fint (snd s)) (mul64 k (fint (fst s)))
            in map_option (\<lambda>x. [x]) (to_int (div64 (sub64 (fint height) m) k)))
         else Some [])"

definition cross_y :: "int \<Rightarrow> line \<Rightarrow> int list option" where
  "cross_y width l =
     (let s = line_start l; e = line_end l
      in if snd s = snd e then Some [snd s]
         else if fst s \<noteq> fst e then
           (let k = div64 (fint (fst e - fst s)) (fint (snd e - snd s));
                m = sub64 (fint (fst s)) (mul64 k (fint (snd s)))
            in map_option (\<lambda>x. [x]) (to_int (div64 (sub64 (fint width) m) k)))
         else Some [])"

fun positions :: "(line \<Rightarrow> int list option) \<Rightarrow> line list \<Rightarrow> int list option" where
  "positions f [] = Some []"
| "positions f (l # ls) = Option.bind (f l) (\<lambda>xs. map_option (\<lambda>ys. xs @ ys) (positions f ls))"

definition line_pos_x :: "lib \<Rightarrow> line list \<Rightarrow> int \<Rightarrow> int option" where
  "line_pos_x L lines height =
     (if lines = [] then Some (- 1)
      else map_option (\<lambda>pos. if pos = [] then - 1 else median L pos) (positions (cross_x height) lines))"

definition line_pos_y :: "lib \<Rightarrow> line list \<Rightarrow> int \<Rightarrow> int option" where
  "line_pos_y L lines width =
     (if lines = [] then Some (- 1)
      else map_option (\<lambda>pos. if pos = [] then - 1 else median L pos) (positions (cross_y width) lines))"

section \<open>A frame\<close>

text \<open>
  The parts of \<open>ip_process\<close>. \<open>lw\<close> is not initialised: \<open>junk\<close> is what it holds unless both
  sides of the lane are seen.
\<close>

definition lane_x :: "globals \<Rightarrow> ip \<Rightarrow> int \<Rightarrow> int \<Rightarrow> int \<Rightarrow> int" where
  "lane_x g p width right_x left_x =
     (let x = (if right_x \<noteq> - 1 \<and> left_x \<noteq> - 1 then (right_x + left_x) sdiv 2
               else if right_x \<noteq> - 1 then right_x - width sdiv 2
               else if left_x \<noteq> - 1 then left_x + width sdiv 2
               else if ignore_right (opt p) then lane_center g - max_lane_error g
               else if ignore_left (opt p) then lane_center g + max_lane_error g
               else fst (lane p))
      in min (max (lane_center g - max_lane_error g) x) (lane_center g + max_lane_error g))"

definition find_lane :: "lib \<Rightarrow> globals \<Rightarrow> int \<Rightarrow> classes \<Rightarrow> ip \<Rightarrow> ip option" where
  "find_lane L g junk cl p =
     Option.bind (line_pos_x L (right_lines cl) (snd (lane p))) (\<lambda>right_x.
     map_option
       (\<lambda>left_x.
         (let lw = (if right_x \<noteq> - 1 \<and> left_x \<noteq> - 1 then right_x - left_x else junk);
              w = min (max (lane_width_min g) lw) (lane_width_max g)
          in p\<lparr>lane_width := w, lane := (lane_x g p w right_x left_x, snd (lane p))\<rparr>))
       (line_pos_x L (left_lines cl) (snd (lane p))))"

text \<open>The direction of a line, upwards.\<close>

definition upwards :: "line \<Rightarrow> point" where
  "upwards l = (let s = line_start l; e = line_end l in if snd e < snd s then pt_sub e s else pt_sub s e)"

definition find_dir :: "globals \<Rightarrow> classes \<Rightarrow> ip \<Rightarrow> ip" where
  "find_dir g cl p =
     (let p1 = (if right_lines cl \<noteq> [] \<or> left_lines cl \<noteq> []
                then let d = foldl (\<lambda>d l. pt_add d (upwards l)) (0, 0) (right_lines cl @ left_lines cl);
                         ld = (fst d, 3 * snd d)
                     in p\<lparr>lane_dir := ld, stop_dir := ((- snd ld) sdiv 2, fst ld sdiv 2)\<rparr>
                else p)
      in if snd (lane_dir p1) = 0 then p1\<lparr>lane_dir := (0, - HEIGHT g)\<rparr> else p1)"

text \<open>The stop line: its position, how certain it is, and whether it has just been passed.\<close>

definition stop_seen :: "globals \<Rightarrow> int \<Rightarrow> ip \<Rightarrow> int \<times> ip" where
  "stop_seen g stop_y p =
     (if stop_y \<noteq> - 1 then
        (stop_y, p\<lparr>stop_diff := max (snd (stop p) - stop_y) 0, stop_vis := stop_vis p + 1,
           stop_valid := (if \<not> stop_valid p
                          then flt (fint stop_y) (add64 (fint (mask_end_y g)) (mul64 (f64 (2 / 10)) (fint (HEIGHT g))))
                          else stop_valid p)\<rparr>)
      else
        let p1 = p\<lparr>stop_vis := stop_vis p - 1\<rparr>
        in if thresh_stop_vis g < stop_vis p1 then (snd (stop p1) + stop_diff p1, p1)
           else (mask_end_y g, p1\<lparr>stop_valid := False\<rparr>))"

definition stop_above :: "globals \<Rightarrow> int \<times> ip \<Rightarrow> int \<times> ip" where
  "stop_above g = (\<lambda>(stop_y, p).
     if stop_y < mask_end_y g then (mask_end_y g, p\<lparr>stop_diff := 0, stop_vis := 0\<rparr>) else (stop_y, p))"

definition stop_below :: "globals \<Rightarrow> int \<times> ip \<Rightarrow> int \<times> ip \<times> bool" where
  "stop_below g = (\<lambda>(stop_y, p).
     if flt (mul64 (f64 (9 / 10)) (fint (HEIGHT g))) (fint stop_y)
     then (mask_end_y g, p\<lparr>stop_diff := 0, stop_vis := 0, stop_valid := False\<rparr>, stop_valid p)
     else (stop_y, p, False))"

definition stop_x :: "ip \<Rightarrow> int" where
  "stop_x p = fst (lane p) + (snd (stop p) - snd (lane p)) sdiv snd (lane_dir p) * fst (lane_dir p)"

definition find_stop :: "lib \<Rightarrow> globals \<Rightarrow> classes \<Rightarrow> ip \<Rightarrow> (ip \<times> bool) option" where
  "find_stop L g cl p =
     (if snd (lane_dir p) = 0 then None
      else
        map_option
          (\<lambda>seen_y.
            (let (stop_y, p1, passed) = stop_below g (stop_above g (stop_seen g seen_y p))
             in (p1\<lparr>stop := (stop_x p, stop_y), stop_vis := min (max (stop_vis p1) 0) (thresh_stop_vis g * 2)\<rparr>, passed)))
          (line_pos_y L (stop_lines cl) (stop_x p)))"

definition ip_result :: "globals \<Rightarrow> classes \<Rightarrow> ip \<Rightarrow> bool \<Rightarrow> ip_res" where
  "ip_result g cl p passed =
     \<lparr>lane_offset = div32 (f32 (of_int (fst (lane p) - lane_center g))) (f32 (of_int (max_lane_error g))),
      stopline_dist = sub32 (f32 1) (div32 (f32 (of_int (snd (stop p)))) (f32 (of_int (HEIGHT g)))),
      stopline_visible = stop_valid p, stopline_passed = passed,
      lane_right_visible = (right_lines cl \<noteq> []), lane_left_visible = (left_lines cl \<noteq> [])\<rparr>"

definition no_lines :: classes where
  "no_lines = \<lparr>right_lines = [], left_lines = [], stop_lines = [], rem_lines = []\<rparr>"

text \<open>An empty frame leaves everything as it is, the caller's result too.\<close>

definition ip_process ::
  "lib \<Rightarrow> globals \<Rightarrow> ip_res \<Rightarrow> int \<Rightarrow> line list option \<Rightarrow> ip \<Rightarrow> (ip \<times> ip_res) option" where
  "ip_process L g res junk frame p =
     (case frame of
        None \<Rightarrow> Some (p, res)
      | Some hough_lines \<Rightarrow>
          (let cl = classify_lines L g p hough_lines no_lines
           in Option.bind (find_lane L g junk cl p) (\<lambda>p1.
              map_option (\<lambda>(p2, passed). (p2, ip_result g cl p2 passed))
                (find_stop L g cl (find_dir g cl p1)))))"

section \<open>Classification\<close>

text \<open>The class of a line by itself.\<close>

datatype line_kind = Stop_kind | Left_kind | Right_kind | Rem_kind

definition kind_of :: "lib \<Rightarrow> globals \<Rightarrow> ip \<Rightarrow> line \<Rightarrow> line_kind" where
  "kind_of L g p l =
     (let s = line_start l; e = line_end l; d = pt_sub e s;
          a = angle L (fst d) (snd d) (fst (lane_dir p)) (snd (lane_dir p)); side = is_side_line g p s e a
      in if \<not> ignore_stop (opt p) \<and> is_stopline L g p s e a then Stop_kind
         else if side = - 1 then (if ignore_left (opt p) then Rem_kind else Left_kind)
         else if side = 1 then (if ignore_right (opt p) then Rem_kind else Right_kind)
         else Rem_kind)"

lemma add_line_kind:
  "add_line L g p l cl =
     (case kind_of L g p l of
        Stop_kind \<Rightarrow> cl\<lparr>stop_lines := stop_lines cl @ [l]\<rparr>
      | Left_kind \<Rightarrow> cl\<lparr>left_lines := left_lines cl @ [l]\<rparr>
      | Right_kind \<Rightarrow> cl\<lparr>right_lines := right_lines cl @ [l]\<rparr>
      | Rem_kind \<Rightarrow> cl\<lparr>rem_lines := rem_lines cl @ [l]\<rparr>)"
proof -
  have "(if \<not> i \<and> st then cl\<lparr>stop_lines := stop_lines cl @ [l]\<rparr>
      else if \<not> il \<and> t = - 1 then cl\<lparr>left_lines := left_lines cl @ [l]\<rparr>
      else if \<not> ir \<and> t = 1 then cl\<lparr>right_lines := right_lines cl @ [l]\<rparr>
      else cl\<lparr>rem_lines := rem_lines cl @ [l]\<rparr>)
    = (case (if \<not> i \<and> st then Stop_kind
             else if t = - 1 then (if il then Rem_kind else Left_kind)
             else if t = 1 then (if ir then Rem_kind else Right_kind) else Rem_kind) of
        Stop_kind \<Rightarrow> cl\<lparr>stop_lines := stop_lines cl @ [l]\<rparr>
      | Left_kind \<Rightarrow> cl\<lparr>left_lines := left_lines cl @ [l]\<rparr>
      | Right_kind \<Rightarrow> cl\<lparr>right_lines := right_lines cl @ [l]\<rparr>
      | Rem_kind \<Rightarrow> cl\<lparr>rem_lines := rem_lines cl @ [l]\<rparr>)" for i st il ir and t :: int
    by (cases "\<not> i \<and> st"; cases "t = - 1"; cases "t = 1"; cases il; cases ir) simp_all
  then show ?thesis unfolding add_line_def kind_of_def Let_def pt_sub_def fst_conv snd_conv .
qed

lemma classify_filters:
  "classify_lines L g p ls cl =
     \<lparr>right_lines = right_lines cl @ filter (\<lambda>l. kind_of L g p l = Right_kind) ls,
      left_lines = left_lines cl @ filter (\<lambda>l. kind_of L g p l = Left_kind) ls,
      stop_lines = stop_lines cl @ filter (\<lambda>l. kind_of L g p l = Stop_kind) ls,
      rem_lines = rem_lines cl @ filter (\<lambda>l. kind_of L g p l = Rem_kind) ls\<rparr>"
proof (induction ls arbitrary: cl)
  case (Cons l ls)
  show ?case unfolding classify_lines.simps Cons add_line_kind by (cases "kind_of L g p l") simp_all
qed simp

lemma kind_not_ignored:
  "ignore_left (opt p) \<Longrightarrow> kind_of L g p l \<noteq> Left_kind" "ignore_right (opt p) \<Longrightarrow> kind_of L g p l \<noteq> Right_kind"
  "ignore_stop (opt p) \<Longrightarrow> kind_of L g p l \<noteq> Stop_kind"
  by (simp_all add: kind_of_def Let_def)

section \<open>The median\<close>

text \<open>What the standard says of \<open>nth_element\<close>: the same elements, the one at the index in its place,
  none greater before it and none smaller behind.\<close>

definition nth_ok :: "(nat \<Rightarrow> int list \<Rightarrow> int list) \<Rightarrow> bool" where
  "nth_ok f \<longleftrightarrow> (\<forall>n v. mset (f n v) = mset v
     \<and> (n < length v \<longrightarrow> (\<forall>x \<in> set (take n (f n v)). x \<le> f n v ! n) \<and> (\<forall>x \<in> set (drop (Suc n) (f n v)). f n v ! n \<le> x)))"

lemma nth_okD:
  assumes "nth_ok f"
  shows "mset (f n v) = mset v" "length (f n v) = length v" "set (f n v) = set v"
    "n < length v \<Longrightarrow> f n v ! n = sort v ! n"
proof -
  show m: "mset (f n v) = mset v" using assms by (simp add: nth_ok_def)
  then show len: "length (f n v) = length v" and "set (f n v) = set v"
    by (metis size_mset, metis set_mset_mset)
  show "f n v ! n = sort v ! n" if n: "n < length v"
  proof -
    let ?w = "f n v" and ?x = "f n v ! n"
    let ?s = "sort (take n ?w) @ ?x # sort (drop (Suc n) ?w)"
    have split: "?w = take n ?w @ ?x # drop (Suc n) ?w" using n len by (simp add: id_take_nth_drop)
    have "\<forall>x \<in> set (take n ?w). x \<le> ?x" "\<forall>x \<in> set (drop (Suc n) ?w). ?x \<le> x"
      using assms n by (simp_all add: nth_ok_def)
    then have "sorted ?s" by (fastforce simp: sorted_append)
    moreover have "mset ?s = mset ?w"
      using arg_cong [OF split, of mset] by (simp only: mset_append mset.simps mset_sort)
    ultimately have "sort v = ?s" using m by (metis properties_for_sort)
    moreover have "length (sort (take n ?w)) = n" using n len by simp
    ultimately show ?thesis by (metis nth_append_length)
  qed
qed

lemma sdiv_two_between: "(a :: int) \<le> x \<Longrightarrow> x \<le> b \<Longrightarrow> a \<le> y \<Longrightarrow> y \<le> b \<Longrightarrow> a \<le> (x + y) sdiv 2 \<and> (x + y) sdiv 2 \<le> b"
  by (auto simp: signed_divide_int_def sgn_if)

text \<open>For an even number of values the result is the mean of two of them.\<close>

lemma median_between:
  assumes "nth_ok (nth_element L)" "v \<noteq> []" "\<forall>x \<in> set v. a \<le> x \<and> x \<le> b"
  shows "a \<le> median L v \<and> median L v \<le> b"
proof -
  let ?m = "length v div 2" and ?v1 = "nth_element L (length v div 2) v"
  let ?v2 = "nth_element L (?m + 1) ?v1"
  have m: "?m < length v" using assms(2) by simp
  have "?v1 ! ?m \<in> set v" "?v2 ! ?m \<in> set v" "?v2 ! (?m - 1) \<in> set v"
    using nth_okD(2,3) [OF assms(1)] m by (metis nth_mem, metis nth_mem, metis nth_mem less_imp_diff_less)
  then show ?thesis
    using assms(3) sdiv_two_between [of a "?v2 ! (?m - 1)" b "?v2 ! ?m"] by (simp add: median_def Let_def)
qed

definition rev_nth :: "nat \<Rightarrow> int list \<Rightarrow> int list" where
  "rev_nth n v = rev (take n (sort v)) @ drop n (sort v)"

lemma nth_ok_rev: "nth_ok rev_nth"
  unfolding nth_ok_def
proof (intro allI conjI impI)
  fix n :: nat and v :: "int list"
  have "mset (take n (sort v)) + mset (drop n (sort v)) = mset (sort v)"
    by (metis append_take_drop_id mset_append)
  then show "mset (rev_nth n v) = mset v" by (simp add: rev_nth_def)
  assume n: "n < length v"
  let ?s = "sort v"
  have s: "?s = take n ?s @ ?s ! n # drop (Suc n) ?s" using n by (simp add: id_take_nth_drop)
  then have "sorted (take n ?s @ ?s ! n # drop (Suc n) ?s)" by (metis sorted_sort)
  then have le: "\<forall>x \<in> set (take n ?s). x \<le> ?s ! n" "\<forall>x \<in> set (drop (Suc n) ?s). ?s ! n \<le> x"
    by (auto simp: sorted_append)
  have "rev_nth n v = rev (take n ?s) @ ?s ! n # drop (Suc n) ?s"
    using n by (simp add: rev_nth_def Cons_nth_drop_Suc)
  moreover have "length (rev (take n ?s)) = n" using n by simp
  ultimately have "rev_nth n v ! n = ?s ! n" "take n (rev_nth n v) = rev (take n ?s)"
    "drop (Suc n) (rev_nth n v) = drop (Suc n) ?s"
    by (simp_all add: nth_append)
  with le show "\<forall>x \<in> set (take n (rev_nth n v)). x \<le> rev_nth n v ! n"
    "\<forall>x \<in> set (drop (Suc n) (rev_nth n v)). rev_nth n v ! n \<le> x"
    by simp_all
qed

section \<open>Crossing\<close>

text \<open>What \<open>intersects\<close> computes: the ends of the second line lie on different sides of the first.\<close>

lemma quotient_between:
  assumes "c \<noteq> (d :: int)"
  shows "of_int (- c) / of_int (c - d) \<le> (0 :: rat) \<and> - 1 \<le> (of_int (- c) / of_int (c - d) :: rat) \<longleftrightarrow> c * d \<le> 0"
proof -
  have sign: "of_int (- c) / of_int e \<le> (0 :: rat) \<longleftrightarrow> 0 \<le> c * e" if "e \<noteq> 0" for e
    using that by (auto simp: zero_le_divide_iff zero_le_mult_iff)
  have "of_int (- c) / of_int (c - d) \<le> (0 :: rat) \<longleftrightarrow> 0 \<le> c * (c - d)"
    using sign [of "c - d"] assms by simp
  moreover have "- 1 \<le> (of_int (- c) / of_int (c - d) :: rat) \<longleftrightarrow> d * (c - d) \<le> 0"
    using assms by (cases "c < d") (auto simp: le_divide_eq mult_le_0_iff)
  moreover have "0 \<le> c * (c - d) \<and> d * (c - d) \<le> 0 \<longleftrightarrow> c * d \<le> 0"
    using assms by (auto simp: zero_le_mult_iff mult_le_0_iff)
  ultimately show ?thesis by blast
qed

lemma intersects_sides:
  assumes "\<bar>cross s1 e1 s2\<bar> \<le> 2 ^ 51" "\<bar>cross s1 e1 e2\<bar> \<le> 2 ^ 51"
  shows "intersects s1 e1 s2 e2 \<longleftrightarrow>
    cross s1 e1 s2 \<noteq> cross s1 e1 e2 \<and> cross s1 e1 s2 * cross s1 e1 e2 \<le> 0"
proof -
  let ?c = "cross s1 e1 s2" and ?d = "cross s1 e1 e2"
  have den: "(fst s1 - fst e1) * (snd s2 - snd e2) - (snd s1 - snd e1) * (fst s2 - fst e2) = ?c - ?d"
    and num: "(fst s1 - fst e1) * (snd s1 - snd s2) - (snd s1 - snd e1) * (fst s1 - fst s2) = - ?c"
    by (simp_all add: cross_def algebra_simps)
  have ed: "fint (?c - ?d) = Fin (of_int (?c - ?d))" and en: "fint (- ?c) = Fin (of_int (- ?c))"
    using assms by (intro fint_exact; simp)+
  show ?thesis
  proof (cases "?c = ?d")
    case True
    then show ?thesis unfolding intersects_def den num ed Let_def by simp
  next
    case False
    let ?q = "of_int (- ?c) / of_int (?c - ?d) :: rat"
    have d: "\<bar>?c - ?d\<bar> \<le> 2 ^ 52" "?c - ?d \<noteq> 0" using assms False by simp_all
    have fin: "is_fin (Fin (of_int (- ?c)))" "is_fin (Fin (of_int (?c - ?d)))" "fval (Fin (of_int (?c - ?d))) \<noteq> 0"
      using False by simp_all
    have neg: "fle (Fin 0) (fneg a) = fle a (Fin 0)" "fle (fneg a) (Fin 1) = fle (Fin (- 1)) a" for a
      by (cases a; auto simp: fle_def)+
    have "intersects s1 e1 s2 e2 \<longleftrightarrow>
        fle (div64 (Fin (of_int (- ?c))) (Fin (of_int (?c - ?d)))) (Fin 0) \<and>
        fle (Fin (- 1)) (div64 (Fin (of_int (- ?c))) (Fin (of_int (?c - ?d))))"
      unfolding intersects_def den num ed en Let_def using False by (simp add: neg)
    also have "\<dots> \<longleftrightarrow> fle (f64 ?q) (Fin 0) \<and> fle (Fin (- 1)) (f64 ?q)"
      unfolding fle_fdiv_fin [OF fin] by simp
    also have "\<dots> \<longleftrightarrow> ?q \<le> 0 \<and> - 1 \<le> ?q"
      by (simp only: quotient_sign [OF d] quotient_one [OF d])
    also have "\<dots> \<longleftrightarrow> ?c * ?d \<le> 0" by (rule quotient_between [OF False])
    finally show ?thesis using False by simp
  qed
qed

section \<open>Where lines cross\<close>

definition in_frame :: "line \<Rightarrow> bool" where
  "in_frame l \<longleftrightarrow> (let (x0, y0, x1, y1) = l in \<forall>c \<in> {x0, y0, x1, y1}. 0 \<le> c \<and> c \<le> 4096)"

lemma to_int_bnd: "bnd j a \<Longrightarrow> j \<le> 30 \<Longrightarrow> \<exists>k. to_int a = Some k \<and> \<bar>k\<bar> \<le> 2 ^ j"
proof -
  assume a: "bnd j a" and j: "j \<le> 30"
  have tr: "\<lfloor>x\<rfloor> \<le> 2 ^ j \<and> 0 \<le> \<lfloor>x\<rfloor>" if "0 \<le> x" "x \<le> 2 ^ j" for x :: rat
    using that floor_mono [of x "2 ^ j"] by simp
  have "\<exists>k. ftrunc a = Some k \<and> \<bar>k\<bar> \<le> 2 ^ j"
    using a tr [of "fval a"] tr [of "- fval a"]
    by (cases "fval a < 0") (auto simp: ftrunc_def bnd_def)
  moreover have "(2 :: int) ^ j \<le> 2 ^ 30" using j by (intro power_increasing) simp_all
  ultimately show ?thesis by (auto simp: to_int_def abs_le_iff)
qed

text \<open>Coordinates up to \<open>2 ^ d\<close>, a height or width up to \<open>2 ^ j\<close>.\<close>

lemma slope_crossing:
  assumes "\<bar>dy\<bar> \<le> 2 ^ d" "\<bar>dx\<bar> \<le> 2 ^ d" "dy \<noteq> 0" "dx \<noteq> 0" "\<bar>sx\<bar> \<le> 2 ^ d" "\<bar>sy\<bar> \<le> 2 ^ d" "\<bar>h\<bar> \<le> 2 ^ j"
    and d: "d < j" "j + d < 30"
    and k: "k = div64 (fint dy) (fint dx)" and m: "m = sub64 (fint sy) (mul64 k (fint sx))"
  shows "\<exists>x. to_int (div64 (sub64 (fint h) m) k) = Some x \<and> \<bar>x\<bar> \<le> 2 ^ (j + d + 1)"
proof -
  let ?q = "of_int dy / of_int dx :: rat"
  have d53: "(2 :: int) ^ d \<le> 2 ^ 53" using d by (intro power_increasing) simp_all
  have q: "k = f64 ?q" unfolding k using assms(1-4) d53 by (simp add: fint_exact fdiv_def Let_def)
  have dx: "0 < (of_int \<bar>dx\<bar> :: rat)" "(of_int \<bar>dx\<bar> :: rat) \<le> 2 ^ d" "1 \<le> (of_int \<bar>dx\<bar> :: rat)"
    and dy: "(of_int \<bar>dy\<bar> :: rat) \<le> 2 ^ d" "1 \<le> (of_int \<bar>dy\<bar> :: rat)"
    using assms(1-4) of_int_le_iff [of "\<bar>dx\<bar>" "2 ^ d", where 'a = rat] of_int_le_iff [of "\<bar>dy\<bar>" "2 ^ d", where 'a = rat]
      of_int_le_iff [of 1 "\<bar>dx\<bar>", where 'a = rat] of_int_le_iff [of 1 "\<bar>dy\<bar>", where 'a = rat]
    by simp_all
  have aq: "\<bar>?q\<bar> = of_int \<bar>dy\<bar> / of_int \<bar>dx\<bar>" by simp
  have lo: "1 / 2 ^ d \<le> \<bar>?q\<bar>" unfolding aq using dx dy by (intro frac_le) simp_all
  have hi: "\<bar>?q\<bar> \<le> 2 ^ d"
  proof -
    have "of_int \<bar>dy\<bar> * 1 \<le> 2 ^ d * (of_int \<bar>dx\<bar> :: rat)" using dx dy by (intro mult_mono) simp_all
    then show ?thesis unfolding aq using dx(1) by (simp add: divide_le_eq)
  qed
  have kd: "bnd d k" unfolding q using hi d by (intro bnd_rnd) simp_all
  then have fin: "is_fin k" "is_fin (f64 ?q)" by (simp_all add: bnd_def q)
  have sx: "bnd d (fint sx)" and sy: "bnd d (fint sy)" and h: "bnd j (fint h)"
    using assms(5-7) d by (intro bnd_fint; simp)+
  have "bnd (j + d + 1) (div64 (sub64 (fint h) m) k)"
  proof (cases "\<bar>?q\<bar> \<le> 1")
    case True
    then have "bnd 0 k" unfolding q by (intro bnd_rnd) simp_all
    from bnd_mul [OF this sx] d have "bnd d (mul64 k (fint sx))" by simp
    from bnd_sub [OF sy this] d have "bnd (Suc d) m" by (simp add: m)
    then have "bnd j m" by (rule bnd_mono) (use d in simp)
    from bnd_sub [OF h this] d have n: "bnd (Suc j) (sub64 (fint h) m)" by simp
    have "1 / 2 ^ d \<le> \<bar>fval k\<bar>" using rnd_not_small [OF lo _ fin(2)] d by (simp add: q)
    from bnd_div [OF n fin(1) this] d show ?thesis by simp
  next
    case False
    from bnd_mul [OF kd sx] d have "bnd (d + d) (mul64 k (fint sx))" by simp
    then have "bnd (j + d - 1) (mul64 k (fint sx))" by (rule bnd_mono) (use d in simp)
    from bnd_sub [OF bnd_mono [OF sy] this] d have "bnd (Suc (j + d - 1)) m" by (simp add: m)
    then have "bnd (j + d) m" using d by simp
    from bnd_sub [OF bnd_mono [OF h] this] d have n: "bnd (Suc (j + d)) (sub64 (fint h) m)" by simp
    have "1 / 2 ^ 0 \<le> \<bar>fval k\<bar>" using rnd_not_small [of 0 ?q, OF _ _ fin(2)] False by (simp add: q)
    from bnd_div [OF n fin(1) this] d show ?thesis by simp
  qed
  from to_int_bnd [OF this] d show ?thesis by simp
qed

definition in_rect :: "int \<Rightarrow> int \<Rightarrow> line \<Rightarrow> bool" where
  "in_rect w h l \<longleftrightarrow>
     (let (x0, y0, x1, y1) = l in 0 \<le> x0 \<and> x0 \<le> w \<and> 0 \<le> x1 \<and> x1 \<le> w \<and> 0 \<le> y0 \<and> y0 \<le> h \<and> 0 \<le> y1 \<and> y1 \<le> h)"

lemma in_frame_rect: "in_frame l \<longleftrightarrow> in_rect (2 ^ 12) (2 ^ 12) l"
  by (auto simp: in_frame_def in_rect_def split: prod.split)

lemma cross_defined:
  assumes "in_rect (2 ^ d) (2 ^ d) l" "\<bar>h\<bar> \<le> 2 ^ j" "d < j" "j + d < 30"
  shows "\<exists>xs. cross_x h l = Some xs \<and> (\<forall>x \<in> set xs. - (2 ^ (j + d + 1)) \<le> x \<and> x \<le> 2 ^ (j + d + 1))"
    and "\<exists>xs. cross_y h l = Some xs \<and> (\<forall>x \<in> set xs. - (2 ^ (j + d + 1)) \<le> x \<and> x \<le> 2 ^ (j + d + 1))"
proof -
  obtain x0 y0 x1 y1 where l: "l = (x0, y0, x1, y1)" by (cases l)
  have b: "0 \<le> x0" "x0 \<le> 2 ^ d" "0 \<le> y0" "y0 \<le> 2 ^ d" "0 \<le> x1" "x1 \<le> 2 ^ d" "0 \<le> y1" "y1 \<le> 2 ^ d"
    using assms(1) by (simp_all add: in_rect_def l)
  have p: "(2 :: int) ^ d \<le> 2 ^ (j + d + 1)" by (rule power_increasing) simp_all
  show "\<exists>xs. cross_x h l = Some xs \<and> (\<forall>x \<in> set xs. - (2 ^ (j + d + 1)) \<le> x \<and> x \<le> 2 ^ (j + d + 1))"
    using b p slope_crossing [of "y1 - y0" d "x1 - x0" x0 y0 h j, OF _ _ _ _ _ _ assms(2-4) refl refl]
    by (auto simp: l cross_x_def Let_def abs_le_iff)
  show "\<exists>xs. cross_y h l = Some xs \<and> (\<forall>x \<in> set xs. - (2 ^ (j + d + 1)) \<le> x \<and> x \<le> 2 ^ (j + d + 1))"
    using b p slope_crossing [of "x1 - x0" d "y1 - y0" y0 x0 h j, OF _ _ _ _ _ _ assms(2-4) refl refl]
    by (auto simp: l cross_y_def Let_def abs_le_iff)
qed

lemma positions_defined:
  assumes "\<And>l. l \<in> set ls \<Longrightarrow> \<exists>xs. f l = Some xs \<and> (\<forall>x \<in> set xs. a \<le> x \<and> x \<le> b)"
  shows "\<exists>xs. positions f ls = Some xs \<and> (\<forall>x \<in> set xs. a \<le> x \<and> x \<le> b)"
  using assms
proof (induction ls)
  case (Cons l ls)
  obtain xs where "f l = Some xs" "\<forall>x \<in> set xs. a \<le> x \<and> x \<le> b" using Cons.prems [of l] by auto
  moreover obtain ys where "positions f ls = Some ys" "\<forall>x \<in> set ys. a \<le> x \<and> x \<le> b"
    using Cons.IH Cons.prems by auto
  ultimately show ?case by auto
qed simp

lemma line_pos_bounded:
  assumes "nth_ok (nth_element L)" "\<forall>l \<in> set ls. in_rect (2 ^ d) (2 ^ d) l" "\<bar>h\<bar> \<le> 2 ^ j" "d < j" "j + d < 30"
  shows "\<exists>x. line_pos_x L ls h = Some x \<and> \<bar>x\<bar> \<le> 2 ^ (j + d + 1)" "\<exists>x. line_pos_y L ls h = Some x \<and> \<bar>x\<bar> \<le> 2 ^ (j + d + 1)"
proof -
  let ?b = "2 ^ (j + d + 1) :: int"
  have one: "(1 :: int) \<le> ?b" by (rule one_le_power) simp
  obtain xs where xs: "positions (cross_x h) ls = Some xs" "\<forall>x \<in> set xs. - ?b \<le> x \<and> x \<le> ?b"
    using positions_defined [of ls "cross_x h" "- ?b" ?b] cross_defined(1) assms(2-5) by blast
  then show "\<exists>x. line_pos_x L ls h = Some x \<and> \<bar>x\<bar> \<le> ?b"
    using median_between [OF assms(1), of xs "- ?b" ?b] one by (auto simp: line_pos_x_def abs_le_iff simp del: power_add)
  obtain ys where ys: "positions (cross_y h) ls = Some ys" "\<forall>x \<in> set ys. - ?b \<le> x \<and> x \<le> ?b"
    using positions_defined [of ls "cross_y h" "- ?b" ?b] cross_defined(2) assms(2-5) by blast
  then show "\<exists>x. line_pos_y L ls h = Some x \<and> \<bar>x\<bar> \<le> ?b"
    using median_between [OF assms(1), of ys "- ?b" ?b] one by (auto simp: line_pos_y_def abs_le_iff simp del: power_add)
qed

section \<open>What a frame keeps\<close>

text \<open>What the constants satisfy for the sizes of a camera.\<close>

definition limit_y :: "globals \<Rightarrow> fp" where
  "limit_y g = mul64 (f64 (9 / 10)) (fint (HEIGHT g))"

definition sane :: "globals \<Rightarrow> bool" where
  "sane g \<longleftrightarrow> lane_width_min g \<le> lane_width_max g \<and> 0 < max_lane_error g \<and> max_lane_error g \<le> 2 ^ 24
     \<and> 0 < HEIGHT g \<and> 0 \<le> thresh_stop_vis g \<and> \<not> flt (limit_y g) (fint (mask_end_y g))
     \<and> fle (add64 (fint (mask_end_y g)) (mul64 (f64 (2 / 10)) (fint (HEIGHT g)))) (limit_y g)"

text \<open>What holds after a frame, and what a frame needs.\<close>

definition ip_good :: "globals \<Rightarrow> ip \<Rightarrow> bool" where
  "ip_good g p \<longleftrightarrow>
     lane_center g - max_lane_error g \<le> fst (lane p) \<and> fst (lane p) \<le> lane_center g + max_lane_error g
     \<and> lane_width_min g \<le> lane_width p \<and> lane_width p \<le> lane_width_max g \<and> snd (lane_dir p) < 0
     \<and> 0 \<le> stop_vis p \<and> stop_vis p \<le> 2 * thresh_stop_vis g \<and> 0 \<le> stop_diff p
     \<and> mask_end_y g \<le> snd (stop p) \<and> \<not> flt (limit_y g) (fint (snd (stop p)))"

definition ip_pre :: "ip \<Rightarrow> bool" where
  "ip_pre p \<longleftrightarrow> snd (lane_dir p) < 0 \<and> 0 \<le> stop_diff p"

lemma find_lane_result:
  assumes "find_lane L g junk cl p = Some p1" "sane g"
  shows "lane_center g - max_lane_error g \<le> fst (lane p1)" "fst (lane p1) \<le> lane_center g + max_lane_error g"
    "lane_width_min g \<le> lane_width p1" "lane_width p1 \<le> lane_width_max g"
    "lane_dir p1 = lane_dir p" "stop p1 = stop p" "stop_diff p1 = stop_diff p" "stop_vis p1 = stop_vis p"
    "stop_valid p1 = stop_valid p" "opt p1 = opt p" "snd (lane p1) = snd (lane p)"
proof -
  obtain rx lx w where p1: "p1 = p\<lparr>lane_width := min (max (lane_width_min g) w) (lane_width_max g),
      lane := (lane_x g p (min (max (lane_width_min g) w) (lane_width_max g)) rx lx, snd (lane p))\<rparr>"
    using assms(1) by (auto simp only: find_lane_def Let_def bind_eq_Some_conv map_option_eq_Some)
  have "lane_center g - max_lane_error g \<le> lane_x g p v rx lx \<and> lane_x g p v rx lx \<le> lane_center g + max_lane_error g" for v
    unfolding lane_x_def Let_def using assms(2) by (simp add: sane_def del: max.absorb1 min.absorb1)
  then show "lane_center g - max_lane_error g \<le> fst (lane p1)" "fst (lane p1) \<le> lane_center g + max_lane_error g"
    "lane_width_min g \<le> lane_width p1" "lane_width p1 \<le> lane_width_max g"
    "lane_dir p1 = lane_dir p" "stop p1 = stop p" "stop_diff p1 = stop_diff p" "stop_vis p1 = stop_vis p"
    "stop_valid p1 = stop_valid p" "opt p1 = opt p" "snd (lane p1) = snd (lane p)"
    using assms(2) unfolding p1 by (simp_all add: sane_def)
qed

lemma find_lane_empty:
  "find_lane L g junk no_lines p =
     (let w = min (max (lane_width_min g) junk) (lane_width_max g)
      in Some (p\<lparr>lane_width := w, lane := (lane_x g p w (- 1) (- 1), snd (lane p))\<rparr>))"
  by (simp add: find_lane_def no_lines_def line_pos_x_def Let_def)

lemma upwards_up: "snd (upwards l) \<le> 0"
  by (auto simp: upwards_def Let_def pt_sub_def)

lemma foldl_up: "snd d \<le> 0 \<Longrightarrow> snd (foldl (\<lambda>d l. pt_add d (upwards l)) d ls) \<le> 0"
proof (induction ls arbitrary: d)
  case (Cons l ls)
  have "snd (pt_add d (upwards l)) \<le> 0" using Cons.prems upwards_up [of l] by (simp add: pt_add_def)
  then show ?case using Cons.IH by simp
qed simp

lemma find_dir_result:
  "snd (lane_dir p) < 0 \<Longrightarrow> 0 < HEIGHT g \<Longrightarrow> snd (lane_dir (find_dir g cl p)) < 0"
  "lane (find_dir g cl p) = lane p" "lane_width (find_dir g cl p) = lane_width p" "stop (find_dir g cl p) = stop p"
  "stop_diff (find_dir g cl p) = stop_diff p" "stop_vis (find_dir g cl p) = stop_vis p"
  "stop_valid (find_dir g cl p) = stop_valid p" "opt (find_dir g cl p) = opt p"
  using foldl_up [of "(0, 0)" "right_lines cl @ left_lines cl"]
  by (auto simp: find_dir_def Let_def)

lemma stop_seen_frame:
  assumes "stop_seen g y p = (y', p')"
  shows "lane p' = lane p" "lane_width p' = lane_width p" "lane_dir p' = lane_dir p" "opt p' = opt p"
    "0 \<le> stop_diff p \<Longrightarrow> 0 \<le> stop_diff p'"
  using assms by (auto simp: stop_seen_def Let_def split: if_splits)

lemma stop_above_lane [simp]: "lane (snd (stop_above g x)) = lane (snd x)"
  by (simp add: stop_above_def split_beta)

lemma stop_below_lane [simp]: "lane (fst (snd (stop_below g x))) = lane (snd x)"
  by (simp add: stop_below_def split_beta)

lemma stop_seen_lane [simp]: "lane (snd (stop_seen g y p)) = lane p"
  using stop_seen_frame(1) [of g y p "fst (stop_seen g y p)" "snd (stop_seen g y p)"] by simp

lemma find_stop_lane: "find_stop L g cl p = Some (p', passed) \<Longrightarrow> lane p' = lane p"
  by (auto simp: find_stop_def split_beta split: if_splits)

lemma find_stop_result:
  assumes "find_stop L g cl p = Some (p', passed)" "sane g" "0 \<le> stop_diff p"
  shows "lane p' = lane p" "lane_width p' = lane_width p" "lane_dir p' = lane_dir p" "opt p' = opt p"
    and "0 \<le> stop_diff p'" "0 \<le> stop_vis p'" "stop_vis p' \<le> 2 * thresh_stop_vis g" "mask_end_y g \<le> snd (stop p')"
    and "\<not> flt (limit_y g) (fint (snd (stop p')))" "passed \<Longrightarrow> stop_valid p \<and> \<not> stop_valid p'"
proof -
  obtain y0 where y0: "line_pos_y L (stop_lines cl) (stop_x p) = Some y0"
    using assms(1) by (auto simp: find_stop_def split: if_splits)
  obtain y1 p1 where s1: "stop_seen g y0 p = (y1, p1)" by force
  obtain y2 p2 where s2: "stop_above g (y1, p1) = (y2, p2)" by force
  obtain y3 p3 pa where s3: "stop_below g (y2, p2) = (y3, p3, pa)" by (metis prod.exhaust)
  have r: "p' = p3\<lparr>stop := (stop_x p, y3), stop_vis := min (max (stop_vis p3) 0) (thresh_stop_vis g * 2)\<rparr>" "passed = pa"
    using assms(1) y0 s1 s2 s3 by (auto simp: find_stop_def split: if_splits)
  note f1 = stop_seen_frame [OF s1]
  have f2: "lane p2 = lane p1 \<and> lane_width p2 = lane_width p1 \<and> lane_dir p2 = lane_dir p1 \<and> opt p2 = opt p1
      \<and> stop_valid p2 = stop_valid p1 \<and> (0 \<le> stop_diff p1 \<longrightarrow> 0 \<le> stop_diff p2) \<and> mask_end_y g \<le> y2 \<and> (y2 = y1 \<or> y2 = mask_end_y g)"
    using s2 by (auto simp: stop_above_def split: if_splits)
  have me: "\<not> flt (limit_y g) (fint (mask_end_y g))" using assms(2) by (simp add: sane_def)
  have f3: "lane p3 = lane p2 \<and> lane_width p3 = lane_width p2 \<and> lane_dir p3 = lane_dir p2 \<and> opt p3 = opt p2
      \<and> (0 \<le> stop_diff p2 \<longrightarrow> 0 \<le> stop_diff p3) \<and> mask_end_y g \<le> y3 \<and> \<not> flt (limit_y g) (fint y3)
      \<and> (pa \<longrightarrow> flt (limit_y g) (fint y2) \<and> stop_valid p2 \<and> \<not> stop_valid p3)"
    using s3 f2 me by (auto simp: stop_below_def limit_y_def split: if_splits)
  show "lane p' = lane p" "lane_width p' = lane_width p" "lane_dir p' = lane_dir p" "opt p' = opt p"
    using f1 f2 f3 by (simp_all add: r)
  show "0 \<le> stop_diff p'" using f1 f2 f3 assms(3) by (simp add: r)
  have "0 \<le> thresh_stop_vis g" using assms(2) by (simp add: sane_def)
  then show "0 \<le> stop_vis p'" "stop_vis p' \<le> 2 * thresh_stop_vis g" by (simp_all add: r)
  show "mask_end_y g \<le> snd (stop p')" "\<not> flt (limit_y g) (fint (snd (stop p')))" using f3 by (simp_all add: r)
  show "stop_valid p \<and> \<not> stop_valid p'" if "passed"
  proof -
    from that r f3 have p: "flt (limit_y g) (fint y2)" "stop_valid p2" "\<not> stop_valid p3" by auto
    with f2 me have "y2 = y1" "stop_valid p1" by auto
    moreover have "\<not> flt (fint y1) (add64 (fint (mask_end_y g)) (mul64 (f64 (2 / 10)) (fint (HEIGHT g))))"
    proof
      assume "flt (fint y1) (add64 (fint (mask_end_y g)) (mul64 (f64 (2 / 10)) (fint (HEIGHT g))))"
      then have "fle (fint y1) (limit_y g)" using assms(2) fle_trans flt_imp_fle unfolding sane_def by blast
      then show False using p(1) \<open>y2 = y1\<close> by (simp add: flt_def)
    qed
    ultimately have "stop_valid p" using s1 by (auto simp: stop_seen_def Let_def split: if_splits)
    with p(3) show ?thesis by (simp add: r)
  qed
qed

lemma ip_process_parts:
  assumes "ip_process L g res junk (Some ls) p = Some (p', r)"
  obtains p1 passed where "find_lane L g junk (classify_lines L g p ls no_lines) p = Some p1"
    "find_stop L g (classify_lines L g p ls no_lines) (find_dir g (classify_lines L g p ls no_lines) p1) = Some (p', passed)"
    "r = ip_result g (classify_lines L g p ls no_lines) p' passed"
  using assms by (auto simp: ip_process_def Let_def bind_eq_Some_conv)

lemma process_good:
  assumes "ip_process L g res junk (Some ls) p = Some (p', r)" "sane g" "ip_pre p"
  shows "ip_good g p'"
  using assms(1)
proof (rule ip_process_parts)
  let ?cl = "classify_lines L g p ls no_lines"
  fix p1 passed
  assume 1: "find_lane L g junk ?cl p = Some p1" and 2: "find_stop L g ?cl (find_dir g ?cl p1) = Some (p', passed)"
  note l = find_lane_result [OF 1 assms(2)]
  note d = find_dir_result [where p = p1 and g = g and cl = ?cl]
  have "0 \<le> stop_diff (find_dir g ?cl p1)" using l d assms(3) by (simp add: ip_pre_def)
  note s = find_stop_result [OF 2 assms(2) this]
  have "0 < HEIGHT g" using assms(2) by (simp add: sane_def)
  then show ?thesis using l d s assms(3) by (simp add: ip_good_def ip_pre_def)
qed

lemma good_pre: "ip_good g p \<Longrightarrow> ip_pre p"
  by (simp add: ip_good_def ip_pre_def)

section \<open>Runs\<close>

definition undefined_res :: ip_res where
  "undefined_res = \<lparr>lane_offset = NaN, stopline_dist = NaN, stopline_visible = False, stopline_passed = False,
     lane_right_visible = False, lane_left_visible = False\<rparr>"

text \<open>Frames as the objective processes them: options are set after each.\<close>

fun ip_run :: "lib \<Rightarrow> globals \<Rightarrow> ip \<Rightarrow> (int \<times> line list option \<times> ip_opt) list \<Rightarrow> ip option" where
  "ip_run L g p [] = Some p"
| "ip_run L g p ((junk, frame, op) # fs) =
     (case ip_process L g undefined_res junk frame p of
        None \<Rightarrow> None
      | Some (p', r) \<Rightarrow> ip_run L g (ip_set_opt op p') fs)"

lemma ip_run_snoc:
  "ip_run L g p (fs @ [(junk, frame, op)]) =
     Option.bind (ip_run L g p fs)
       (\<lambda>q. map_option (\<lambda>(p', r). ip_set_opt op p') (ip_process L g undefined_res junk frame q))"
  by (induction fs arbitrary: p) (auto split: option.split prod.split)

lemma run_pre: "ip_run L g p fs = Some p' \<Longrightarrow> sane g \<Longrightarrow> ip_pre p \<Longrightarrow> ip_pre p'"
proof (induction L g p fs rule: ip_run.induct)
  case (2 L g p junk frame op fs)
  then obtain q r where q: "ip_process L g undefined_res junk frame p = Some (q, r)" "ip_run L g (ip_set_opt op q) fs = Some p'"
    by (auto split: option.splits)
  have "ip_pre q"
  proof (cases frame)
    case None
    with q(1) 2(4) show ?thesis by (simp add: ip_process_def)
  next
    case (Some ls)
    with q(1) show ?thesis using good_pre [OF process_good [OF _ 2(3,4)]] by simp
  qed
  then have "ip_pre (ip_set_opt op q)" by (simp add: ip_pre_def ip_set_opt_def)
  with 2(1) [OF q(1) refl q(2)] 2(3) show ?case by simp
qed simp

section \<open>The steering error\<close>

lemma rnd_neg: "x \<noteq> 0 \<Longrightarrow> rnd p em (- x) = fneg (rnd p em x)"
  using pow2_pos [of "em + 1"] by (cases "0 < x") (auto simp: rnd_def smag_def Let_def simp del: pow2_pos)

lemma f32_whole:
  assumes "0 < n" "n \<le> 2 ^ 24"
  shows "is_fin (f32 (of_int n))" "1 \<le> fval (f32 (of_int n))"
proof -
  have e: "f32 1 = Fin 1" "f32 (2 ^ 24) = Fin (2 ^ 24)" by code_simp+
  have "fle (f32 1) (f32 (of_int n))" "fle (f32 (of_int n)) (f32 (2 ^ 24))"
    using assms of_int_le_iff [of n "2 ^ 24", where 'a = rat] by (intro rnd_mono; simp)+
  then show "is_fin (f32 (of_int n))" "1 \<le> fval (f32 (of_int n))"
    unfolding e by (auto dest: fle_between_fin)
qed

lemma offset_bounded:
  assumes "0 < e" "e \<le> 2 ^ 24" "- e \<le> x" "x \<le> e"
  shows "fle (Fin (- 1)) (div32 (f32 (of_int x)) (f32 (of_int e)))" "fle (div32 (f32 (of_int x)) (f32 (of_int e))) (Fin 1)"
proof -
  let ?x = "f32 (of_int x)" and ?e = "f32 (of_int e)"
  have one: "f32 1 = Fin 1" "f32 (- 1) = Fin (- 1)" by code_simp+
  note e = f32_whole [OF assms(1,2)]
  have le: "fle ?x ?e" "fle (f32 (of_int (- e))) ?x" using assms by (intro rnd_mono; simp)+
  moreover have "f32 (of_int (- e)) = fneg ?e" using rnd_neg [of "of_int e" 24 127] assms(1) by simp
  ultimately have x: "is_fin ?x" "fval ?x \<le> fval ?e" "- fval ?e \<le> fval ?x"
    using e by (auto simp: fle_def)
  have "fval ?e \<noteq> 0" using e by simp
  note q = fle_fdiv_fin [OF x(1) e(1) this]
  have b: "- 1 \<le> fval ?x / fval ?e" "fval ?x / fval ?e \<le> 1" using x e by (simp_all add: divide_le_eq le_divide_eq)
  show "fle (Fin (- 1)) (div32 ?x ?e)" "fle (div32 ?x ?e) (Fin 1)"
    using rnd_mono [OF b(1), of 24 127] rnd_mono [OF b(2), of 24 127] unfolding one q by simp_all
qed

lemma offset_full:
  assumes "0 < e" "e \<le> 2 ^ 24"
  shows "div32 (f32 (of_int e)) (f32 (of_int e)) = Fin 1" "div32 (f32 (of_int (- e))) (f32 (of_int e)) = Fin (- 1)"
proof -
  have one: "f32 1 = Fin 1" "f32 (- 1) = Fin (- 1)" by code_simp+
  note e = f32_whole [OF assms]
  have n: "f32 (of_int (- e)) = fneg (f32 (of_int e))" using rnd_neg [of "of_int e" 24 127] assms(1) by simp
  show "div32 (f32 (of_int e)) (f32 (of_int e)) = Fin 1" "div32 (f32 (of_int (- e))) (f32 (of_int e)) = Fin (- 1)"
    unfolding n using e one by (simp_all add: fdiv_def Let_def)
qed

lemma process_offset:
  assumes "ip_process L g res junk (Some ls) p = Some (p', r)" "sane g" "ip_pre p"
  shows "fle (Fin (- 1)) (lane_offset r) \<and> fle (lane_offset r) (Fin 1)"
proof -
  have "ip_good g p'" by (rule process_good [OF assms])
  then have "- max_lane_error g \<le> fst (lane p') - lane_center g" "fst (lane p') - lane_center g \<le> max_lane_error g"
    by (simp_all add: ip_good_def)
  moreover have "0 < max_lane_error g" "max_lane_error g \<le> 2 ^ 24" using assms(2) by (simp_all add: sane_def)
  moreover obtain cl passed where "r = ip_result g cl p' passed" using assms(1) by (blast elim: ip_process_parts)
  ultimately show ?thesis
    using offset_bounded [of "max_lane_error g" "fst (lane p') - lane_center g"] by (simp add: ip_result_def)
qed

section \<open>Properties\<close>

text \<open>C28. The lines of a frame are distributed over four classes: each line is in exactly one of
  them, in the order of the frame, and a side that is to be ignored gets none.\<close>

theorem classify_partitions:
  "let cl = classify_lines L g p ls no_lines
   in mset ls = mset (right_lines cl) + mset (left_lines cl) + mset (stop_lines cl) + mset (rem_lines cl)
      \<and> right_lines cl = filter (\<lambda>l. kind_of L g p l = Right_kind) ls
      \<and> left_lines cl = filter (\<lambda>l. kind_of L g p l = Left_kind) ls
      \<and> stop_lines cl = filter (\<lambda>l. kind_of L g p l = Stop_kind) ls
      \<and> (ignore_left (opt p) \<longrightarrow> left_lines cl = []) \<and> (ignore_right (opt p) \<longrightarrow> right_lines cl = [])"
proof -
  have "mset ls = mset (filter (\<lambda>l. k l = Right_kind) ls) + mset (filter (\<lambda>l. k l = Left_kind) ls)
      + mset (filter (\<lambda>l. k l = Stop_kind) ls) + mset (filter (\<lambda>l. k l = Rem_kind) ls)" for k
  proof (induction ls)
    case (Cons l ls)
    then show ?case by (cases "k l") simp_all
  qed simp
  then show ?thesis
    unfolding Let_def classify_filters no_lines_def using kind_not_ignored by (auto simp: filter_empty_conv)
qed

text \<open>Of an odd number of positions the middle one in order is taken, whatever order
  \<open>nth_element\<close> leaves the others in.\<close>

theorem median_odd:
  assumes "nth_ok (nth_element L)" "odd (length v)"
  shows "median L v = sort v ! (length v div 2)"
proof -
  have "length v div 2 < length v" using assms(2) by (cases v) auto
  then show ?thesis
    using nth_okD(4) [OF assms(1)] assms(2) by (simp add: median_def Let_def odd_iff_mod_2_eq_one)
qed

text \<open>Of an even number it is not the median: the second call of \<open>nth_element\<close> looks for the
  element behind the middle instead of the one before it, and leaves the two that are read in
  no particular order. An implementation within the standard makes 5 of 0, 10, 20, 30.\<close>

theorem median_even_wrong:
  "nth_ok rev_nth \<and> median \<lparr>acos_d = a, cv_norm = n, nth_element = rev_nth\<rparr> [0, 10, 20, 30] = 5
    \<and> (sort [0, 10, 20, 30] ! 1 + sort [0, 10, 20, 30] ! 2) sdiv 2 = (15 :: int)"
proof -
  have "median \<lparr>acos_d = a, cv_norm = n, nth_element = rev_nth\<rparr> [0, 10, 20, 30] = 5"
    by code_simp
  then show ?thesis using nth_ok_rev by simp
qed

text \<open>C29. \<open>intersects\<close>, with its rounded quotient, is exact for the coordinates of a frame: it says
  whether the ends of the second line lie on different sides of the first, or one on it.\<close>

theorem intersects_exact:
  assumes "\<forall>c \<in> {fst s1, snd s1, fst e1, snd e1, fst s2, snd s2, fst e2, snd e2}. \<bar>c\<bar> \<le> 2 ^ 20"
  shows "intersects s1 e1 s2 e2 \<longleftrightarrow>
    cross s1 e1 s2 \<noteq> cross s1 e1 e2 \<and> cross s1 e1 s2 * cross s1 e1 e2 \<le> 0"
proof -
  have m: "\<bar>a * b\<bar> \<le> 2 ^ 42" if "\<bar>a\<bar> \<le> 2 ^ 21" "\<bar>b\<bar> \<le> 2 ^ 21" for a b :: int
    using mult_mono [OF that] by (simp add: abs_mult)
  have sub: "\<bar>a - b\<bar> \<le> 2 ^ 51" if "\<bar>a\<bar> \<le> 2 ^ 42" "\<bar>b\<bar> \<le> 2 ^ 42" for a b :: int
    using that by (simp add: abs_le_iff)
  have d: "\<bar>a - b\<bar> \<le> 2 ^ 21" if "\<bar>a\<bar> \<le> 2 ^ 20" "\<bar>b\<bar> \<le> 2 ^ 20" for a b :: int
    using that by (simp add: abs_le_iff)
  have "\<bar>cross s1 e1 q\<bar> \<le> 2 ^ 51" if "\<bar>fst q\<bar> \<le> 2 ^ 20" "\<bar>snd q\<bar> \<le> 2 ^ 20" for q
  proof -
    have "\<bar>(fst q - fst s1) * (snd e1 - snd s1)\<bar> \<le> 2 ^ 42" "\<bar>(snd q - snd s1) * (fst e1 - fst s1)\<bar> \<le> 2 ^ 42"
      using assms that by (intro m d; simp)+
    then show ?thesis unfolding cross_def by (rule sub)
  qed
  then show ?thesis using assms by (intro intersects_sides) simp_all
qed

text \<open>The position of a line at a height or width is always defined: no division by zero, no
  conversion out of the range of \<open>int\<close>, and a result the later arithmetic cannot overflow
  with, for frames up to 4096 by 4096.\<close>

theorem line_position_defined:
  assumes "nth_ok (nth_element L)" "\<forall>l \<in> set ls. in_frame l" "\<bar>h\<bar> \<le> 2 ^ 16"
  shows "(\<exists>x. line_pos_x L ls h = Some x \<and> \<bar>x\<bar> \<le> 2 ^ 29) \<and> (\<exists>y. line_pos_y L ls h = Some y \<and> \<bar>y\<bar> \<le> 2 ^ 29)"
  using line_pos_bounded [where d = 12 and j = 16, OF assms(1) _ assms(3)] assms(2) by (simp add: in_frame_rect)

text \<open>C5. Whatever frames came, seen or unseen lines, with whatever garbage in the uninitialised lane
  width, after each frame the lane is within its limits, its direction points up, so the
  division by it is defined, and the stop line is inside the masked part of the picture.\<close>

theorem ip_frame_invariant:
  assumes "ip_run L g (ip_reset g p0) (fs @ [(junk, Some ls, op)]) = Some p" "sane g"
  shows "ip_good g p"
proof -
  obtain q p' r where q: "ip_run L g (ip_reset g p0) fs = Some q"
    and p': "ip_process L g undefined_res junk (Some ls) q = Some (p', r)" "p = ip_set_opt op p'"
    using assms(1) by (auto simp: ip_run_snoc bind_eq_Some_conv)
  have "ip_pre (ip_reset g p0)" by (simp add: ip_pre_def ip_reset_def)
  from run_pre [OF q assms(2) this] have "ip_good g p'" by (rule process_good [OF p'(1) assms(2)])
  then show ?thesis by (simp add: p'(2) ip_good_def ip_set_opt_def)
qed

text \<open>C8. A stop line is reported as passed only if the frame before reported it as visible, and
  the frame that reports it reports none visible: two frames in a row never both report a
  stop line passed.\<close>

theorem stopline_passed_once:
  assumes "ip_process L g res junk (Some ls) p = Some (p', r)" "stopline_passed r" "sane g" "0 \<le> stop_diff p"
  shows "stop_valid p \<and> \<not> stop_valid p' \<and> \<not> stopline_visible r"
  using assms(1)
proof (rule ip_process_parts)
  let ?cl = "classify_lines L g p ls no_lines"
  fix p1 passed
  assume 1: "find_lane L g junk ?cl p = Some p1" and 2: "find_stop L g ?cl (find_dir g ?cl p1) = Some (p', passed)"
    and r: "r = ip_result g ?cl p' passed"
  note l = find_lane_result [OF 1 assms(3)]
  note d = find_dir_result [where p = p1 and g = g and cl = ?cl]
  have "0 \<le> stop_diff (find_dir g ?cl p1)" using l d assms(4) by simp
  from find_stop_result(10) [OF 2 assms(3) this] show ?thesis
    using assms(2) l d r by (simp add: ip_result_def)
qed

text \<open>The steering error the objective regulates is between -1 and 1 after every frame.\<close>

theorem lane_offset_bounded:
  assumes "ip_process L g res junk (Some ls) p = Some (p', r)" "sane g" "ip_pre p"
  shows "fle (Fin (- 1)) (lane_offset r) \<and> fle (lane_offset r) (Fin 1)"
  by (rule process_offset [OF assms])

text \<open>A turn without sight: with no line in the picture and one side ignored, the error is
  full towards the ignored side's opposite, 1 when the left is ignored and -1 when the right is.\<close>

theorem blind_turn:
  assumes "ip_process L g res junk (Some []) p = Some (p', r)" "sane g"
    and "ignore_left (opt p) \<noteq> ignore_right (opt p)"
  shows "lane_offset r = (if ignore_left (opt p) then Fin 1 else Fin (- 1))"
  using assms(1)
proof (rule ip_process_parts)
  let ?cl = "classify_lines L g p [] no_lines"
  fix p1 passed
  assume 1: "find_lane L g junk ?cl p = Some p1" and 2: "find_stop L g ?cl (find_dir g ?cl p1) = Some (p', passed)"
    and r: "r = ip_result g ?cl p' passed"
  have e: "0 < max_lane_error g" "max_lane_error g \<le> 2 ^ 24" using assms(2) by (simp_all add: sane_def)
  obtain w where "fst (lane p1) = lane_x g p w (- 1) (- 1)"
    using 1 unfolding classify_lines.simps find_lane_empty Let_def by force
  moreover have "lane_x g p w (- 1) (- 1) =
      lane_center g + (if ignore_left (opt p) then max_lane_error g else - max_lane_error g)"
    using assms(3) e(1) by (cases "ignore_left (opt p)") (simp_all add: lane_x_def)
  ultimately have "fst (lane p1) = lane_center g + (if ignore_left (opt p) then max_lane_error g else - max_lane_error g)"
    by simp
  moreover have "lane p' = lane p1"
    using find_stop_lane [OF 2] find_dir_result(2) [of g ?cl p1] by simp
  ultimately show ?thesis
    using offset_full [OF e] by (simp add: r ip_result_def)
qed

text \<open>The lane width is garbage unless both sides are seen: it is whatever the uninitialised
  variable holds, cut to the limits, and not the width that was measured before.\<close>

theorem lane_width_uninitialised:
  assumes "find_lane L g junk cl p = Some p1" "line_pos_x L (left_lines cl) (snd (lane p)) = Some (- 1)"
  shows "lane_width p1 = min (max (lane_width_min g) junk) (lane_width_max g)"
  using assms by (auto simp: find_lane_def Let_def bind_eq_Some_conv)

text \<open>The prediction of an unseen stop line stands still: a line that has come closer leaves no
  movement to extrapolate, and while no line is seen it neither moves down nor is passed.\<close>

theorem unseen_stopline_stays:
  assumes "stop_seen g y p = (y', q)" "y \<noteq> - 1" "snd (stop p) \<le> y"
    and "find_stop L g cl (q\<lparr>stop := (x, y)\<rparr>) = Some (q', passed)" "stop_lines cl = []" "sane g"
    and "mask_end_y g \<le> y" "\<not> flt (limit_y g) (fint y)"
  shows "stop_diff q = 0 \<and> snd (stop q') \<in> {y, mask_end_y g} \<and> \<not> passed"
proof -
  have "stop_diff q = 0" using assms(1-3) by (auto simp: stop_seen_def)
  moreover have "\<not> flt (limit_y g) (fint (mask_end_y g))" using assms(6) by (simp add: sane_def)
  ultimately show ?thesis
    using assms(4,5,7,8)
    by (auto simp: find_stop_def line_pos_y_def stop_seen_def stop_above_def stop_below_def Let_def limit_y_def
        split: if_splits)
qed

section \<open>Witnesses\<close>

text \<open>The camera's default size, a library, and a stop line that has almost been reached.\<close>

definition demo_g :: globals where
  "demo_g =
     \<lparr>WIDTH = 256, HEIGHT = 144, thresh_value = 20, thresh_type = 6, hough_threshold = 7, line_min_length = 20,
      line_max_gap = 40, mask_width_top = 140, mask_start_y = 129, mask_end_y = 72,
      thresh_angle_lane = Fin (7906077 / 8388608), thresh_angle_stop = Fin (7906077 / 8388608),
      max_stop_diff = 28, weight_lt = f64 (3 / 10), weight_lw = f64 (6 / 100), weight_lx = f64 1, weight_sd = f64 (6 / 10),
      thresh_stop_vis = 10, lane_center = 122, max_lane_error = 102, lane_width_min = 115, lane_width_max = 192\<rparr>"

lemma part_values:
  "part (55 / 100) 256 = 140" "part (9 / 10) 144 = 129" "part (5 / 10) 144 = 72" "part (2 / 10) 144 = 28"
  "part (48 / 100) 256 = 122" "part (4 / 10) 256 = 102" "part (45 / 100) 256 = 115" "part (75 / 100) 256 = 192"
  "fconv 24 127 (mul64 (f64 (3 / 10)) CV_PI) = Fin (7906077 / 8388608)"
  by code_simp+

lemma demo_g_constants: "set_constants globals_init = demo_g"
  unfolding set_constants_def globals_init_def globals.simps part_values demo_g_def by (rule refl)

definition demo_L :: lib where
  "demo_L = \<lparr>acos_d = (\<lambda>x. Fin 1), cv_norm = (\<lambda>p. fint (\<bar>fst p\<bar> + \<bar>snd p\<bar>)), nth_element = (\<lambda>n v. sort v)\<rparr>"

definition demo_p :: ip where
  "demo_p = (ip_reset demo_g ip_calloc)\<lparr>stop := (122, 125), stop_valid := True, stop_vis := 5\<rparr>"

lemma demo_values:
  "mask_end_y demo_g = 72" "HEIGHT demo_g = 144" "lane_width_min demo_g = 115" "lane_width_max demo_g = 192"
  "lane_center demo_g = 122" "max_lane_error demo_g = 102" "thresh_stop_vis demo_g = 10"
  by (simp_all add: demo_g_def)

lemma demo_sane: "sane demo_g"
proof -
  have "\<not> flt (mul64 (f64 (9 / 10)) (fint 144)) (fint 72)"
    "fle (add64 (fint 72) (mul64 (f64 (2 / 10)) (fint 144))) (mul64 (f64 (9 / 10)) (fint 144))"
    by code_simp+
  then show ?thesis by (simp only: sane_def limit_y_def demo_values) simp
qed

lemma demo_nth: "nth_ok (nth_element demo_L)"
proof -
  have "(\<forall>x \<in> set (take n (sort v)). x \<le> sort v ! n) \<and> (\<forall>x \<in> set (drop (Suc n) (sort v)). sort v ! n \<le> x)"
    if "n < length v" for n and v :: "int list"
  proof -
    have "sort v = take n (sort v) @ sort v ! n # drop (Suc n) (sort v)" using that by (simp add: id_take_nth_drop)
    then have "sorted (take n (sort v) @ sort v ! n # drop (Suc n) (sort v))" by (metis sorted_sort)
    then show ?thesis by (auto simp: sorted_append)
  qed
  then show ?thesis by (simp add: nth_ok_def demo_L_def)
qed

lemma empty_frame:
  "snd (lane_dir p) \<noteq> 0 \<Longrightarrow> \<exists>p' r. ip_process L g res junk (Some []) p = Some (p', r)"
  by (simp add: ip_process_def find_lane_def no_lines_def line_pos_x_def find_dir_def find_stop_def line_pos_y_def
      Let_def split_beta)

theorem classify_partitions_witness:
  "left_lines (classify_lines demo_L demo_g (demo_p\<lparr>opt := \<lparr>ignore_right = False, ignore_left = True, ignore_stop = False\<rparr>\<rparr>)
     [(60, 120, 80, 80), (200, 120, 180, 80)] no_lines) = []"
proof -
  let ?p = "demo_p\<lparr>opt := \<lparr>ignore_right = False, ignore_left = True, ignore_stop = False\<rparr>\<rparr>"
  have "ignore_left (opt ?p) \<longrightarrow>
      left_lines (classify_lines demo_L demo_g ?p [(60, 120, 80, 80), (200, 120, 180, 80)] no_lines) = []"
    using classify_partitions [of demo_L demo_g ?p "[(60, 120, 80, 80), (200, 120, 180, 80)]"]
    unfolding Let_def by blast
  then show ?thesis by (rule mp) simp
qed

theorem median_odd_witness: "median demo_L [3, 1, 2] = 2"
  using median_odd [OF demo_nth, of "[3, 1, 2]"] by simp

theorem intersects_exact_witness: "intersects (122, 72) (122, 71) (100, 132) (150, 132)"
  using intersects_exact [of "(122, 72)" "(122, 71)" "(100, 132)" "(150, 132)"] by (simp add: cross_def)

theorem line_position_defined_witness:
  "\<exists>x. line_pos_x demo_L [(10, 20, 30, 60)] 72 = Some x \<and> \<bar>x\<bar> \<le> 2 ^ 29"
  using line_position_defined [OF demo_nth, of "[(10, 20, 30, 60)]" 72] by (simp add: in_frame_def)

theorem ip_frame_invariant_witness:
  "\<exists>p. ip_run demo_L demo_g (ip_reset demo_g ip_calloc) [(17, Some [], ip_opt_zero)] = Some p \<and> ip_good demo_g p"
proof -
  obtain p' r where "ip_process demo_L demo_g undefined_res 17 (Some []) (ip_reset demo_g ip_calloc) = Some (p', r)"
    using empty_frame [where p = "ip_reset demo_g ip_calloc" and L = demo_L and g = demo_g and res = undefined_res and junk = 17] by (auto simp: ip_reset_def)
  then have "ip_run demo_L demo_g (ip_reset demo_g ip_calloc) ([] @ [(17, Some [], ip_opt_zero)])
      = Some (ip_set_opt ip_opt_zero p')" by simp
  with ip_frame_invariant [OF this demo_sane] show ?thesis by simp
qed

lemma demo_pass:
  "case ip_process demo_L demo_g undefined_res 0 (Some [(100, 132, 150, 132)]) demo_p of
     Some (p', r) \<Rightarrow> stopline_passed r | None \<Rightarrow> False"
  by code_simp

theorem stopline_passed_once_witness:
  "case ip_process demo_L demo_g undefined_res 0 (Some [(100, 132, 150, 132)]) demo_p of
     Some (p', r) \<Rightarrow> stopline_passed r \<and> \<not> stop_valid p' \<and> \<not> stopline_visible r | None \<Rightarrow> False"
proof -
  obtain p' r where e: "ip_process demo_L demo_g undefined_res 0 (Some [(100, 132, 150, 132)]) demo_p = Some (p', r)"
    and "stopline_passed r"
    using demo_pass by (auto split: option.splits)
  moreover have "0 \<le> stop_diff demo_p" by (simp add: demo_p_def ip_reset_def)
  ultimately show ?thesis using stopline_passed_once [OF e _ demo_sane] by simp
qed

theorem lane_offset_bounded_witness:
  "\<exists>p' r. ip_process demo_L demo_g undefined_res 17 (Some []) demo_p = Some (p', r)
     \<and> fle (Fin (- 1)) (lane_offset r) \<and> fle (lane_offset r) (Fin 1)"
proof -
  have pre: "ip_pre demo_p" by (simp add: ip_pre_def demo_p_def ip_reset_def)
  then obtain p' r where e: "ip_process demo_L demo_g undefined_res 17 (Some []) demo_p = Some (p', r)"
    using empty_frame [where p = demo_p and L = demo_L and g = demo_g and res = undefined_res and junk = 17] by (auto simp: ip_pre_def)
  from lane_offset_bounded [OF e demo_sane pre] e show ?thesis by blast
qed

theorem blind_turn_witness:
  "\<exists>p' r. ip_process demo_L demo_g undefined_res 17 (Some [])
       (demo_p\<lparr>opt := \<lparr>ignore_right = False, ignore_left = True, ignore_stop = False\<rparr>\<rparr>) = Some (p', r)
     \<and> lane_offset r = Fin 1"
proof -
  let ?p = "demo_p\<lparr>opt := \<lparr>ignore_right = False, ignore_left = True, ignore_stop = False\<rparr>\<rparr>"
  obtain p' r where e: "ip_process demo_L demo_g undefined_res 17 (Some []) ?p = Some (p', r)"
    using empty_frame [where p = ?p and L = demo_L and g = demo_g and res = undefined_res and junk = 17] by (auto simp: demo_p_def ip_reset_def)
  with blind_turn [OF e demo_sane] show ?thesis by simp
qed

theorem lane_width_uninitialised_witness:
  "map_option lane_width (find_lane demo_L demo_g 150 no_lines demo_p) = Some 150"
proof -
  have "find_lane demo_L demo_g 150 no_lines demo_p \<noteq> None"
    by (simp add: find_lane_def no_lines_def line_pos_x_def Let_def)
  then obtain p1 where e: "find_lane demo_L demo_g 150 no_lines demo_p = Some p1" by blast
  from lane_width_uninitialised [OF e] show ?thesis
    unfolding e by (simp add: demo_values line_pos_x_def no_lines_def)
qed

theorem unseen_stopline_stays_witness:
  "let q = snd (stop_seen demo_g 100 (demo_p\<lparr>stop := (122, 95)\<rparr>))
   in map_option snd (find_stop demo_L demo_g no_lines (q\<lparr>stop := (122, 100)\<rparr>)) = Some False"
proof -
  let ?q = "snd (stop_seen demo_g 100 (demo_p\<lparr>stop := (122, 95)\<rparr>))"
  have seen: "stop_seen demo_g 100 (demo_p\<lparr>stop := (122, 95)\<rparr>) = (100, ?q)"
    by (simp add: stop_seen_def demo_p_def)
  have "snd (lane_dir ?q) \<noteq> 0" by (simp add: stop_seen_def demo_p_def ip_reset_def)
  then have "find_stop demo_L demo_g no_lines (?q\<lparr>stop := (122, 100)\<rparr>) \<noteq> None"
    by (simp add: find_stop_def line_pos_y_def no_lines_def)
  then obtain q' passed where e: "find_stop demo_L demo_g no_lines (?q\<lparr>stop := (122, 100)\<rparr>) = Some (q', passed)"
    by auto
  have "\<not> flt (limit_y demo_g) (fint 100)" by code_simp
  then show ?thesis
    using unseen_stopline_stays [OF seen _ _ e] demo_sane unfolding Let_def e by (simp add: demo_values no_lines_def)
qed

end
