(* ===== verification/Frames.thy ===== *)
theory Frames
  imports Img
begin

text \<open>
  What the image processing needs to stay within the defined behaviour of C++, frame after frame:
  divisions by something, conversions to \<open>int\<close> within its range, and products of coordinates that
  do not overflow. All of it follows from the size of the pictures and the number of lines in one:
  the direction of the lane is a sum over the lines, and the more of them are almost level, the further
  away and the longer the stop line is taken to be.
\<close>

section \<open>Pictures\<close>

text \<open>The size of the pictures and the number of lines the results hold for.\<close>

definition camera :: "globals \<Rightarrow> bool" where
  "camera g \<longleftrightarrow> sane g \<and> HEIGHT g \<le> 144 \<and> 0 \<le> mask_end_y g \<and> 0 \<le> mask_width_top g \<and> mask_width_top g \<le> 256
     \<and> 0 \<le> part (5 / 10) (HEIGHT g) \<and> part (5 / 10) (HEIGHT g) \<le> 144
     \<and> 0 \<le> lane_center g - max_lane_error g \<and> lane_center g + max_lane_error g \<le> 256"

definition picture :: "line list \<Rightarrow> bool" where
  "picture ls \<longleftrightarrow> length ls \<le> 24 \<and> (\<forall>l \<in> set ls. in_rect 256 144 l)"

definition pictures :: "(int \<times> line list option \<times> ip_opt) list \<Rightarrow> bool" where
  "pictures fs \<longleftrightarrow> (\<forall>(junk, frame, op) \<in> set fs. case frame of None \<Rightarrow> True | Some ls \<Rightarrow> picture ls)"

text \<open>The range of the state between frames.\<close>

definition tame :: "ip \<Rightarrow> bool" where
  "tame p \<longleftrightarrow> 0 \<le> fst (lane p) \<and> fst (lane p) \<le> 256 \<and> 0 \<le> snd (lane p) \<and> snd (lane p) \<le> 144
     \<and> \<bar>fst (lane_dir p)\<bar> \<le> 6144 \<and> snd (lane_dir p) < 0 \<and> - 10368 \<le> snd (lane_dir p)
     \<and> (fst (lane_dir p) = 0 \<or> snd (lane_dir p) \<le> - 3)
     \<and> \<bar>fst (stop_dir p)\<bar> \<le> 5184 \<and> \<bar>snd (stop_dir p)\<bar> \<le> 3072
     \<and> \<bar>fst (stop p)\<bar> \<le> 522496 \<and> 0 \<le> snd (stop p) \<and> snd (stop p) \<le> 256 \<and> 0 \<le> stop_diff p"

section \<open>The integers of a classification\<close>

text \<open>
  Every product, sum and difference of \<open>int\<close>s in \<open>distance\<close>, \<open>angle\<close> and \<open>intersects\<close>, and in their calls
  for a line \<open>l\<close>.
\<close>

definition distance_ints :: "point \<Rightarrow> point \<Rightarrow> point \<Rightarrow> int list" where
  "distance_ints s e p =
     [fst p - fst s, snd e - snd s, snd p - snd s, fst e - fst s,
      (fst p - fst s) * (snd e - snd s), (snd p - snd s) * (fst e - fst s), cross s e p]"

definition angle_ints :: "int \<Rightarrow> int \<Rightarrow> int \<Rightarrow> int \<Rightarrow> int list" where
  "angle_ints ax ay bx by' =
     [ax * ax, ay * ay, ax * ax + ay * ay, bx * bx, by' * by', bx * bx + by' * by', ax * bx, ay * by', ax * bx + ay * by']"

definition intersects_ints :: "point \<Rightarrow> point \<Rightarrow> point \<Rightarrow> point \<Rightarrow> int list" where
  "intersects_ints s1 e1 s2 e2 =
     (let dx1 = fst s1 - fst e1; dy1 = snd s1 - snd e1; dx2 = fst s2 - fst e2; dy2 = snd s2 - snd e2;
          dy = snd s1 - snd s2; dx = fst s1 - fst s2
      in [dx1, dy1, dx2, dy2, dy, dx, dx1 * dy2, dy1 * dx2, dx1 * dy2 - dy1 * dx2, dx1 * dy, dy1 * dx, dx1 * dy - dy1 * dx])"

definition line_ints :: "ip \<Rightarrow> line \<Rightarrow> int list" where
  "line_ints p l =
     (let s = line_start l; e = line_end l; ahead = pt_add (lane p) (lane_dir p); along = pt_add (stop p) (stop_dir p)
      in [fst ahead, snd ahead, fst along, snd along]
         @ angle_ints (fst e - fst s) (snd e - snd s) (fst (lane_dir p)) (snd (lane_dir p))
         @ intersects_ints (lane p) ahead s e
         @ distance_ints (stop p) along s @ distance_ints (stop p) along e
         @ distance_ints (lane p) ahead s @ distance_ints (lane p) ahead e)"

lemma abs_mult_le: "\<bar>a\<bar> \<le> m \<Longrightarrow> \<bar>b\<bar> \<le> n \<Longrightarrow> \<bar>a * b\<bar> \<le> m * (n :: int)"
  unfolding abs_mult by (rule mult_mono) auto

lemma abs_products_less: "\<bar>a\<bar> \<le> m \<Longrightarrow> \<bar>b\<bar> \<le> n \<Longrightarrow> \<bar>c\<bar> \<le> k \<Longrightarrow> \<bar>d\<bar> \<le> l \<Longrightarrow> m * n + k * l < u \<Longrightarrow> \<bar>a * b - c * d\<bar> < (u :: int)"
  using abs_mult_le [of a m b n] abs_mult_le [of c k d l] abs_triangle_ineq4 [of "a * b" "c * d"] by linarith

text \<open>A difference of two products.\<close>

lemma distance_small:
  assumes "\<bar>fst p - fst s\<bar> \<le> a" "\<bar>snd e - snd s\<bar> \<le> b" "\<bar>snd p - snd s\<bar> \<le> c" "\<bar>fst e - fst s\<bar> \<le> d"
    and "a * b + c * d < m" "a < m" "b < m" "c < m" "d < m"
  shows "\<forall>x \<in> set (distance_ints s e p). \<bar>x\<bar> < m"
proof -
  have 1: "\<bar>(fst p - fst s) * (snd e - snd s)\<bar> \<le> a * b" and 2: "\<bar>(snd p - snd s) * (fst e - fst s)\<bar> \<le> c * d"
    using abs_mult_le [OF assms(1,2)] abs_mult_le [OF assms(3,4)] .
  then have 3: "\<bar>(fst p - fst s) * (snd e - snd s)\<bar> < m" "\<bar>(snd p - snd s) * (fst e - fst s)\<bar> < m" "\<bar>cross s e p\<bar> < m"
    using assms(5) unfolding cross_def by linarith+
  have "\<bar>fst p - fst s\<bar> < m" "\<bar>snd e - snd s\<bar> < m" "\<bar>snd p - snd s\<bar> < m" "\<bar>fst e - fst s\<bar> < m"
    using assms(1-4,6-9) by (blast intro: le_less_trans)+
  with 3 show ?thesis by (simp add: distance_ints_def)
qed

lemma line_ints_small:
  assumes "tame p" "in_rect 256 144 l"
  shows "\<forall>x \<in> set (line_ints p l). \<bar>x\<bar> < 2 ^ 31"
proof -
  obtain x0 y0 x1 y1 where l: "l = (x0, y0, x1, y1)" by (cases l)
  obtain lx ly where lane: "lane p = (lx, ly)" by force
  obtain dx dy where dir: "lane_dir p = (dx, dy)" by force
  obtain sx sy where stop: "stop p = (sx, sy)" by force
  obtain tx ty where sdir: "stop_dir p = (tx, ty)" by force
  have b: "0 \<le> x0" "x0 \<le> 256" "0 \<le> x1" "x1 \<le> 256" "0 \<le> y0" "y0 \<le> 144" "0 \<le> y1" "y1 \<le> 144"
    and a: "0 \<le> lx" "lx \<le> 256" "0 \<le> ly" "ly \<le> 144" "\<bar>dx\<bar> \<le> 6144" "\<bar>dy\<bar> \<le> 10368"
      "\<bar>tx\<bar> \<le> 5184" "\<bar>ty\<bar> \<le> 3072" "\<bar>sx\<bar> \<le> 522496" "0 \<le> sy" "sy \<le> 256"
    using assms by (simp_all add: tame_def in_rect_def l lane dir stop sdir)
  have d1: "\<forall>x \<in> set (distance_ints (sx, sy) (sx + tx, sy + ty) (x, y)). \<bar>x\<bar> < 2 ^ 31"
    and d2: "\<forall>x \<in> set (distance_ints (lx, ly) (lx + dx, ly + dy) (x, y)). \<bar>x\<bar> < 2 ^ 31"
    if xy: "0 \<le> x" "x \<le> 256" "0 \<le> y" "y \<le> 144" for x y
  proof -
    have d: "\<bar>x - sx\<bar> \<le> 522752" "\<bar>y - sy\<bar> \<le> 256" "\<bar>x - lx\<bar> \<le> 256" "\<bar>y - ly\<bar> \<le> 144" using a xy by linarith+
    show "\<forall>x \<in> set (distance_ints (sx, sy) (sx + tx, sy + ty) (x, y)). \<bar>x\<bar> < 2 ^ 31"
      by (rule distance_small [where a = 522752 and b = 3072 and c = 256 and d = 5184]) (simp_all add: d(1,2) a(7,8))
    show "\<forall>x \<in> set (distance_ints (lx, ly) (lx + dx, ly + dy) (x, y)). \<bar>x\<bar> < 2 ^ 31"
      by (rule distance_small [where a = 256 and b = 10368 and c = 144 and d = 6144]) (simp_all add: d(3,4) a(5,6))
  qed
  have ax: "\<bar>x1 - x0\<bar> \<le> 256" "\<bar>x0 - x1\<bar> \<le> 256" "\<bar>y1 - y0\<bar> \<le> 144" "\<bar>y0 - y1\<bar> \<le> 144" "\<bar>dx\<bar> \<le> 6144" "\<bar>dy\<bar> \<le> 10368"
    "\<bar>ly - y0\<bar> \<le> 144" "\<bar>lx - x0\<bar> \<le> 256"
    using a b by linarith+
  have "\<forall>x \<in> set (angle_ints (x1 - x0) (y1 - y0) dx dy). \<bar>x\<bar> < 2 ^ 31"
    using abs_mult_le [OF ax(1,1)] abs_mult_le [OF ax(3,3)] abs_mult_le [OF ax(5,5)] abs_mult_le [OF ax(6,6)]
      abs_mult_le [OF ax(1,5)] abs_mult_le [OF ax(3,6)]
    by (simp add: angle_ints_def)
  moreover have "\<forall>x \<in> set (intersects_ints (lx, ly) (lx + dx, ly + dy) (x0, y0) (x1, y1)). \<bar>x\<bar> < 2 ^ 31"
    using ax abs_mult_le [OF ax(5,4)] abs_mult_le [OF ax(6,2)] abs_mult_le [OF ax(5,7)] abs_mult_le [OF ax(6,8)]
      abs_products_less [OF ax(6,2,5,4), of "2 ^ 31"] abs_products_less [OF ax(6,8,5,7), of "2 ^ 31"]
    by (simp add: intersects_ints_def Let_def)
  moreover have "\<bar>x\<bar> < 2 ^ 31" if "x \<in> {lx + dx, ly + dy, sx + tx, sy + ty}" for x
    using a that by auto
  ultimately show ?thesis
    using d1 [of x0 y0] d1 [of x1 y1] d2 [of x0 y0] d2 [of x1 y1] b
    by (simp add: line_ints_def Let_def l lane dir stop sdir pt_add_def ball_Un)
qed

section \<open>A frame\<close>

lemma sdiv_times_le: "\<bar>a sdiv b\<bar> * \<bar>b\<bar> \<le> \<bar>a :: int\<bar>"
proof (cases "b = 0")
  case False
  have nonneg: "0 \<le> \<bar>a\<bar> div \<bar>b\<bar>" using False by (simp add: pos_imp_zdiv_nonneg_iff)
  then have "\<bar>\<bar>a\<bar> div \<bar>b\<bar>\<bar> = \<bar>a\<bar> div \<bar>b\<bar>" by (rule abs_of_nonneg)
  with False have "\<bar>a sdiv b\<bar> = \<bar>a\<bar> div \<bar>b\<bar>"
    unfolding signed_divide_int_def abs_mult by (cases "a = 0") (simp_all only: abs_sgn_eq if_False, simp_all)
  then have "\<bar>a sdiv b\<bar> * \<bar>b\<bar> = \<bar>a\<bar> div \<bar>b\<bar> * \<bar>b\<bar>" by (rule arg_cong)
  moreover have "\<bar>a\<bar> div \<bar>b\<bar> * \<bar>b\<bar> = \<bar>a\<bar> - \<bar>a\<bar> mod \<bar>b\<bar>" by (rule minus_mod_eq_div_mult [symmetric])
  moreover have "0 \<le> \<bar>a\<bar> mod \<bar>b\<bar>" using False by simp
  ultimately show ?thesis by linarith
qed simp

lemma stop_x_small:
  assumes "tame p"
  shows "\<bar>stop_x p\<bar> \<le> 522496"
proof (cases "fst (lane_dir p) = 0")
  case True
  with assms show ?thesis by (simp add: stop_x_def tame_def)
next
  case False
  let ?q = "(snd (stop p) - snd (lane p)) sdiv snd (lane_dir p)"
  have "\<bar>?q\<bar> * \<bar>snd (lane_dir p)\<bar> \<le> \<bar>snd (stop p) - snd (lane p)\<bar>" by (rule sdiv_times_le)
  also have "\<dots> \<le> 256" using assms by (auto simp: tame_def)
  finally have 1: "\<bar>?q\<bar> * \<bar>snd (lane_dir p)\<bar> \<le> 256" .
  have "\<bar>?q\<bar> * 3 \<le> \<bar>?q\<bar> * \<bar>snd (lane_dir p)\<bar>"
    using assms False by (intro mult_left_mono) (auto simp: tame_def)
  with 1 have "\<bar>?q\<bar> \<le> 85" by linarith
  moreover have "\<bar>fst (lane_dir p)\<bar> \<le> 6144" using assms by (simp add: tame_def)
  ultimately have "\<bar>?q * fst (lane_dir p)\<bar> \<le> 85 * 6144" by (rule abs_mult_le)
  with assms show ?thesis unfolding stop_x_def tame_def by linarith
qed

text \<open>The direction is the sum over at most 24 lines.\<close>

lemma direction_sum:
  assumes "\<forall>l \<in> set ls. in_rect 256 144 l"
  shows "\<bar>fst (foldl (\<lambda>d l. pt_add d (upwards l)) d ls)\<bar> \<le> \<bar>fst d\<bar> + 256 * int (length ls)
    \<and> snd d - 144 * int (length ls) \<le> snd (foldl (\<lambda>d l. pt_add d (upwards l)) d ls)"
  using assms
proof (induction ls arbitrary: d)
  case (Cons l ls)
  have "in_rect 256 144 l" using Cons.prems by simp
  then have "\<bar>fst (upwards l)\<bar> \<le> 256 \<and> - 144 \<le> snd (upwards l)"
    by (cases l) (auto simp: in_rect_def upwards_def Let_def pt_sub_def)
  with Cons.IH [of "pt_add d (upwards l)"] Cons.prems show ?case by (auto simp: pt_add_def)
qed simp

lemma classes_picture:
  assumes "picture ls" and that: "cl = classify_lines L g p ls no_lines"
  shows "\<forall>l \<in> set (right_lines cl @ left_lines cl @ stop_lines cl). in_rect 256 144 l"
    "length (right_lines cl @ left_lines cl) \<le> 24"
proof -
  have cl: "right_lines cl = filter (\<lambda>l. kind_of L g p l = Right_kind) ls"
    "left_lines cl = filter (\<lambda>l. kind_of L g p l = Left_kind) ls"
    "stop_lines cl = filter (\<lambda>l. kind_of L g p l = Stop_kind) ls"
    unfolding that classify_filters by (simp_all add: no_lines_def)
  show "\<forall>l \<in> set (right_lines cl @ left_lines cl @ stop_lines cl). in_rect 256 144 l"
    using assms unfolding cl by (auto simp: picture_def)
  have "length (filter (\<lambda>l. kind_of L g p l = Right_kind) ls) + length (filter (\<lambda>l. kind_of L g p l = Left_kind) ls) \<le> length ls"
    by (induction ls) auto
  with assms show "length (right_lines cl @ left_lines cl) \<le> 24" unfolding cl by (simp add: picture_def)
qed

lemma in_rect_mono: "in_rect 256 144 l \<Longrightarrow> in_rect (2 ^ 8) (2 ^ 8) l"
  by (auto simp: in_rect_def split: prod.splits)

lemma find_lane_tame:
  assumes "nth_ok (nth_element L)" "camera g" "tame p" "\<forall>l \<in> set (right_lines cl @ left_lines cl). in_rect 256 144 l"
  shows "\<exists>p1. find_lane L g junk cl p = Some p1 \<and> tame p1 \<and> stop p1 = stop p"
proof -
  have h: "\<bar>snd (lane p)\<bar> \<le> 2 ^ 9" using assms(3) by (simp add: tame_def)
  have d: "\<exists>x. line_pos_x L ls (snd (lane p)) = Some x" if "\<forall>l \<in> set ls. in_rect 256 144 l" for ls
    using line_pos_bounded(1) [OF assms(1) _ h, of ls 8] that in_rect_mono by auto
  from d [of "right_lines cl"] d [of "left_lines cl"] assms(4) obtain x y where
    xy: "line_pos_x L (right_lines cl) (snd (lane p)) = Some x" "line_pos_x L (left_lines cl) (snd (lane p)) = Some y" by auto
  then obtain p1 where p1: "find_lane L g junk cl p = Some p1" by (simp add: find_lane_def Let_def)
  have "sane g" using assms(2) by (simp add: camera_def)
  note r = find_lane_result [OF p1 this]
  have "stop_dir p1 = stop_dir p" using p1 xy by (auto simp: find_lane_def Let_def)
  then have "tame p1" using assms(2,3) r by (auto simp: tame_def camera_def)
  with p1 r show ?thesis by blast
qed

lemma find_dir_tame:
  assumes "camera g" "tame p" "\<forall>l \<in> set (right_lines cl @ left_lines cl). in_rect 256 144 l"
    "length (right_lines cl @ left_lines cl) \<le> 24"
  shows "tame (find_dir g cl p)"
proof (cases "right_lines cl \<noteq> [] \<or> left_lines cl \<noteq> []")
  case True
  let ?d = "foldl (\<lambda>d l. pt_add d (upwards l)) (0, 0) (right_lines cl @ left_lines cl)"
  have d: "\<bar>fst ?d\<bar> \<le> 6144" "- 3456 \<le> snd ?d" "snd ?d \<le> 0"
    using direction_sum [OF assms(3), of "(0, 0)"] assms(4) foldl_up [of "(0, 0)" "right_lines cl @ left_lines cl"]
    by auto
  have s: "\<bar>(- (3 * snd ?d)) sdiv 2\<bar> \<le> 5184" "\<bar>fst ?d sdiv 2\<bar> \<le> 3072"
    using sdiv_times_le [of "- (3 * snd ?d)" 2] sdiv_times_le [of "fst ?d" 2] d by linarith+
  have "0 < HEIGHT g" "HEIGHT g \<le> 144" using assms(1) by (simp_all add: camera_def sane_def)
  with True d s assms(2) show ?thesis by (auto simp: find_dir_def Let_def tame_def)
next
  case False
  moreover have "0 < HEIGHT g" "HEIGHT g \<le> 144" using assms(1) by (simp_all add: camera_def sane_def)
  ultimately show ?thesis using assms(2) by (auto simp: find_dir_def Let_def tame_def)
qed

text \<open>The lower limit of the stop line, nine tenths of the height, is not above 256.\<close>

lemma limit_small:
  assumes "camera g" "\<not> flt (limit_y g) (fint y)"
  shows "y \<le> 256"
proof (rule ccontr)
  assume y: "\<not> y \<le> 256"
  have "bnd 0 (f64 (9 / 10))" by (rule bnd_rnd) simp_all
  moreover have "bnd 8 (fint (HEIGHT g))" using assms(1) by (intro bnd_fint) (simp_all add: camera_def sane_def)
  ultimately have l: "bnd 8 (limit_y g)" using bnd_mul [of 0 "f64 (9 / 10)" 8] by (simp add: limit_y_def)
  then have nan: "limit_y g \<noteq> NaN" by (auto simp: bnd_def)
  have "fle (Fin 257) (fint y)"
    using rnd_mono [of 257 "of_int y" 53 1023] y fint_exact [of 257] of_int_le_iff [of 257 y, where 'a = rat]
    by (simp add: fint_def)
  moreover from this have "fint y \<noteq> NaN" by auto
  ultimately have "fle (fint y) (limit_y g)" using assms(2) nan by (simp add: flt_def)
  with \<open>fle (Fin 257) (fint y)\<close> have "fle (Fin 257) (limit_y g)" by (rule fle_trans)
  with l show False by (auto simp: fle_fin bnd_def)
qed

lemma stop_steps_dir:
  "stop_dir (snd (stop_seen g y p)) = stop_dir p" "stop_dir (snd (stop_above g x)) = stop_dir (snd x)"
  "stop_dir (fst (snd (stop_below g x))) = stop_dir (snd x)"
  by (simp_all add: stop_seen_def stop_above_def stop_below_def Let_def split_beta)

lemma find_stop_place: "find_stop L g cl p = Some (p', passed) \<Longrightarrow> fst (stop p') = stop_x p \<and> stop_dir p' = stop_dir p"
  by (auto simp: find_stop_def split_beta stop_steps_dir split: if_splits)

lemma find_stop_tame:
  assumes "nth_ok (nth_element L)" "camera g" "tame p" "\<forall>l \<in> set (stop_lines cl). in_rect 256 144 l"
  shows "\<exists>p' passed. find_stop L g cl p = Some (p', passed) \<and> tame p'"
proof -
  have h: "\<bar>stop_x p\<bar> \<le> 2 ^ 20" using stop_x_small [OF assms(3)] by simp
  have "\<forall>l \<in> set (stop_lines cl). in_rect (2 ^ 8) (2 ^ 8) l" using assms(4) in_rect_mono by blast
  from line_pos_bounded(2) [OF assms(1) this h] obtain y where "line_pos_y L (stop_lines cl) (stop_x p) = Some y" by auto
  moreover have "snd (lane_dir p) \<noteq> 0" using assms(3) by (simp add: tame_def)
  ultimately obtain p' passed where s: "find_stop L g cl p = Some (p', passed)"
    by (cases "find_stop L g cl p") (auto simp: find_stop_def split_beta)
  have "sane g" "0 \<le> stop_diff p" using assms(2,3) by (simp_all add: camera_def tame_def)
  note r = find_stop_result [OF s this]
  note x = find_stop_place [OF s]
  have "snd (stop p') \<le> 256" using limit_small [OF assms(2) r(9)] .
  with r x stop_x_small [OF assms(3)] assms(2,3) have "tame p'" by (auto simp: tame_def camera_def)
  with s show ?thesis by blast
qed

lemma process_tame:
  assumes "nth_ok (nth_element L)" "camera g" "tame p" "picture ls"
  shows "\<exists>p' r. ip_process L g res junk (Some ls) p = Some (p', r) \<and> tame p'"
proof -
  let ?cl = "classify_lines L g p ls no_lines"
  note cl = classes_picture [OF assms(4) refl, of L g p]
  from cl(1) have sides: "\<forall>l \<in> set (right_lines ?cl @ left_lines ?cl). in_rect 256 144 l"
    and stops: "\<forall>l \<in> set (stop_lines ?cl). in_rect 256 144 l" by auto
  from find_lane_tame [OF assms(1-3) sides] obtain p1 where
    p1: "find_lane L g junk ?cl p = Some p1" "tame p1" by blast
  from find_dir_tame [OF assms(2) p1(2) sides cl(2)] have "tame (find_dir g ?cl p1)" .
  from find_stop_tame [OF assms(1,2) this stops] p1 show ?thesis by (auto simp: ip_process_def Let_def)
qed

lemma run_tame:
  assumes "nth_ok (nth_element L)" "camera g" "tame p" "pictures fs"
  shows "\<exists>p'. ip_run L g p fs = Some p' \<and> tame p'"
  using assms(3,4)
proof (induction fs arbitrary: p)
  case (Cons f fs)
  obtain junk frame op where f: "f = (junk, frame, op)" by (cases f)
  have "\<exists>q r. ip_process L g undefined_res junk frame p = Some (q, r) \<and> tame q"
  proof (cases frame)
    case None
    with Cons.prems(1) show ?thesis by (simp add: ip_process_def)
  next
    case (Some ls)
    with Cons.prems(2) f have "picture ls" by (simp add: pictures_def)
    from process_tame [OF assms(1,2) Cons.prems(1) this] Some show ?thesis by blast
  qed
  then obtain q r where q: "ip_process L g undefined_res junk frame p = Some (q, r)" "tame q" by blast
  then have "tame (ip_set_opt op q)" by (simp add: tame_def ip_set_opt_def)
  from Cons.IH [OF this] Cons.prems(2) q f show ?case by (simp add: pictures_def)
qed simp

lemma reset_tame: "camera g \<Longrightarrow> tame (ip_reset g p)"
  by (auto simp: tame_def ip_reset_def camera_def sane_def)

section \<open>Properties\<close>

text \<open>C30. The image processing stays within defined behaviour: whatever pictures of 256 by 144
  come, with up to 24 lines each, every division is by something, every conversion
  to \<open>int\<close> in range, and no integer of a classification that follows overflows.\<close>

theorem ip_run_defined:
  assumes "nth_ok (nth_element L)" "camera g" "pictures fs"
  shows "\<exists>p. ip_run L g (ip_reset g p0) fs = Some p
    \<and> (\<forall>l. in_rect 256 144 l \<longrightarrow> (\<forall>x \<in> set (line_ints p l). \<bar>x\<bar> < 2 ^ 31))"
  using run_tame [OF assms(1,2) reset_tame [OF assms(2)] assms(3)] line_ints_small by blast

text \<open>With more lines it does not hold: sixty level side lines of the width of the picture, which pass for
  side lines once the direction of the lane is level enough, put the stop line so far away that the
  distance to it overflows.\<close>

definition level_lines :: classes where
  "level_lines = no_lines\<lparr>right_lines := (0, 100, 1, 99) # replicate 60 (256, 100, 0, 100)\<rparr>"

theorem stop_distance_overflows:
  "case find_stop demo_L demo_g level_lines (find_dir demo_g level_lines (ip_reset demo_g ip_calloc)) of
     None \<Rightarrow> False
   | Some (p, passed) \<Rightarrow> 2 ^ 31 \<le> \<bar>cross (stop p) (pt_add (stop p) (stop_dir p)) (256, 100)\<bar>"
  by code_simp

lemma demo_camera: "camera demo_g"
proof -
  have "part (5 / 10) (HEIGHT demo_g) = 72" by (simp only: demo_values part_values)
  with demo_sane show ?thesis by (simp add: camera_def demo_values) (simp add: demo_g_def)
qed

theorem ip_run_defined_witness:
  "\<exists>p. ip_run demo_L demo_g (ip_reset demo_g ip_calloc) [(17, Some [(60, 120, 80, 80), (200, 120, 180, 80)], ip_opt_zero)] = Some p
    \<and> \<bar>cross (stop p) (pt_add (stop p) (stop_dir p)) (256, 0)\<bar> < 2 ^ 31"
proof -
  have "pictures [(17, Some [(60, 120, 80, 80), (200, 120, 180, 80)], ip_opt_zero)]"
    by (simp add: pictures_def picture_def in_rect_def)
  from ip_run_defined [OF demo_nth demo_camera this, of ip_calloc] obtain p where
    p: "ip_run demo_L demo_g (ip_reset demo_g ip_calloc) [(17, Some [(60, 120, 80, 80), (200, 120, 180, 80)], ip_opt_zero)] = Some p"
    and x: "\<And>l x. in_rect 256 144 l \<Longrightarrow> x \<in> set (line_ints p l) \<Longrightarrow> \<bar>x\<bar> < 2 ^ 31" by blast
  have "in_rect 256 144 (256, 0, 256, 0)" by (simp add: in_rect_def)
  from x [OF this, of "cross (stop p) (pt_add (stop p) (stop_dir p)) (256, 0)"] p show ?thesis
    by (simp add: line_ints_def Let_def distance_ints_def)
qed

end
