(* ===== verification/Lcd.thy ===== *)
theory Lcd
  imports Prelude
begin

text \<open>
  The character display of the AVR modules, \<^verbatim>\<open>src/avr/lcd.c\<close>: bytes are put on port A in two
  halves, each taken over by a pulse on the enable line. The delays are left out. What the
  display makes of the pulses, in its four bit mode, is written down as a reference.
\<close>

section \<open>The port\<close>

definition D7 :: nat where "D7 = 7"
definition D6 :: nat where "D6 = 6"
definition D5 :: nat where "D5 = 5"
definition D4 :: nat where "D4 = 4"
definition RS :: nat where "RS = 3"
definition EN :: nat where "EN = 2"
definition ROW1ADR :: u8 where "ROW1ADR = 0x00"
definition ROW2ADR :: u8 where "ROW2ADR = 0x40"

lemmas port_defs = D7_def D6_def D5_def D4_def RS_def EN_def ROW1ADR_def ROW2ADR_def

text \<open>\<open>pulses\<close> is history: what the port held while the enable line was high, the latest last.\<close>

record port =
  PORTA :: u8
  pulses :: "u8 list"

definition lcd_send_pulse :: "port \<Rightarrow> port" where
  "lcd_send_pulse s =
     (let s1 = s\<lparr>PORTA := PORTA s OR push_bit EN 1\<rparr>;
          s2 = s1\<lparr>pulses := pulses s1 @ [PORTA s1]\<rparr>
      in s2\<lparr>PORTA := PORTA s2 AND NOT (push_bit EN 1)\<rparr>)"

definition lcd_send_instruction :: "u8 \<Rightarrow> port \<Rightarrow> port" where
  "lcd_send_instruction instr s =
     (let upper = (instr AND 0xF0) AND NOT (push_bit RS 1);
          s1 = lcd_send_pulse (s\<lparr>PORTA := upper\<rparr>);
          lower = push_bit 4 instr AND NOT (push_bit RS 1)
      in lcd_send_pulse (s1\<lparr>PORTA := lower\<rparr>))"

definition lcd_set_4bit_interface :: "port \<Rightarrow> port" where
  "lcd_set_4bit_interface s =
     (let s1 = s\<lparr>PORTA := 0x20\<rparr> in lcd_send_pulse (s1\<lparr>PORTA := PORTA s1 AND NOT (push_bit RS 1)\<rparr>))"

definition lcd_send_data :: "u8 \<Rightarrow> port \<Rightarrow> port" where
  "lcd_send_data data s =
     (let upper = (data AND 0xF0) OR push_bit RS 1;
          s1 = lcd_send_pulse (s\<lparr>PORTA := upper\<rparr>);
          lower = push_bit 4 data OR push_bit RS 1
      in lcd_send_pulse (s1\<lparr>PORTA := lower\<rparr>))"

definition lcd_busy_wait :: "port \<Rightarrow> port" where
  "lcd_busy_wait s =
     (let s1 = s\<lparr>PORTA := 0\<rparr>;
          s2 = s1\<lparr>PORTA := PORTA s1 OR (push_bit D5 1 OR push_bit D4 1)\<rparr>
      in lcd_send_pulse (s2\<lparr>PORTA := PORTA s2 AND NOT (push_bit RS 1)\<rparr>))"

definition lcd_reset :: "port \<Rightarrow> port" where
  "lcd_reset s = lcd_busy_wait (lcd_busy_wait (lcd_busy_wait s))"

definition lcd_init :: "port \<Rightarrow> port" where
  "lcd_init s =
     (let s1 = lcd_set_4bit_interface (lcd_reset s);
          s2 = lcd_send_instruction 0x28 s1;
          s3 = lcd_send_instruction 0x80 s2;
          s4 = lcd_send_instruction 0x01 s3;
          s5 = lcd_send_instruction 0x06 s4
      in lcd_send_instruction 0x0F s5)"

definition lcd_clear :: "port \<Rightarrow> port" where
  "lcd_clear = lcd_send_instruction 0x01"

definition lcd_display_on :: "port \<Rightarrow> port" where
  "lcd_display_on = lcd_send_instruction 0x0F"

definition lcd_shift_right :: "port \<Rightarrow> port" where
  "lcd_shift_right = lcd_send_instruction 0x14"

definition lcd_set_ddram :: "u8 \<Rightarrow> port \<Rightarrow> port" where
  "lcd_set_ddram c = lcd_send_instruction (c OR push_bit D7 1)"

definition lcd_return_cursor_home :: "port \<Rightarrow> port" where
  "lcd_return_cursor_home = lcd_send_instruction 0x02"

text \<open>\<open>lcd_send_string\<close>, from the index \<open>i\<close>.\<close>

fun send_from :: "nat \<Rightarrow> u8 \<Rightarrow> u8 list \<Rightarrow> port \<Rightarrow> port" where
  "send_from i row [] s = s"
| "send_from i row (c # cs) s =
     (if i mod 16 = 15 then
        (let row' = NOT row; s1 = lcd_send_data c s
         in send_from (i + 1) row' cs (lcd_set_ddram (if row' = 0 then ROW1ADR else ROW2ADR) s1))
      else send_from (i + 1) row cs (lcd_send_data c s))"

definition lcd_send_string :: "u8 list \<Rightarrow> port \<Rightarrow> port" where
  "lcd_send_string str s = send_from 0 0 str s"

section \<open>The display\<close>

text \<open>
  Two pulses are a byte, the upper half first; the register select line of the second one tells data
  from instructions. Of the instructions only those that set the address and that clear matter.
\<close>

datatype lcd_byte = Instr u8 | Data u8

fun lcd_bytes :: "u8 list \<Rightarrow> lcd_byte list" where
  "lcd_bytes (u # l # ps) =
     (let b = (u AND 0xF0) OR drop_bit 4 l in if bit l RS then Data b else Instr b) # lcd_bytes ps"
| "lcd_bytes ps = []"

record display =
  ac :: nat
  ddram :: "nat \<Rightarrow> u8 option"

fun display_byte :: "display \<Rightarrow> lcd_byte \<Rightarrow> display" where
  "display_byte d (Data c) = d\<lparr>ddram := (ddram d)(ac d := Some c), ac := ac d + 1\<rparr>"
| "display_byte d (Instr i) =
     (if bit i 7 then d\<lparr>ac := unat (i AND 0x7F)\<rparr>
      else if i = 0x01 then \<lparr>ac = 0, ddram = (\<lambda>a. None)\<rparr>
      else if i = 0x02 then d\<lparr>ac := 0\<rparr>
      else d)"

definition displayed :: "display \<Rightarrow> port \<Rightarrow> display" where
  "displayed d s = foldl display_byte d (lcd_bytes (pulses s))"

section \<open>Facts\<close>

lemma lcd_bytes_append: "even (length ps) \<Longrightarrow> lcd_bytes (ps @ qs) = lcd_bytes ps @ lcd_bytes qs"
  by (induction ps rule: lcd_bytes.induct) auto

lemma bits8: "n < 8 \<Longrightarrow> n = 0 \<or> n = 1 \<or> n = 2 \<or> n = 3 \<or> n = 4 \<or> n = 5 \<or> n = 6 \<or> n = (7 :: nat)"
  by arith

lemma byte_halves:
  fixes d :: u8
  shows "((((d AND 0xF0) OR push_bit 3 1) OR push_bit 2 1) AND 0xF0)
      OR drop_bit 4 ((push_bit 4 d OR push_bit 3 1) OR push_bit 2 1) = d" (is "?data = d")
    and "((((d AND 0xF0) AND NOT (push_bit 3 1)) OR push_bit 2 1) AND 0xF0)
      OR drop_bit 4 ((push_bit 4 d AND NOT (push_bit 3 1)) OR push_bit 2 1) = d" (is "?instr = d")
proof -
  have "bit ?data n = bit d n" "bit ?instr n = bit d n" if "n < 8" for n
    using bits8 [OF that] by (elim disjE; simp add: bit_simps)+
  then show "?data = d" "?instr = d" by (simp_all add: bit_eq_iff)
qed

text \<open>A byte that is sent arrives as it was sent.\<close>

lemma data_pulses:
  "\<exists>u l. pulses (lcd_send_data c s) = pulses s @ [u, l] \<and> lcd_bytes [u, l] = [Data c]"
proof -
  have "bit ((push_bit 4 c OR push_bit RS 1) OR push_bit EN 1) RS"
    by (simp add: port_defs bit_simps)
  then show ?thesis
    using byte_halves(1) [of c]
    by (simp add: lcd_send_data_def lcd_send_pulse_def Let_def port_defs)
qed

lemma instruction_pulses:
  "\<exists>u l. pulses (lcd_send_instruction c s) = pulses s @ [u, l] \<and> lcd_bytes [u, l] = [Instr c]"
proof -
  have "\<not> bit ((push_bit 4 c AND NOT (push_bit RS 1)) OR push_bit EN 1) RS"
    by (simp add: port_defs bit_simps)
  then show ?thesis
    using byte_halves(2) [of c]
    by (simp add: lcd_send_instruction_def lcd_send_pulse_def Let_def port_defs)
qed

lemma sent_bytes:
  assumes "even (length (pulses s))"
  shows "lcd_bytes (pulses (lcd_send_data c s)) = lcd_bytes (pulses s) @ [Data c]"
    "even (length (pulses (lcd_send_data c s)))"
    "lcd_bytes (pulses (lcd_send_instruction c s)) = lcd_bytes (pulses s) @ [Instr c]"
    "even (length (pulses (lcd_send_instruction c s)))"
  using data_pulses [of c s] instruction_pulses [of c s] lcd_bytes_append [OF assms] assms
  by (auto simp del: lcd_bytes.simps)

lemma displayed_sent:
  assumes "even (length (pulses s))"
  shows "displayed d (lcd_send_data c s) = display_byte (displayed d s) (Data c)"
    "displayed d (lcd_set_ddram a s) = (displayed d s)\<lparr>ac := unat ((a OR push_bit D7 1) AND 0x7F)\<rparr>"
    "even (length (pulses (lcd_set_ddram a s)))"
proof -
  have "bit (a OR push_bit D7 1) 7" by (simp add: port_defs bit_simps)
  then show "displayed d (lcd_set_ddram a s) = (displayed d s)\<lparr>ac := unat ((a OR push_bit D7 1) AND 0x7F)\<rparr>"
    by (simp add: displayed_def lcd_set_ddram_def sent_bytes(3) [OF assms])
  show "displayed d (lcd_send_data c s) = display_byte (displayed d s) (Data c)"
    by (simp add: displayed_def sent_bytes(1) [OF assms])
  show "even (length (pulses (lcd_set_ddram a s)))"
    unfolding lcd_set_ddram_def by (rule sent_bytes(4) [OF assms])
qed

text \<open>The place of the character at an index, on a display of two rows with 16 characters.\<close>

definition cell :: "nat \<Rightarrow> nat" where
  "cell i = (if i < 16 then i else 0x40 + (i - 16))"

lemma cell_inj: "cell i = cell j \<Longrightarrow> i < 32 \<Longrightarrow> j < 32 \<Longrightarrow> i = j"
  by (simp add: cell_def split: if_splits)

lemma row_addresses [simp]:
  "unat ((ROW1ADR OR 2 ^ D7) AND 0x7F) = 0" "unat ((ROW2ADR OR 2 ^ D7) AND 0x7F) = 0x40"
  by (simp_all add: port_defs)

text \<open>One character of a string: the cell it fills, and where the next one goes.\<close>

lemma send_from_step:
  assumes "i < 32" "even (length (pulses s))" "ac (displayed d s) = cell i" "row = (if i < 16 then 0 else NOT 0)"
  obtains row' s' where "send_from i row (c # cs) s = send_from (i + 1) row' cs s'" "even (length (pulses s'))"
    "ddram (displayed d s') = (ddram (displayed d s))(cell i := Some c)"
    "i < 31 \<longrightarrow> ac (displayed d s') = cell (i + 1) \<and> row' = (if i + 1 < 16 then 0 else NOT 0)"
proof
  let ?s1 = "lcd_send_data c s"
  let ?row = "if i mod 16 = 15 then NOT row else row"
  let ?s2 = "if i mod 16 = 15 then lcd_set_ddram (if ?row = 0 then ROW1ADR else ROW2ADR) ?s1 else ?s1"
  have "i mod 16 = (if i < 16 then i else i - 16)" using assms(1) by (simp add: le_mod_geq)
  then have i: "i mod 16 = 15 \<longleftrightarrow> i = 15 \<or> i = 31" using assms(1) by auto
  have e1: "even (length (pulses ?s1))" by (rule sent_bytes(2) [OF assms(2)])
  have d1: "displayed d ?s1 = (displayed d s)\<lparr>ddram := (ddram (displayed d s))(cell i := Some c), ac := cell i + 1\<rparr>"
    using displayed_sent(1) [OF assms(2)] assms(3) by simp
  show "send_from i row (c # cs) s = send_from (i + 1) ?row cs ?s2" by (simp add: Let_def)
  show "even (length (pulses ?s2))" using e1 displayed_sent(3) [OF e1] by simp
  show "ddram (displayed d ?s2) = (ddram (displayed d s))(cell i := Some c)"
    using displayed_sent(2) [OF e1] d1 by simp
  show "i < 31 \<longrightarrow> ac (displayed d ?s2) = cell (i + 1) \<and> ?row = (if i + 1 < 16 then 0 else NOT 0)"
    using displayed_sent(2) [OF e1] d1 assms(4) i by (auto simp: cell_def)
qed

lemma send_from_cells:
  assumes "i + length cs \<le> 32" "even (length (pulses s))" "ac (displayed d s) = cell i"
    "row = (if i < 16 then 0 else NOT 0)"
  shows "(\<forall>j < length cs. ddram (displayed d (send_from i row cs s)) (cell (i + j)) = Some (cs ! j))
    \<and> (\<forall>k < i. ddram (displayed d (send_from i row cs s)) (cell k) = ddram (displayed d s) (cell k))"
  using assms
proof (induction cs arbitrary: i row s)
  case (Cons c cs)
  have i: "i < 32" using Cons.prems(1) by simp
  obtain row' s' where s': "send_from i row (c # cs) s = send_from (i + 1) row' cs s'" "even (length (pulses s'))"
    "ddram (displayed d s') = (ddram (displayed d s))(cell i := Some c)"
    "i < 31 \<longrightarrow> ac (displayed d s') = cell (i + 1) \<and> row' = (if i + 1 < 16 then 0 else NOT 0)"
    using send_from_step [OF i Cons.prems(2-4), of c cs] by blast
  have ne: "cell k \<noteq> cell i" if "k < i" for k using cell_inj [of k i] that i by auto
  show ?case
  proof (cases "cs = []")
    case True
    then show ?thesis using s'(1,3) ne by (simp del: send_from.simps(2))
  next
    case False
    then have "i < 31" using Cons.prems(1) by (cases cs) auto
    note a = mp [OF s'(4) this]
    have ih: "\<forall>j < length cs. ddram (displayed d (send_from i row (c # cs) s)) (cell (i + 1 + j)) = Some (cs ! j)"
      "\<forall>k < i + 1. ddram (displayed d (send_from i row (c # cs) s)) (cell k) = ddram (displayed d s') (cell k)"
      using Cons.IH [OF _ s'(2) conjunct1 [OF a] conjunct2 [OF a]] Cons.prems(1) unfolding s'(1) by simp_all
    have "ddram (displayed d (send_from i row (c # cs) s)) (cell (i + j)) = Some ((c # cs) ! j)" if "j < length (c # cs)" for j
      using ih s'(3) that by (cases j) (simp_all del: send_from.simps)
    moreover have "ddram (displayed d (send_from i row (c # cs) s)) (cell k) = ddram (displayed d s) (cell k)" if "k < i" for k
      using ih(2) s'(3) ne [OF that] that by (simp del: send_from.simps)
    ultimately show ?thesis by blast
  qed
qed simp

section \<open>Properties\<close>

text \<open>The display receives exactly the bytes that are sent, data as data and instructions as
  instructions: both halves and the select line survive the way over port A.\<close>

theorem lcd_transfers_bytes:
  assumes "even (length (pulses s))"
  shows "lcd_bytes (pulses (lcd_send_data c s)) = lcd_bytes (pulses s) @ [Data c]
    \<and> lcd_bytes (pulses (lcd_send_instruction c s)) = lcd_bytes (pulses s) @ [Instr c]"
  using sent_bytes [OF assms] by blast

text \<open>A string of up to 32 characters sent to a display whose address is zero fills the first
  row and then the second: each character ends up in its cell.\<close>

theorem lcd_string_layout:
  assumes "length str \<le> 32" "even (length (pulses s))" "ac (displayed d s) = 0" "j < length str"
  shows "ddram (displayed d (lcd_send_string str s)) (if j < 16 then j else 0x40 + (j - 16)) = Some (str ! j)"
  using send_from_cells [of 0 str s d 0] assms by (simp add: lcd_send_string_def cell_def)

text \<open>The initialisation: three times the eight bit request, the switch to four bits, and five
  instructions. The third, commented as switching the display off, sets the address to zero;
  the display is never switched off.\<close>

theorem lcd_init_sequence:
  "\<exists>ps. pulses (lcd_init s) = pulses s @ [0x34, 0x34, 0x34, 0x24] @ ps
    \<and> lcd_bytes ps = [Instr 0x28, Instr 0x80, Instr 0x01, Instr 0x06, Instr 0x0F]"
  by (simp add: lcd_init_def lcd_reset_def lcd_busy_wait_def lcd_set_4bit_interface_def lcd_send_instruction_def
      lcd_send_pulse_def Let_def port_defs)

section \<open>Witnesses\<close>

definition port_zero :: port where
  "port_zero = \<lparr>PORTA = 0, pulses = []\<rparr>"

theorem lcd_transfers_bytes_witness: "lcd_bytes (pulses (lcd_send_data 0x46 port_zero)) = [Data 0x46]"
  using lcd_transfers_bytes [of port_zero "0x46"] by (simp add: port_zero_def)

theorem lcd_string_layout_witness:
  "ddram (displayed \<lparr>ac = 0, ddram = (\<lambda>a. None)\<rparr> (lcd_send_string (replicate 16 0x46 @ [0x52]) port_zero)) 0x40 = Some 0x52"
  using lcd_string_layout [of "replicate 16 0x46 @ [0x52]" port_zero "\<lparr>ac = 0, ddram = (\<lambda>a. None)\<rparr>" 16]
  by (simp add: port_zero_def displayed_def nth_append)

end
