(* ===== verification/Module.thy ===== *)
theory Module
  imports Spi
begin

text \<open>
  A slave that goes on where the last byte left it: the rounds of its loop, or its interrupt, one
  after the other, served to a master over a wire; and the contract under which a master's
  process always runs to its end.
\<close>

section \<open>Rounds\<close>

text \<open>
  A module is idle or in the middle of a round of its loop (or of its interrupt), next to its
  state. \<open>body e s\<close> is a round, with \<open>e\<close> for what is uninitialised in it, \<open>fin\<close> what it
  does with its result.
\<close>

type_synonym ('r, 's) module = "'r proc option \<times> 's"

definition after :: "('r \<Rightarrow> 's \<Rightarrow> 's) \<Rightarrow> 'r proc \<Rightarrow> 's \<Rightarrow> ('r, 's) module" where
  "after fin p s = (case p of Ret r \<Rightarrow> (None, fin r s) | _ \<Rightarrow> (Some p, s))"

primrec serve ::
  "('e \<Rightarrow> 's \<Rightarrow> 'r proc) \<Rightarrow> ('r \<Rightarrow> 's \<Rightarrow> 's) \<Rightarrow> (nat \<Rightarrow> 'e) \<Rightarrow> 'm proc \<Rightarrow> wire \<Rightarrow> nat \<Rightarrow> ('r, 's) module
    \<Rightarrow> 'm proc \<times> ('r, 's) module" where
  "serve body fin env (Ret a) w t c = (Ret a, c)"
| "serve body fin env Crash w t c = (Crash, c)"
| "serve body fin env (Xfer m f) w t c =
     (case (case fst c of None \<Rightarrow> body (env t) (snd c) | Some p \<Rightarrow> p) of
        Xfer b g \<Rightarrow> serve body fin env (f (snd (w t) b)) w (Suc t) (after fin (g (fst (w t) m)) (snd c))
      | _ \<Rightarrow> (Xfer m f, c))"

lemma serve_step:
  "(case p of None \<Rightarrow> body (env t) s | Some q \<Rightarrow> q) = Xfer b g \<Longrightarrow>
   serve body fin env (Xfer m f) w t (p, s) =
     serve body fin env (f (snd (w t) b)) w (Suc t) (after fin (g (fst (w t) m)) s)"
  by (cases p) simp_all

text \<open>One byte over an undisturbed wire.\<close>

lemma serve_start:
  "body (env t) s = Xfer b g \<Longrightarrow>
   serve body fin env (Xfer m f) perfect t (None, s) = serve body fin env (f b) perfect (Suc t) (after fin (g m) s)"
  by (simp add: perfect_def)

lemma serve_on:
  "serve body fin env (Xfer m f) perfect t (Some (Xfer b g), s) = serve body fin env (f b) perfect (Suc t) (after fin (g m) s)"
  by (simp add: perfect_def)

lemma after_simps [simp]:
  "after fin (Ret r) s = (None, fin r s)" "after fin (Xfer b g) s = (Some (Xfer b g), s)"
  by (simp_all add: after_def)

definition module_ok :: "('r \<Rightarrow> 's \<Rightarrow> 's) \<Rightarrow> ('s \<Rightarrow> bool) \<Rightarrow> ('r, 's) module \<Rightarrow> bool" where
  "module_ok fin sound c \<longleftrightarrow> sound (snd c)
     \<and> (case fst c of None \<Rightarrow> True
        | Some p \<Rightarrow> (\<exists>b g. p = Xfer b g) \<and> leaves (\<lambda>r. sound (fin r (snd c))) p)"

text \<open>The contract of a module: it starts by waiting for a byte, and whatever arrives, a round
  stays defined and keeps the invariant.\<close>

locale bus_module =
  fixes body :: "'e \<Rightarrow> 's \<Rightarrow> 'r proc" and fin :: "'r \<Rightarrow> 's \<Rightarrow> 's"
    and good :: "'e \<Rightarrow> bool" and sound :: "'s \<Rightarrow> bool"
  assumes waits: "\<exists>b g. body e s = Xfer b g"
    and round: "good e \<Longrightarrow> sound s \<Longrightarrow> leaves (\<lambda>r. sound (fin r s)) (body e s)"
begin

lemma serve_ok:
  "leaves P m \<Longrightarrow> module_ok fin sound c \<Longrightarrow> \<forall>t. good (env t) \<Longrightarrow>
   \<exists>a c'. serve body fin env m w t c = (Ret a, c') \<and> P a \<and> module_ok fin sound c'"
proof (induction m arbitrary: t c)
  case (Xfer m f)
  obtain p s where c: "c = (p, s)" by force
  let ?cur = "case p of None \<Rightarrow> body (env t) s | Some q \<Rightarrow> q"
  have sound: "sound s" using Xfer.prems(2) by (simp add: c module_ok_def)
  have cur: "(\<exists>b g. ?cur = Xfer b g) \<and> leaves (\<lambda>r. sound (fin r s)) ?cur"
    using Xfer.prems waits round [of "env t" s] by (auto simp: c module_ok_def split: option.splits)
  then obtain b g where bg: "?cur = Xfer b g" by blast
  with cur have "leaves (\<lambda>r. sound (fin r s)) (g (fst (w t) m))" by simp
  with sound have "module_ok fin sound (after fin (g (fst (w t) m)) s)"
    by (cases "g (fst (w t) m)") (simp_all add: after_def module_ok_def)
  with Xfer show ?case unfolding c serve_step [where body = body and env = env, OF bg] by simp
qed auto

end

text \<open>A transaction in which the module finishes its round at the end, as \<^verbatim>\<open>Spi\<close> has it.\<close>

lemma serve_exch:
  "exch m w t p = (Ret a, Ret r) \<Longrightarrow> (\<And>x. p \<noteq> Ret x) \<Longrightarrow>
   serve body fin env m w t (Some p, s) = (Ret a, None, fin r s)"
proof (induction m arbitrary: t p)
  case (Xfer m f)
  then obtain b g where p: "p = Xfer b g" by (cases p) auto
  with Xfer.prems have e: "exch (f (snd (w t) b)) w (Suc t) (g (fst (w t) m)) = (Ret a, Ret r)" by simp
  show ?case
  proof (cases "g (fst (w t) m)")
    case (Ret x)
    with e have "f (snd (w t) b) = Ret a \<and> x = r" by (cases "f (snd (w t) b)") auto
    with Ret p show ?thesis by (simp add: after_def)
  qed (use e p Xfer.IH in \<open>simp_all add: after_def\<close>)
qed auto

lemma serve_idle:
  "body (env t) s = Xfer b g \<Longrightarrow> serve body fin env (Xfer m f) w t (None, s) = serve body fin env (Xfer m f) w t (Some (body (env t) s), s)"
  by simp

lemma serve_bind:
  "serve body fin env m w t c = (Ret a, c') \<Longrightarrow>
   \<exists>t'. serve body fin env (bind m k) w t c = serve body fin env (k a) w t' c'"
proof (induction m arbitrary: t c)
  case (Xfer x f)
  obtain p s where c: "c = (p, s)" by force
  from Xfer.prems obtain b g where bg: "(case p of None \<Rightarrow> body (env t) s | Some q \<Rightarrow> q) = Xfer b g"
    by (cases p; cases "case p of None \<Rightarrow> body (env t) s | Some q \<Rightarrow> q") (auto simp: c split: proc.splits)
  note step = serve_step [where body = body and env = env, OF bg]
  from Xfer.prems have "serve body fin env (f (snd (w t) b)) w (Suc t) (after fin (g (fst (w t) x)) s) = (Ret a, c')"
    unfolding c step .
  from Xfer.IH [OF rangeI this] show ?case unfolding c bind.simps step .
qed auto

lemma leaves_mono: "leaves P p \<Longrightarrow> (\<And>a. P a \<Longrightarrow> Q a) \<Longrightarrow> leaves Q p"
  by (induction p) auto

lemma depth_leaves: "depth_le p n \<Longrightarrow> leaves (\<lambda>a. True) p"
proof (induction p arbitrary: n)
  case (Xfer b f)
  then show ?case by (cases n) auto
qed auto

end
