(* ===== verification/Taxi.thy ===== *)
theory Taxi
  imports Module Link Bus Sens Main_Loop
begin

text \<open>
  The taxi as a whole: the communication module's threads, the bus, and the two AVR modules at
  the other end of its wires, composed from the steps of the components. A module goes on
  where the last byte left it, so a disturbed transaction can leave it in the middle of an
  answer. What the wires do to the bytes is restricted by the predicate \<open>W\<close> only.
\<close>

section \<open>The two modules\<close>

definition ctrl_round :: "u8 \<times> u8 list \<Rightarrow> ctrl_state \<Rightarrow> (u8 \<times> u8 list) proc" where
  "ctrl_round e s = ctrl_body (fst e) (snd e)"

definition sens_fin :: "u8 \<times> sens_state \<Rightarrow> sens_state \<Rightarrow> sens_state" where
  "sens_fin r s = snd r"

definition sens_ok :: "(fp \<Rightarrow> fp \<Rightarrow> fp) \<Rightarrow> sens_state \<Rightarrow> bool" where
  "sens_ok pow s \<longleftrightarrow> sensors s = SENS_EMPTY
     \<or> (\<exists>a b w. a < 1024 \<and> b < 1024 \<and> sensors s = measure_sens pow a b w)"

lemma sens_ok_reset: "sens_ok pow (sens_reset s)"
  by (simp add: sens_ok_def sens_reset_def)

interpretation ctrl_module: bus_module ctrl_round ctrl_iter "\<lambda>e. length (snd e) = 4" ctrl_ok
proof
  fix e s
  show "\<exists>b g. ctrl_round e s = Xfer b g" by (simp add: ctrl_round_def ctrl_body_def spi_accept_outside)
  show "leaves (\<lambda>r. ctrl_ok (ctrl_iter r s)) (ctrl_round e s)" if "length (snd e) = 4" "ctrl_ok s"
  proof -
    from slave_loop.bounded [OF slave_loop_ctrl [OF that(1)]]
    have "leaves (\<lambda>r. True) (ctrl_round e s)" unfolding ctrl_round_def by (rule depth_leaves)
    then show ?thesis
      by (rule leaves_mono) (simp add: ctrl_iter_def ctrl_ok_step that(2))
  qed
qed

interpretation sens_module: bus_module SPI_STC sens_fin "\<lambda>e. True" "sens_ok pow" for pow
proof
  fix e s
  show "\<exists>b g. SPI_STC e s = Xfer b g" by (simp add: SPI_STC_def)
  show "leaves (\<lambda>r. sens_ok pow (sens_fin r s)) (SPI_STC e s)" if "sens_ok pow s"
    by (rule leaves_mono [OF SPI_STC_results]) (use that in \<open>auto simp: sens_fin_def sens_ok_reset\<close>)
qed

section \<open>A transaction\<close>

text \<open>
  What \<open>bus_thread\<close> does on the wire for one order: the transaction and, if it failed, the zeros
  of \<open>spi_sync\<close>. The order is back in the queue by then; the zeros do not touch it.
\<close>

definition transaction :: "'h order \<Rightarrow> (bool \<times> u8 list option) proc" where
  "transaction p =
     bind (execute p) (\<lambda>(success, dst).
       bind (if success then Ret () else spi_sync (MAX_DATA_LENGTH + 2)) (\<lambda>_. Ret (success, dst)))"

text \<open>The call of the handler, with the buffer of the order; \<open>bsh_sens_recv\<close> is the only one.\<close>

definition handled :: "int \<times> int \<Rightarrow> bool \<Rightarrow> u8 list option \<Rightarrow> unit node \<Rightarrow> app \<Rightarrow> app" where
  "handled now success dst n a =
     (if success \<and> handler n \<noteq> None then bsh_sens_recv now (src_dst (store_dst dst n)) a else a)"

lemma leaves_sync: "leaves (\<lambda>u. True) (spi_sync k)"
  by (induction k) (simp_all add: master_tranceive_def)

lemma leaves_transaction:
  "order_fits p \<Longrightarrow>
   leaves (\<lambda>(ok, dst). case dst of None \<Rightarrow> True | Some d \<Rightarrow> length d = len (bc (o_bc p))) (transaction p)"
  unfolding transaction_def
  by (rule leaves_bind [OF leaves_execute])
     (auto simp del: spi_sync.simps simp add: spi_sync_Suc leaves_bind [OF leaves_sync])

text \<open>On an undisturbed wire the sensor module is idle after every transaction.\<close>

lemma sens_zero: "serve SPI_STC sens_fin env (spi_sync k) perfect t (None, s) = (Ret (), None, s)"
proof (induction k arbitrary: t)
  case (Suc k)
  then show ?case
    unfolding spi_sync_Suc by (simp add: perfect_def SPI_STC_def spi_accept_zero SENS_SLAVE_def after_def sens_fin_def)
qed simp

lemma sens_read_only: "bc_ok p \<Longrightarrow> slave (bc p) = SLAVE_SENS \<Longrightarrow> p = BCSS_at BBS_GET \<or> \<not> write (bc p) \<and> len (bc p) = 0
    \<and> cmd (bc p) \<in> {BBS_RST, BBS_SYN}"
  by (auto simp: bc_ok_iff bc_valid_ptrs_def proto_simps)

lemma sens_short:
  assumes "bc_ok p" "slave (bc p) = SLAVE_SENS" "p \<noteq> BCSS_at BBS_GET"
  shows "\<exists>ok s'. serve SPI_STC sens_fin env (receive (bc p)) perfect t (None, s) = (Ret (ok, Some []), None, s')"
proof -
  note p = sens_read_only [OF assms(1,2)] assms
  let ?cs = "cs_pack (cmd (bc p)) (cmd (bc p))"
  have cs: "cs_cmd ?cs = cmd (bc p)" using nibble_id [of "cmd (bc p)"] bc_ok_fields [OF assms(1)] by simp
  have acc: "spi_accept [] True SENS_SLAVE ?cs 0 = Xfer (ACKS ! SLAVE_SENS) (\<lambda>_. Ret (cmd (bc p), []))"
    using spi_accept_read [of p ?cs SENS_SLAVE "[]" 0] p cs by (auto simp: SENS_SLAVE_def SLAVE_SENS_def)
  have idle: "spi_accept [] True SENS_SLAVE 0 0 = Ret (BB_INVALID, [])"
    by (rule spi_accept_zero) (simp add: SENS_SLAVE_def)
  have chk: "\<exists>ok. cs_check x [] 0 = Some ok" for x by (simp add: cs_check_def)
  have get: "cmd (bc p) \<noteq> BBS_GET" using p by (auto simp: BBS_GET_def BBS_RST_def BBS_SYN_def)
  show ?thesis
    using p get chk
    by (auto simp: receive_bc SPI_STC_def acc idle after_def perfect_def sens_fin_def split: option.splits)
qed

lemma sens_get:
  "serve SPI_STC sens_fin env (receive (bc (BCSS_at BBS_GET))) perfect t (None, s)
    = (Ret (True, Some (sens_bytes (sensors s))), None, s)"
proof -
  have e: "exch (receive (bc (BCSS_at BBS_GET))) perfect t (SPI_STC (env t) s)
      = (Ret (True, Some (sens_bytes (sensors s))), Ret (BBS_GET, s))"
    using sens_read [of perfect t "env t" s]
    by (simp add: perfect_def [abs_def]) (simp add: perfect_def [symmetric, abs_def])
  obtain b f where r: "receive (bc (BCSS_at BBS_GET)) = Xfer b f"
    using receive_bc [of "BCSS_at BBS_GET"] by simp
  obtain b' g where g: "SPI_STC (env t) s = Xfer b' g" by (simp add: SPI_STC_def)
  then have "\<And>x. SPI_STC (env t) s \<noteq> Ret x" by simp
  from serve_exch [OF e this, of SPI_STC sens_fin env s] show ?thesis
    unfolding r serve_idle [of SPI_STC env t s, OF g] by (simp only: sens_fin_def snd_conv)
qed

lemma sens_transaction:
  assumes "order_fits p" "slave (bc (o_bc p)) = SLAVE_SENS"
    and "serve SPI_STC sens_fin env (transaction p) perfect t (None, s) = (Ret (ok, dst), c')"
  shows "fst c' = None \<and> (o_bc p = BCSS_at BBS_GET \<longrightarrow> ok \<and> dst = Some (sens_bytes (sensors s)))"
proof -
  have ok: "bc_ok (o_bc p)" using assms(1) by (simp add: order_fits_def)
  have ex: "execute p = receive (bc (o_bc p))"
    using sens_read_only [OF ok assms(2)] by (auto simp: execute_def)
  let ?k = "\<lambda>(success, dst). bind (if success then Ret () else spi_sync (MAX_DATA_LENGTH + 2)) (\<lambda>_. Ret (success, dst))"
  obtain r c1 where r: "serve SPI_STC sens_fin env (receive (bc (o_bc p))) perfect t (None, s) = (Ret r, c1)"
    "fst c1 = None" "o_bc p = BCSS_at BBS_GET \<longrightarrow> r = (True, Some (sens_bytes (sensors s)))"
    using sens_short [OF ok assms(2), of env t s] sens_get [of env t s] by (cases "o_bc p = BCSS_at BBS_GET") auto
  from serve_bind [OF r(1), of ?k] obtain t1 where
    1: "serve SPI_STC sens_fin env (transaction p) perfect t (None, s) = serve SPI_STC sens_fin env (?k r) perfect t1 c1"
    unfolding transaction_def ex by blast
  obtain s1 where c1: "c1 = (None, s1)" using r(2) by (cases c1) auto
  show ?thesis
  proof (cases "fst r")
    case True
    then have k: "?k r = Ret r" by (cases r) simp
    show ?thesis using assms(3) r(3) c1 unfolding 1 k by auto
  next
    case False
    then have k: "?k r = bind (spi_sync (MAX_DATA_LENGTH + 2)) (\<lambda>_. Ret r)" by (cases r) simp
    from serve_bind [OF sens_zero [of env "MAX_DATA_LENGTH + 2" t1 s1], of "\<lambda>_. Ret r"]
    have "serve SPI_STC sens_fin env (?k r) perfect t1 c1 = (Ret r, None, s1)"
      unfolding k c1 by auto
    then show ?thesis using assms(3) r(3) unfolding 1 by auto
  qed
qed

section \<open>The whole\<close>

text \<open>\<open>t_events\<close> is history: what has happened to the bus.\<close>

record taxi =
  t_app :: app
  t_bus :: "unit bus"
  t_ctrl :: "(u8 \<times> u8 list, ctrl_state) module"
  t_sens :: "(u8 \<times> sens_state, sens_state) module"
  t_events :: "unit event list"

text \<open>The orders a step of the communication module schedules.\<close>

definition posts :: "app \<Rightarrow> app \<Rightarrow> request list" where
  "posts a a' = take (length (scheduled a') - length (scheduled a)) (scheduled a')"

text \<open>A step of the sensor module that does not need the bus.\<close>

inductive sens_own :: "(fp \<Rightarrow> fp \<Rightarrow> fp) \<Rightarrow> sens_state \<Rightarrow> sens_state \<Rightarrow> bool" for pow where
  "sens_own pow s (INT0 s)"
| "sens_own pow s (INT1 s)"
| "sens_own pow s (WL_tick s)"
| "sampled s = None \<Longrightarrow> sens_own pow s (sample s)"
| "adc_front < 1024 \<Longrightarrow> adc_right < 1024 \<Longrightarrow> sens_own pow s (publish pow adc_front adc_right s)"

inductive_cases sens_ownE: "sens_own pow s s'"

text \<open>Messages and steps of the main thread; sensor values arrive through the bus only.\<close>

fun own_event :: "app_event \<Rightarrow> bool" where
  "own_event (Received now bytes) = False"
| "own_event e = True"

definition bus_does :: "unit event \<Rightarrow> taxi \<Rightarrow> taxi option" where
  "bus_does e s = (if event_ok (t_bus s) e
     then map_option (\<lambda>b. s\<lparr>t_bus := b, t_events := t_events s @ [e]\<rparr>) (bus_step (t_bus s) e) else None)"

inductive taxi_step :: "(fp \<Rightarrow> fp \<Rightarrow> fp) \<Rightarrow> (nat \<Rightarrow> string) \<Rightarrow> (wire \<Rightarrow> bool) \<Rightarrow> taxi \<Rightarrow> taxi \<Rightarrow> bool" for pow heap W where
  quiet: "app_step heap e (t_app s) = Some a \<Longrightarrow> own_event e \<Longrightarrow> posts (t_app s) a = [] \<Longrightarrow>
    taxi_step pow heap W s (s\<lparr>t_app := a\<rparr>)"
| post: "app_step heap e (t_app s) = Some a \<Longrightarrow> own_event e \<Longrightarrow> posts (t_app s) a = [(b, msg, hnd)] \<Longrightarrow>
    bus_does (Schedule x b msg junk (if hnd then Some () else None)) (s\<lparr>t_app := a\<rparr>) = Some s' \<Longrightarrow>
    taxi_step pow heap W s s'"
| thread: "e \<in> {Take, Wake, Terminate} \<Longrightarrow> bus_does e s = Some s' \<Longrightarrow> taxi_step pow heap W s s'"
| ctrl: "pc (t_bus s) = Exec x \<Longrightarrow> mem (t_bus s) x = Some n \<Longrightarrow> slave (bc (o_bc n)) = SLAVE_CTRL \<Longrightarrow> W w \<Longrightarrow>
    \<forall>t. length (snd (env t)) = 4 \<Longrightarrow>
    serve ctrl_round ctrl_iter env (transaction (order.truncate n)) w t (t_ctrl s) = (Ret (ok, dst), c') \<Longrightarrow>
    bus_does (Outcome ok dst) s = Some s' \<Longrightarrow>
    taxi_step pow heap W s (s'\<lparr>t_ctrl := c', t_app := handled now ok dst n (t_app s)\<rparr>)"
| sens: "pc (t_bus s) = Exec x \<Longrightarrow> mem (t_bus s) x = Some n \<Longrightarrow> slave (bc (o_bc n)) = SLAVE_SENS \<Longrightarrow> W w \<Longrightarrow>
    serve SPI_STC sens_fin env' (transaction (order.truncate n)) w t (t_sens s) = (Ret (ok, dst), d') \<Longrightarrow>
    bus_does (Outcome ok dst) s = Some s' \<Longrightarrow>
    taxi_step pow heap W s (s'\<lparr>t_sens := d', t_app := handled now ok dst n (t_app s)\<rparr>)"
| own: "t_sens s = (None, d) \<Longrightarrow> sens_own pow d d' \<Longrightarrow> taxi_step pow heap W s (s\<lparr>t_sens := (None, d')\<rparr>)"

text \<open>Both modules have started and \<open>bus_sync\<close> is over; \<^verbatim>\<open>main\<close> has scheduled its two resets.\<close>

definition taxi_start :: "int \<times> int \<Rightarrow> taxi" where
  "taxi_start now = \<lparr>t_app = main_init now, t_bus = startup, t_ctrl = (None, ctrl_init), t_sens = (None, sens_init),
     t_events = startup_events\<rparr>"

inductive taxi_reach :: "(fp \<Rightarrow> fp \<Rightarrow> fp) \<Rightarrow> (nat \<Rightarrow> string) \<Rightarrow> (wire \<Rightarrow> bool) \<Rightarrow> taxi \<Rightarrow> bool" for pow heap W where
  start: "taxi_reach pow heap W (taxi_start now)"
| step: "taxi_reach pow heap W s \<Longrightarrow> taxi_step pow heap W s s' \<Longrightarrow> taxi_reach pow heap W s'"

section \<open>What the bus executes\<close>

text \<open>The order in execution fits its command, and a handler is only attached to a read of the
  sensor values, if it was scheduled so.\<close>

fun handler_fits :: "unit event \<Rightarrow> bool" where
  "handler_fits (Schedule x b msg junk hnd) = (hnd \<noteq> None \<longrightarrow> b = BCSS_at BBS_GET)"
| "handler_fits e = True"

definition handler_ok :: "unit order \<Rightarrow> bool" where
  "handler_ok p \<longleftrightarrow> (handler p \<noteq> None \<longrightarrow> o_bc p = BCSS_at BBS_GET)"

definition handlers_ok :: "unit abus \<Rightarrow> bool" where
  "handlers_ok a \<longleftrightarrow> (\<forall>p \<in> set (orders a). handler_ok p) \<and> (case apc a of AExec p \<Rightarrow> handler_ok p | _ \<Rightarrow> True)"

lemma handler_received [simp]: "handler_ok (received dst p) = handler_ok p"
  by (simp add: received_def handler_ok_def split: option.splits)

lemma handler_oq: "\<forall>p \<in> set q. handler_ok p \<Longrightarrow> handler_ok p \<Longrightarrow> \<forall>p \<in> set (oq q p r). handler_ok p"
  by (rule fifo.all_items)

lemma handlers_ok_step: "handlers_ok a \<Longrightarrow> handler_fits e \<Longrightarrow> handlers_ok (abus_step a e)"
proof (induction a e rule: abus_step.induct)
  case (1 s a b msg junk hnd)
  moreover from this have "handler_ok \<lparr>o_bc = b, src_dst = payload_of b msg junk, handler = hnd\<rparr>"
    by (simp add: handler_ok_def)
  ultimately show ?case
    using handler_oq [of "orders s" "\<lparr>o_bc = b, src_dst = payload_of b msg junk, handler = hnd\<rparr>" False]
    by (simp add: handlers_ok_def)
next
  case (3 s success dst)
  show ?case
  proof (cases "apc s")
    case (AExec p)
    with 3 show ?thesis
      using handler_oq [of "orders s" "received dst p" True] by (simp add: handlers_ok_def aloop_end_def)
  qed (use 3 in simp_all)
qed (auto simp: handlers_ok_def aloop_end_def split: list.splits)

lemma handlers_ok_run:
  "abus_steps a es a' \<Longrightarrow> handlers_ok a \<Longrightarrow> \<forall>e \<in> set es. handler_fits e \<Longrightarrow> handlers_ok a'"
  by (induction rule: abus_steps.induct) (auto intro: handlers_ok_step)

lemma executed:
  assumes "bus_steps bus_create es s" "pc s = Exec x"
  obtains n where "mem s x = Some n" "order_fits (order.truncate n)"
    "\<forall>e \<in> set es. handler_fits e \<Longrightarrow> handler n \<noteq> None \<Longrightarrow> o_bc n = BCSS_at BBS_GET"
proof -
  from assms(1) obtain a where a: "abus_steps abus_create es a" "bus_sim s a" "abus_inv a" by (rule run_from_create)
  from a(2) obtain as where "queue_rep s as" using sim_rep by blast
  from sim_memory [OF a(2) this] assms(2) obtain n where n: "mem s x = Some n"
    by (auto simp: held_def dom_def)
  have apc: "apc a = AExec (order.truncate n)" using sim_pc [OF a(2)] assms(2) n by (simp add: apc_of_def)
  moreover have "handlers_ok abus_create" by (simp add: handlers_ok_def abus_create_def)
  ultimately show ?thesis
    using a(3) n handlers_ok_run [OF a(1)]
    by (intro that [OF n]) (auto simp: abus_inv_def handlers_ok_def handler_ok_def order.defs)
qed

lemma bus_does_step:
  "bus_does e s = Some s' \<Longrightarrow> bus_steps bus_create (t_events s) (t_bus s) \<Longrightarrow>
   bus_steps bus_create (t_events s') (t_bus s') \<and> t_events s' = t_events s @ [e]
     \<and> t_app s' = t_app s \<and> t_ctrl s' = t_ctrl s \<and> t_sens s' = t_sens s"
  by (auto simp: bus_does_def split: if_splits intro: bus_steps.snoc)

lemma bus_does_defined:
  assumes "bus_steps bus_create (t_events s) (t_bus s)" "event_ok (t_bus s) e"
  shows "\<exists>s'. bus_does e s = Some s'"
proof -
  from assms(1) obtain a where "bus_sim (t_bus s) a" by (rule run_from_create)
  from sim_step [OF this assms(2)] assms(2) show ?thesis by (auto simp: bus_does_def)
qed

section \<open>What holds in every reachable state\<close>

lemma app_posts:
  assumes "app_step heap e a = Some a'"
  shows "scheduled a' = scheduled a \<or> (\<exists>r. scheduled a' = r # scheduled a)"
proof (cases e)
  case (Main ip)
  then show ?thesis
    using assms by (cases "mpc a") (auto simp: main_step_def Let_def split: prod.splits if_splits)
next
  case (Message msg)
  then obtain rsp l where "execute_cmd (cmds_all (cmds heap)) msg a = Some (rsp, a', l)" using assms by auto
  from execute_cases [OF this] have "changes a a'" by (auto intro: command_effect changes.nothing)
  then show ?thesis by cases auto
next
  case (Received now bytes)
  then show ?thesis using assms by (auto simp: bsh_sens_recv_def Let_def)
qed

lemma posts_scheduled:
  assumes "app_step heap e a = Some a'"
  shows "scheduled a' = posts a a' @ scheduled a" "posts a a' = [] \<or> (\<exists>r. posts a a' = [r])"
  using app_posts [OF assms] by (auto simp: posts_def)

text \<open>The payload last scheduled for a command, as the communication module sees it.\<close>

definition newest :: "bc_ptr \<Rightarrow> request list \<Rightarrow> u8 list option" where
  "newest b rs = (case List.find (\<lambda>r. fst r = b) rs of None \<Rightarrow> None | Some r \<Rightarrow> fst (snd r))"

definition taxi_ok :: "(fp \<Rightarrow> fp \<Rightarrow> fp) \<Rightarrow> taxi \<Rightarrow> bool" where
  "taxi_ok pow s \<longleftrightarrow> bus_steps bus_create (t_events s) (t_bus s) \<and> app_ok (t_app s)
     \<and> module_ok ctrl_iter ctrl_ok (t_ctrl s) \<and> module_ok sens_fin (sens_ok pow) (t_sens s)
     \<and> (\<forall>e \<in> set (t_events s). handler_fits e)
     \<and> (\<forall>b. write (bc b) \<longrightarrow> latest b (t_events s) = newest b (scheduled (t_app s)))"

lemma handled_frame: "scheduled (handled now ok dst n a) = scheduled a" "mpc (handled now ok dst n a) = mpc a"
    "app_ok a \<Longrightarrow> app_ok (handled now ok dst n a)"
  using app_ok_step [of undefined "Received now (src_dst (store_dst dst n))" a]
  by (auto simp: handled_def bsh_sens_recv_def Let_def)

lemma sens_ok_own: "sens_own pow s s' \<Longrightarrow> sens_ok pow s \<Longrightarrow> sens_ok pow s'"
  by (erule sens_ownE) (auto simp: sens_ok_def frame_simps publish_def split: option.split)

lemma taxi_ok_start: "taxi_ok pow (taxi_start now)"
proof -
  have "latest b startup_events = None" if "write (bc b)" for b
    using that by (auto simp: latest_def startup_events_def)
  moreover have "newest b (scheduled (main_init now)) = None" if "write (bc b)" for b
    using that by (auto simp: newest_def main_init_def schedule_def)
  ultimately show ?thesis
    using startup_steps app_ok_init ctrl_ok_init
    by (auto simp: taxi_ok_def taxi_start_def module_ok_def sens_ok_def sens_init_def startup_events_def)
qed

lemma taxi_ok_post:
  assumes "taxi_ok pow s" "app_step heap e (t_app s) = Some a" "posts (t_app s) a = [(b, msg, hnd)]"
    and "bus_does (Schedule x b msg junk (if hnd then Some () else None)) (s\<lparr>t_app := a\<rparr>) = Some s'"
  shows "taxi_ok pow s'"
proof -
  have a: "app_ok a" "scheduled a = (b, msg, hnd) # scheduled (t_app s)"
    using app_ok_step [OF assms(2)] posts_scheduled(1) [OF assms(2)] assms(1,3) by (simp_all add: taxi_ok_def)
  then have r: "req_ok (b, msg, hnd)" by (auto simp: app_ok_def)
  then have "write (bc b) \<Longrightarrow> Some (payload_of b msg junk) = msg"
    by (auto simp: req_ok_def payload_of_def split: option.splits)
  then show ?thesis
    using assms(1,4) a r bus_does_step [OF assms(4)]
    by (auto simp: taxi_ok_def newest_def req_ok_def)
qed

lemma taxi_ok_thread:
  assumes "taxi_ok pow s" "bus_does e s = Some s'" "e \<in> {Take, Wake, Terminate} \<or> (\<exists>ok dst. e = Outcome ok dst)"
    and "module_ok ctrl_iter ctrl_ok c'" "module_ok sens_fin (sens_ok pow) d'"
  shows "taxi_ok pow (s'\<lparr>t_ctrl := c', t_sens := d', t_app := handled now ok dst n (t_app s)\<rparr>)"
  using assms bus_does_step [OF assms(2)] by (auto simp: taxi_ok_def handled_frame)

lemma taxi_exec:
  assumes "taxi_ok pow s" "pc (t_bus s) = Exec x"
  obtains n where "mem (t_bus s) x = Some n" "order_fits (order.truncate n)"
    "handler n \<noteq> None \<longrightarrow> o_bc n = BCSS_at BBS_GET"
  using assms executed [of "t_events s" "t_bus s" x] by (auto simp: taxi_ok_def)

text \<open>Every transaction runs to its end, and leaves the module and the bus as they should be.\<close>

lemma ctrl_serves:
  assumes "taxi_ok pow s" "pc (t_bus s) = Exec x" "mem (t_bus s) x = Some n" "\<forall>t. length (snd (env t)) = 4"
  shows "\<exists>ok dst c'. serve ctrl_round ctrl_iter env (transaction (order.truncate n)) w t (t_ctrl s) = (Ret (ok, dst), c')
    \<and> event_ok (t_bus s) (Outcome ok dst) \<and> module_ok ctrl_iter ctrl_ok c'"
proof -
  have fits: "order_fits (order.truncate n)" using assms(3) by (rule_tac taxi_exec [OF assms(1,2)]) simp
  have "module_ok ctrl_iter ctrl_ok (t_ctrl s)" using assms(1) by (simp add: taxi_ok_def)
  from ctrl_module.serve_ok [OF leaves_transaction [OF fits] this assms(4), of w t] obtain ok dst c' where
    r: "serve ctrl_round ctrl_iter env (transaction (order.truncate n)) w t (t_ctrl s) = (Ret (ok, dst), c')"
    "case dst of None \<Rightarrow> True | Some d \<Rightarrow> length d = len (bc (o_bc n))" "module_ok ctrl_iter ctrl_ok c'"
    by (auto simp: order.defs)
  moreover from r(2) assms(2,3) have "event_ok (t_bus s) (Outcome ok dst)" by (simp split: option.splits)
  ultimately show ?thesis by blast
qed

lemma sens_serves:
  assumes "taxi_ok pow s" "pc (t_bus s) = Exec x" "mem (t_bus s) x = Some n"
  shows "\<exists>ok dst d'. serve SPI_STC sens_fin env (transaction (order.truncate n)) w t (t_sens s) = (Ret (ok, dst), d')
    \<and> event_ok (t_bus s) (Outcome ok dst) \<and> module_ok sens_fin (sens_ok pow) d'"
proof -
  have fits: "order_fits (order.truncate n)" using assms(3) by (rule_tac taxi_exec [OF assms(1,2)]) simp
  have "module_ok sens_fin (sens_ok pow) (t_sens s)" using assms(1) by (simp add: taxi_ok_def)
  from sens_module.serve_ok [OF leaves_transaction [OF fits] this, of env w t] obtain ok dst d' where
    r: "serve SPI_STC sens_fin env (transaction (order.truncate n)) w t (t_sens s) = (Ret (ok, dst), d')"
    "case dst of None \<Rightarrow> True | Some d \<Rightarrow> length d = len (bc (o_bc n))" "module_ok sens_fin (sens_ok pow) d'"
    by (auto simp: order.defs)
  moreover from r(2) assms(2,3) have "event_ok (t_bus s) (Outcome ok dst)" by (simp split: option.splits)
  ultimately show ?thesis by blast
qed

lemma taxi_ok_step: "taxi_step pow heap W s s' \<Longrightarrow> taxi_ok pow s \<Longrightarrow> taxi_ok pow s'"
proof (induction rule: taxi_step.induct)
  case (quiet e s a)
  then show ?case
    using app_ok_step [OF quiet.hyps(1)] posts_scheduled(1) [OF quiet.hyps(1)] by (auto simp: taxi_ok_def)
next
  case (post e s a b msg hnd x junk s')
  then show ?case by (blast intro: taxi_ok_post)
next
  case (thread e s s')
  then show ?case
    using bus_does_step [OF thread.hyps(2)] by (auto simp: taxi_ok_def)
next
  case (ctrl s x n w env t ok dst c' s' now)
  with ctrl_serves [OF ctrl.prems ctrl.hyps(1,2,5), of w t] have "module_ok ctrl_iter ctrl_ok c'" by auto
  with ctrl taxi_ok_thread [OF ctrl.prems ctrl.hyps(7) _ this, of "t_sens s" now ok dst n]
    bus_does_step [OF ctrl.hyps(7)] show ?case by (auto simp: taxi_ok_def handled_frame)
next
  case (sens s x n w env' t ok dst d' s' now)
  with sens_serves [OF sens.prems sens.hyps(1,2), of env' w t] have "module_ok sens_fin (sens_ok pow) d'" by auto
  with sens bus_does_step [OF sens.hyps(6)] show ?case by (auto simp: taxi_ok_def handled_frame)
next
  case (own s d d')
  then show ?case by (auto simp: taxi_ok_def module_ok_def intro: sens_ok_own)
qed

lemma taxi_ok_reach: "taxi_reach pow heap W s \<Longrightarrow> taxi_ok pow s"
  by (induction rule: taxi_reach.induct) (auto intro: taxi_ok_start taxi_ok_step)

section \<open>An undisturbed bus\<close>

text \<open>The communication module only ever works with values the sensor module has published.\<close>

definition undisturbed :: "wire \<Rightarrow> bool" where
  "undisturbed w \<longleftrightarrow> w = perfect"

fun mpc_sens :: "mpc \<Rightarrow> sens_val option" where
  "mpc_sens (M_Get sv) = Some sv"
| "mpc_sens (M_Choose sv) = Some sv"
| "mpc_sens (M_Execute sv) = Some sv"
| "mpc_sens (M_Ip sv c ip) = Some sv"
| "mpc_sens (M_Rc sv) = Some sv"
| "mpc_sens (M_Store sv c) = Some sv"
| "mpc_sens _ = None"

definition measured :: "(fp \<Rightarrow> fp \<Rightarrow> fp) \<Rightarrow> sens_val \<Rightarrow> bool" where
  "measured pow sv \<longleftrightarrow> (\<exists>d. (d = SENS_EMPTY \<or> (\<exists>a b w. a < 1024 \<and> b < 1024 \<and> d = measure_sens pow a b w))
     \<and> s_dist_front sv = dist_front d \<and> s_dist_right sv = dist_right d
     \<and> s_distance sv = distance d \<and> s_velocity sv = velocity d)"

definition values_ok :: "(fp \<Rightarrow> fp \<Rightarrow> fp) \<Rightarrow> app \<Rightarrow> bool" where
  "values_ok pow a \<longleftrightarrow> measured pow (sd_val (sens_data a))
     \<and> (case mpc_sens (mpc a) of None \<Rightarrow> True | Some sv \<Rightarrow> measured pow sv)"

lemma values_ok_own:
  assumes "app_step heap e a = Some a'" "own_event e" "values_ok pow a"
  shows "values_ok pow a'"
proof (cases e)
  case (Main ip)
  then show ?thesis
    using assms by (cases "mpc a") (auto simp: main_step_def Let_def values_ok_def split: prod.splits)
next
  case (Message msg)
  then obtain rsp l where "execute_cmd (cmds_all (cmds heap)) msg a = Some (rsp, a', l)" using assms by auto
  from execute_cases [OF this] have "changes a a'" by (auto intro: command_effect changes.nothing)
  then show ?thesis using assms(3) by cases (auto simp: values_ok_def)
qed (use assms in simp)

lemma velocity_measured: "fle (Fin 0) (velocity_of p)"
  using velocity_bounds [of p] velocity_zero_period
  by (cases "p = 0"; cases "p < WT_TOP") (auto simp: velocity_of_def word_neq_0_conv between_def fle_def)

lemma fle_zero: "fle (Fin 0) (Fin 0)"
  by (simp add: fle_def)

lemma measured_speed: "measured pow sv \<Longrightarrow> fle (Fin 0) (s_velocity sv)"
  by (auto simp: measured_def SENS_EMPTY_def measure_sens_def velocity_measured fle_zero)

lemma sens_ok_fits: "sens_ok pow s \<Longrightarrow> sens_fits (sensors s)"
  using fits_measured fits_empty by (auto simp: sens_ok_def)

definition calm_ok :: "(fp \<Rightarrow> fp \<Rightarrow> fp) \<Rightarrow> taxi \<Rightarrow> bool" where
  "calm_ok pow s \<longleftrightarrow> fst (t_sens s) = None \<and> values_ok pow (t_app s)"

lemma calm_ok_step: "taxi_step pow heap undisturbed s s' \<Longrightarrow> taxi_ok pow s \<Longrightarrow> calm_ok pow s \<Longrightarrow> calm_ok pow s'"
proof (induction rule: taxi_step.induct)
  case (quiet e s a)
  then show ?case using values_ok_own [OF quiet.hyps(1,2)] by (simp add: calm_ok_def)
next
  case (post e s a b msg hnd x junk s')
  then show ?case
    using values_ok_own [OF post.hyps(1,2)] by (auto simp: calm_ok_def bus_does_def split: if_splits)
next
  case (thread e s s')
  then show ?case by (auto simp: calm_ok_def bus_does_def split: if_splits)
next
  case (ctrl s x n w env t ok dst c' s' now)
  from ctrl.prems(1) ctrl.hyps(1) obtain n' where "mem (t_bus s) x = Some n'" "order_fits (order.truncate n')"
    "handler n' \<noteq> None \<longrightarrow> o_bc n' = BCSS_at BBS_GET" by (rule taxi_exec)
  with ctrl.hyps have "handled now ok dst n (t_app s) = t_app s"
    by (auto simp: handled_def SLAVE_CTRL_def SLAVE_SENS_def)
  with ctrl show ?case by (auto simp: calm_ok_def bus_does_def split: if_splits)
next
  case (sens s x n w env' t ok dst d' s' now)
  from sens.prems(1) sens.hyps(1) obtain n' where "mem (t_bus s) x = Some n'" "order_fits (order.truncate n')"
    "handler n' \<noteq> None \<longrightarrow> o_bc n' = BCSS_at BBS_GET" by (rule taxi_exec)
  with sens.hyps(2) have n: "order_fits (order.truncate n)" "handler n \<noteq> None \<Longrightarrow> o_bc n = BCSS_at BBS_GET" by auto
  obtain d where d: "t_sens s = (None, d)" using sens.prems(2) by (cases "t_sens s") (auto simp: calm_ok_def)
  have "sens_ok pow d" using sens.prems(1) by (simp add: taxi_ok_def module_ok_def d)
  note fits = sens_ok_fits [OF this]
  have published: "sensors d = SENS_EMPTY \<or> (\<exists>a b w. a < 1024 \<and> b < 1024 \<and> sensors d = measure_sens pow a b w)"
    using \<open>sens_ok pow d\<close> by (auto simp: sens_ok_def)
  have w: "w = perfect" using sens.hyps(4) by (simp add: undisturbed_def)
  from sens_transaction [OF n(1), of env' t d ok dst d'] sens.hyps(3,5)
  have r: "fst d' = None" "o_bc n = BCSS_at BBS_GET \<Longrightarrow> dst = Some (sens_bytes (sensors d))"
    by (simp_all add: order.defs w d)
  have "values_ok pow (handled now ok dst n (t_app s))"
  proof (cases "ok \<and> handler n \<noteq> None")
    case True
    with n(2) r(2) have "src_dst (store_dst dst n) = sens_bytes (sensors d)" by (simp add: store_dst_def)
    moreover have "measured pow \<lparr>s_dist_front = dist_front (sensors d), s_dist_right = dist_right (sensors d),
        s_distance = distance (sensors d), s_velocity = velocity (sensors d), s_time = u\<rparr>" for u
      unfolding measured_def using published by (intro exI [of _ "sensors d"]) simp
    ultimately show ?thesis
      using True sens.prems(2) bytes_sens_bytes [OF fits]
      by (simp add: handled_def bsh_sens_recv_def Let_def values_ok_def calm_ok_def)
  qed (use sens.prems(2) in \<open>auto simp: handled_def calm_ok_def\<close>)
  with r(1) show ?case by (simp add: calm_ok_def)
qed (auto simp: calm_ok_def)

lemma calm_ok_reach: "taxi_reach pow heap undisturbed s \<Longrightarrow> calm_ok pow s"
proof (induction rule: taxi_reach.induct)
  case (start now)
  show ?case
    by (auto simp: calm_ok_def taxi_start_def values_ok_def main_init_def schedule_def sens_zero_def measured_def SENS_EMPTY_def)
qed (auto intro: calm_ok_step taxi_ok_reach)

lemma ctrl_write_served:
  assumes "bc_ok p" "slave (bc p) = CTRL_SLAVE" "write (bc p)" "length msg = 4" "\<forall>t. length (snd (env t)) = 4"
  shows "serve ctrl_round ctrl_iter env (transaction \<lparr>o_bc = p, src_dst = msg, handler = h\<rparr>) perfect t (None, s)
    = (Ret (True, None), None, ctrl_step (cmd (bc p)) (bytes_float msg) s)"
proof -
  have len: "len (bc p) = 4" by (rule ctrl_writes_fit [OF assms(1-3)])
  have e: "exch (transmit (bc p) msg) perfect t (ctrl_round (env t) s) = (Ret True, Ret (cmd (bc p), msg))"
    using exch_write [OF assms(1,3), of msg "snd (env t)" perfect t 0 "fst (env t)"] len assms
    by (simp add: ctrl_round_def ctrl_body_def perfect_def [abs_def]) (simp add: perfect_def [symmetric, abs_def])
  obtain b g where g: "ctrl_round (env t) s = Xfer b g" using ctrl_module.waits by blast
  obtain b' f where f: "transmit (bc p) msg = Xfer b' f" using transmit_bc [OF assms(1) _ assms(3)] len assms(4) by simp
  have "\<And>x. ctrl_round (env t) s \<noteq> Ret x" using g by simp
  from serve_exch [OF e this, of ctrl_round ctrl_iter env s]
  have "serve ctrl_round ctrl_iter env (transmit (bc p) msg) perfect t (None, s)
      = (Ret True, None, ctrl_step (cmd (bc p)) (bytes_float msg) s)"
    unfolding f serve_idle [of ctrl_round env t s, OF g] by (simp only: ctrl_iter_def fst_conv snd_conv)
  from serve_bind [OF this, of "\<lambda>ok. bind (bind (Ret (ok, None)) (\<lambda>(success, dst).
       bind (if success then Ret () else spi_sync (MAX_DATA_LENGTH + 2)) (\<lambda>_. Ret (success, dst)))) Ret"]
  show ?thesis by (auto simp: transaction_def execute_def assms(3) bind_assoc simp del: spi_sync.simps)
qed

text \<open>The next step of the bus thread, and what the other threads schedule.\<close>

lemma fresh_address: "bus_steps bus_create es s \<Longrightarrow> \<exists>x. mem s x = None"
proof -
  assume "bus_steps bus_create es s"
  then obtain a where "bus_sim s a" by (rule run_from_create)
  moreover from this obtain as where "queue_rep s as" using sim_rep by blast
  ultimately have "dom (mem s) = set as \<union> held s" by (rule sim_memory)
  then have "finite (dom (mem s))" by (simp add: held_def split: pc.split)
  from ex_new_if_finite [OF _ this] show ?thesis by (auto simp: dom_def)
qed

lemma thread_moves:
  assumes "taxi_ok pow s" "W w" "pc (t_bus s) \<noteq> Exited"
  shows "\<exists>s' e. taxi_step pow heap W s s' \<and> thread_event e \<and> t_events s' = t_events s @ [e]"
proof -
  have steps: "bus_steps bus_create (t_events s) (t_bus s)" using assms(1) by (simp add: taxi_ok_def)
  have simple: ?thesis if "event_ok (t_bus s) e" "e \<in> {Take, Wake}" for e
  proof -
    from bus_does_defined [OF steps that(1)] obtain s' where "bus_does e s = Some s'" by blast
    with that(2) bus_does_step [OF this steps] show ?thesis
      by (intro exI [of _ s'] exI [of _ e]) (auto intro: taxi_step.thread)
  qed
  show ?thesis
  proof (cases "pc (t_bus s)")
    case (Exec x)
    obtain n where n: "mem (t_bus s) x = Some n" "order_fits (order.truncate n)"
      by (rule taxi_exec [OF assms(1) Exec])
    then have "bc_ok (o_bc n)" by (simp add: order_fits_def order.defs)
    then consider "slave (bc (o_bc n)) = SLAVE_CTRL" | "slave (bc (o_bc n)) = SLAVE_SENS"
      by (auto simp: bc_ok_iff bc_valid_ptrs_def proto_simps)
    then show ?thesis
    proof cases
      case 1
      let ?env = "\<lambda>t. (0, [0, 0, 0, 0])"
      from ctrl_serves [OF assms(1) Exec n(1), of ?env w 0] obtain ok dst c' where
        r: "serve ctrl_round ctrl_iter ?env (transaction (order.truncate n)) w 0 (t_ctrl s) = (Ret (ok, dst), c')"
        "event_ok (t_bus s) (Outcome ok dst)" by auto
      from bus_does_defined [OF steps r(2)] obtain s' where s': "bus_does (Outcome ok dst) s = Some s'" by blast
      from taxi_step.ctrl [where W = W and w = w, OF Exec n(1) 1 assms(2) _ r(1) s', of pow heap] bus_does_step [OF s' steps]
      show ?thesis by (intro exI [of _ "_\<lparr>t_ctrl := _, t_app := _\<rparr>"] exI [of _ "Outcome ok dst"] conjI) auto
    next
      case 2
      from sens_serves [OF assms(1) Exec n(1), of "\<lambda>t. 0" w 0] obtain ok dst d' where
        r: "serve SPI_STC sens_fin (\<lambda>t. 0) (transaction (order.truncate n)) w 0 (t_sens s) = (Ret (ok, dst), d')"
        "event_ok (t_bus s) (Outcome ok dst)" by auto
      from bus_does_defined [OF steps r(2)] obtain s' where s': "bus_does (Outcome ok dst) s = Some s'" by blast
      from taxi_step.sens [where W = W and w = w, OF Exec n(1) 2 assms(2) r(1) s', of pow heap] bus_does_step [OF s' steps]
      show ?thesis by (intro exI [of _ "_\<lparr>t_sens := _, t_app := _\<rparr>"] exI [of _ "Outcome ok dst"] conjI) auto
    qed
  qed (use assms(3) simple [of Take] simple [of Wake] in simp_all)
qed

lemma app_moves:
  assumes "taxi_ok pow s" "own_event e" "app_step heap e (t_app s) = Some a"
  shows "\<exists>s'. taxi_step pow heap W s s' \<and> t_app s' = a"
proof (cases "posts (t_app s) a = []")
  case True
  from taxi_step.quiet [OF assms(3,2) True, of pow W] show ?thesis by (intro exI conjI) auto
next
  case False
  then obtain b msg hnd where r: "posts (t_app s) a = [(b, msg, hnd)]"
    using posts_scheduled(2) [OF assms(3)] by auto
  have steps: "bus_steps bus_create (t_events s) (t_bus s)" using assms(1) by (simp add: taxi_ok_def)
  from fresh_address [OF this] obtain x where x: "mem (t_bus s) x = None" by blast
  have "app_ok a" using app_ok_step [OF assms(3)] assms(1) by (simp add: taxi_ok_def)
  then have "req_ok (b, msg, hnd)" using posts_scheduled(1) [OF assms(3)] r by (simp add: app_ok_def)
  then have "event_ok (t_bus (s\<lparr>t_app := a\<rparr>)) (Schedule x b msg (replicate (len (bc b)) 0) (if hnd then Some () else None))"
    using x by (auto simp: req_ok_def split: option.splits)
  moreover have "bus_steps bus_create (t_events (s\<lparr>t_app := a\<rparr>)) (t_bus (s\<lparr>t_app := a\<rparr>))" using steps by simp
  ultimately obtain s' where s': "bus_does (Schedule x b msg (replicate (len (bc b)) 0) (if hnd then Some () else None))
      (s\<lparr>t_app := a\<rparr>) = Some s'" using bus_does_defined by blast
  from taxi_step.post [OF assms(3,2) r s', of pow W] bus_does_step [OF s'] steps show ?thesis
    by (intro exI [of _ s']) simp
qed

section \<open>Properties\<close>

text \<open>C10. In every reachable state of the whole taxi, whatever the camera sees, the remote control sends
  and the wires do to the bytes, the registers of motor and servo are in their pulse ranges
  and no conversion was undefined; the transaction of the order in execution runs to its end
  with either module, whichever round it was left in, and the bus accepts its outcome.\<close>

theorem taxi_safe:
  assumes "taxi_reach pow heap W s"
  shows "\<not> ub (snd (t_ctrl s)) \<and> OCR_VEL (snd (t_ctrl s)) \<in> {1400..1600} \<and> OCR_ROT (snd (t_ctrl s)) \<in> {1000..2000}
    \<and> (\<forall>x. pc (t_bus s) = Exec x \<longrightarrow> (\<exists>n. mem (t_bus s) x = Some n
        \<and> (\<forall>w t env. (\<forall>t. length (snd (env t)) = 4) \<longrightarrow> (\<exists>ok dst c'. bus_does (Outcome ok dst) s \<noteq> None \<and>
             serve ctrl_round ctrl_iter env (transaction (order.truncate n)) w t (t_ctrl s) = (Ret (ok, dst), c')))
        \<and> (\<forall>w t env. \<exists>ok dst d'. bus_does (Outcome ok dst) s \<noteq> None \<and>
             serve SPI_STC sens_fin env (transaction (order.truncate n)) w t (t_sens s) = (Ret (ok, dst), d'))))"
proof -
  have ok: "taxi_ok pow s" by (rule taxi_ok_reach [OF assms])
  then have steps: "bus_steps bus_create (t_events s) (t_bus s)" and "ctrl_ok (snd (t_ctrl s))"
    by (simp_all add: taxi_ok_def module_ok_def)
  moreover have "\<exists>n. mem (t_bus s) x = Some n
        \<and> (\<forall>w t env. (\<forall>t. length (snd (env t)) = 4) \<longrightarrow> (\<exists>ok dst c'. bus_does (Outcome ok dst) s \<noteq> None \<and>
             serve ctrl_round ctrl_iter env (transaction (order.truncate n)) w t (t_ctrl s) = (Ret (ok, dst), c')))
        \<and> (\<forall>w t env. \<exists>ok dst d'. bus_does (Outcome ok dst) s \<noteq> None \<and>
             serve SPI_STC sens_fin env (transaction (order.truncate n)) w t (t_sens s) = (Ret (ok, dst), d'))"
    if x: "pc (t_bus s) = Exec x" for x
  proof -
    obtain n where n: "mem (t_bus s) x = Some n" by (rule taxi_exec [OF ok x])
    show ?thesis
    proof (intro exI [of _ n] conjI allI impI)
      fix w t and env :: "nat \<Rightarrow> u8 \<times> u8 list"
      assume "\<forall>t. length (snd (env t)) = 4"
      from ctrl_serves [OF ok x n this, of w t] bus_does_defined [OF steps]
      show "\<exists>ok dst c'. bus_does (Outcome ok dst) s \<noteq> None \<and>
        serve ctrl_round ctrl_iter env (transaction (order.truncate n)) w t (t_ctrl s) = (Ret (ok, dst), c')" by blast
    next
      fix w t and env :: "nat \<Rightarrow> u8"
      from sens_serves [OF ok x n, of env w t] bus_does_defined [OF steps]
      show "\<exists>ok dst d'. bus_does (Outcome ok dst) s \<noteq> None \<and>
        serve SPI_STC sens_fin env (transaction (order.truncate n)) w t (t_sens s) = (Ret (ok, dst), d')" by blast
    qed (rule n)
  qed
  ultimately show ?thesis by (simp add: ctrl_ok_def)
qed

text \<open>C32. The taxi is never stuck: in every reachable state the bus thread has
  exited or can make its next step, and whatever the main thread or a message does next, the
  bus takes the order it schedules.\<close>

theorem taxi_never_stuck:
  assumes "taxi_reach pow heap W s" "W w"
  shows "(pc (t_bus s) = Exited \<or> (\<exists>s' e. taxi_step pow heap W s s' \<and> thread_event e \<and> t_events s' = t_events s @ [e]))
    \<and> (\<forall>e a. own_event e \<longrightarrow> app_step heap e (t_app s) = Some a \<longrightarrow> (\<exists>s'. taxi_step pow heap W s s' \<and> t_app s' = a))"
  using thread_moves [where W = W and w = w, OF taxi_ok_reach [OF assms(1)] assms(2)] app_moves [OF taxi_ok_reach [OF assms(1)]] by blast

text \<open>C15. The decision of the main loop that counts is the last one: the value it scheduled last for a
  write command, say the velocity, waits in the queue, or it is being sent and no other waits,
  or it is the last that was sent with success, whatever was lost and repeated meanwhile.\<close>

theorem taxi_newest_decision:
  assumes "taxi_reach pow heap W s" "queue_rep (t_bus s) as" "newest b (scheduled (t_app s)) = Some v" "write (bc b)"
  shows "(\<exists>p \<in> set (orders_at (mem (t_bus s)) as). o_bc p = b \<and> src_dst p = v)
    \<or> b \<notin> o_bc ` set (orders_at (mem (t_bus s)) as) \<and>
       ((\<exists>x. pc (t_bus s) = Exec x \<and> o_bc (the (mem (t_bus s) x)) = b \<and> src_dst (the (mem (t_bus s) x)) = v)
        \<or> (\<forall>x. pc (t_bus s) = Exec x \<longrightarrow> o_bc (the (mem (t_bus s) x)) \<noteq> b)
          \<and> (\<exists>p. List.find (\<lambda>p. o_bc p = b) (served (t_bus s)) = Some p \<and> src_dst p = v))"
proof -
  have ok: "taxi_ok pow s" by (rule taxi_ok_reach [OF assms(1)])
  then have "bus_steps bus_create (t_events s) (t_bus s)" "latest b (t_events s) = Some v"
    using assms(3,4) by (simp_all add: taxi_ok_def)
  from newest_value_run [OF this(1) assms(2) this(2) assms(4)] show ?thesis .
qed



section \<open>Witnesses\<close>

lemma main_reach:
  "\<exists>s. taxi_reach pow heap W s \<and> t_app s = (main_step ip ^^ n) (main_init now)"
proof (induction n)
  case 0
  then show ?case
    using taxi_reach.start [of pow heap W now] by (intro exI [of _ "taxi_start now"]) (simp add: taxi_start_def)
next
  case (Suc n)
  then obtain s where s: "taxi_reach pow heap W s" "t_app s = (main_step ip ^^ n) (main_init now)" by blast
  from app_moves [OF taxi_ok_reach [OF s(1)], of "Main ip" heap "main_step ip (t_app s)" W] obtain s' where
    "taxi_step pow heap W s s'" "t_app s' = main_step ip (t_app s)" by auto
  with s show ?case by (intro exI [of _ s']) (auto intro: taxi_reach.step)
qed

definition taking :: taxi where
  "taking = (taxi_start (0, 0))\<lparr>t_bus := startup\<lparr>queue := Some 2, pc := Exec 1\<rparr>, t_events := startup_events @ [Take]\<rparr>"

lemma taking_reach: "taxi_reach pow heap W taking"
proof (rule taxi_reach.step [OF taxi_reach.start])
  show "taxi_step pow heap W (taxi_start (0, 0)) taking"
    by (rule taxi_step.thread [of Take]) (use startup_take in \<open>simp_all add: bus_does_def taking_def taxi_start_def\<close>)
qed

theorem taxi_safe_witness:
  "OCR_VEL (snd (t_ctrl taking)) \<in> {1400..1600}
    \<and> (\<exists>ok dst d'. serve SPI_STC sens_fin (\<lambda>t. 7) (transaction \<lparr>o_bc = BCSS_at BBS_RST, src_dst = [], handler = None :: unit option\<rparr>)
          (\<lambda>t. (\<lambda>b. b XOR 1, id)) 0 (t_sens taking) = (Ret (ok, dst), d'))"
proof -
  have pc: "pc (t_bus taking) = Exec 1" by (simp add: taking_def)
  have m: "mem (t_bus taking) 1 = Some n \<Longrightarrow> order.truncate n = \<lparr>o_bc = BCSS_at BBS_RST, src_dst = [], handler = None\<rparr>" for n
    by (auto simp: taking_def startup_def)
  from taxi_safe [OF taking_reach [of "\<lambda>x y. x" "\<lambda>n. []" "\<lambda>w. True"]] pc m show ?thesis by (metis (no_types))
qed

theorem taxi_never_stuck_witness:
  "\<exists>s' e. taxi_step (\<lambda>x y. x) (\<lambda>n. []) (\<lambda>w. True) taking s' \<and> thread_event e \<and> t_events s' = startup_events @ [Take, e]"
proof -
  have "pc (t_bus taking) \<noteq> Exited" "t_events taking = startup_events @ [Take]" by (simp_all add: taking_def)
  with taxi_never_stuck [OF taking_reach, of "\<lambda>w. True" perfect "\<lambda>x y. x" "\<lambda>n. []"] show ?thesis by auto
qed

text \<open>A gain sent by the remote control right after the start.\<close>

definition gain_sent :: "unit bus" where
  "gain_sent = startup\<lparr>mem :=
    [1 \<mapsto> \<lparr>o_bc = BCSS_at BBS_RST, src_dst = [], handler = None, next_order = Some 2\<rparr>,
     2 \<mapsto> \<lparr>o_bc = BCCS_at BBC_RST, src_dst = [], handler = None, next_order = Some 3\<rparr>,
     3 \<mapsto> \<lparr>o_bc = BCCS_at BBC_VEL_KP, src_dst = float_bytes (Fin 1), handler = None, next_order = None\<rparr>]\<rparr>"

definition gain_posted :: taxi where
  "gain_posted = (taxi_start (0, 0))\<lparr>t_app := schedule (BCCS_at BBC_VEL_KP) (Some (float_bytes (Fin 1))) False (main_init (0, 0)),
     t_bus := gain_sent, t_events := startup_events @ [Schedule 3 (BCCS_at BBC_VEL_KP) (Some (float_bytes (Fin 1))) [] None]\<rparr>"

lemma gain_reach: "taxi_reach pow (\<lambda>n. []) W gain_posted"
proof (rule taxi_reach.step [OF taxi_reach.start [of pow _ W "(0, 0)"]])
  let ?c = "\<lparr>name = ''set_vel_kp'', min_args = 1, action = sc_bus_send_float (BCCS_at BBC_VEL_KP)\<rparr>"
  let ?b = "BCCS_at BBC_VEL_KP" and ?m = "Some (float_bytes (Fin 1))"
  have "?c \<in> set (cmds_all (cmds (\<lambda>n. [])))" by (simp add: cmds_all_def cmds_def)
  note run = execute_one_arg [OF this, of "''1''" "main_init (0, 0)"]
  have ne: "BBC_VEL_KP \<noteq> BBC_RST" by (simp add: proto_simps)
  have one: "strtof ''1'' = Some (Fin 1)" "print_fixed 6 (Fin 1) = ''1.000000''" by code_simp+
  from run have a: "app_step (\<lambda>n. []) (Message ''set_vel_kp:1'') (main_init (0, 0)) = Some (schedule ?b ?m False (main_init (0, 0)))"
    by (simp add: CMD_DELIM_def ARG_DELIM_def sc_bus_send_float_def one str_create_def str_append_var_def)
  show "taxi_step pow (\<lambda>n. []) W (taxi_start (0, 0)) gain_posted"
  proof (rule taxi_step.post [of _ "Message ''set_vel_kp:1''" _ _ ?b ?m False])
    show "app_step (\<lambda>n. []) (Message ''set_vel_kp:1'') (t_app (taxi_start (0, 0)))
        = Some (schedule ?b ?m False (main_init (0, 0)))"
      using a by (simp add: taxi_start_def)
    show "posts (t_app (taxi_start (0, 0))) (schedule ?b ?m False (main_init (0, 0))) = [(?b, ?m, False)]"
      by (simp add: posts_def taxi_start_def)
    show "bus_does (Schedule 3 ?b ?m [] (if False then Some () else None))
        ((taxi_start (0, 0))\<lparr>t_app := schedule ?b ?m False (main_init (0, 0))\<rparr>) = Some gain_posted"
      by (simp add: bus_does_def taxi_start_def bus_step_def bus_schedule_def order_queue_def oq_find.simps startup_def
          bus_create_def Let_def fun_eq_iff gain_posted_def gain_sent_def SIZEOF_CTRL_VAL_def ne)
  qed simp
qed

theorem taxi_newest_decision_witness:
  "\<exists>p \<in> set (orders_at (mem (t_bus gain_posted)) [1, 2, 3]). o_bc p = BCCS_at BBC_VEL_KP \<and> src_dst p = float_bytes (Fin 1)"
proof -
  have "queue_rep (t_bus gain_posted) [1, 2, 3]"
    by (simp add: queue_rep_def gain_posted_def gain_sent_def startup_def)
  moreover have "newest (BCCS_at BBC_VEL_KP) (scheduled (t_app gain_posted)) = Some (float_bytes (Fin 1))"
    by (simp add: newest_def gain_posted_def)
  ultimately show ?thesis
    using taxi_newest_decision [OF gain_reach [of "\<lambda>x y. x" "\<lambda>w. True"], where as = "[1, 2, 3]" and b = "BCCS_at BBC_VEL_KP"]
    by (auto simp: gain_posted_def gain_sent_def orders_at_def)
qed



end
