(* ===== verification/Avr_Setup.thy ===== *)
theory Avr_Setup
  imports Ctrl Sens
begin

text \<open>
  The configuration of the hardware: \<open>pwm_init\<close> and the unused \<open>ks_init\<close> of \<^verbatim>\<open>src/avr/ctrl.c\<close>,
  \<open>wheel_init\<close>, \<open>adc_init\<close> and \<open>adc_read\<close> of \<^verbatim>\<open>src/avr/sens.c\<close>, \<open>spi_init\<close> of \<^verbatim>\<open>src/avr/bus.c\<close> and
  the device files of \<^verbatim>\<open>src/comm/spi.c\<close>. What the bits mean to the microcontroller is written
  down as its data sheet has it, for the statements only; they connect the register values
  with the constants the rest of the code computes with.
\<close>

section \<open>Registers\<close>

record regs =
  TIMSK1 :: u8
  TCCR1A :: u8
  TCCR1B :: u8
  TCNT1 :: u16
  OCR1A :: u16
  ICR1 :: u16
  TIMSK3 :: u8
  TCCR3A :: u8
  TCCR3B :: u8
  TCNT3 :: u16
  OCR3A :: u16
  EIMSK :: u8
  EICRA :: u8
  ADMUX :: u8
  ADCSRA :: u8
  DDRA :: u8
  DDRB :: u8
  DDRD :: u8
  SPCR :: u8
  SPDR :: u8

text \<open>After a hardware reset all of them are zero.\<close>

definition regs_zero :: regs where
  "regs_zero = \<lparr>TIMSK1 = 0, TCCR1A = 0, TCCR1B = 0, TCNT1 = 0, OCR1A = 0, ICR1 = 0, TIMSK3 = 0, TCCR3A = 0,
     TCCR3B = 0, TCNT3 = 0, OCR3A = 0, EIMSK = 0, EICRA = 0, ADMUX = 0, ADCSRA = 0, DDRA = 0, DDRB = 0, DDRD = 0,
     SPCR = 0, SPDR = 0\<rparr>"

text \<open>\<open>1 << n\<close>, with the bit numbers of the header of the ATmega1284P.\<close>

abbreviation sbit :: "nat \<Rightarrow> u8" where
  "sbit n \<equiv> push_bit n 1"

abbreviation (input) OCIE1A :: nat where "OCIE1A \<equiv> 1"
abbreviation (input) OCIE3A :: nat where "OCIE3A \<equiv> 1"
abbreviation (input) CS0 :: nat where "CS0 \<equiv> 0"
abbreviation (input) CS1 :: nat where "CS1 \<equiv> 1"
abbreviation (input) CS2 :: nat where "CS2 \<equiv> 2"
abbreviation (input) WGM2 :: nat where "WGM2 \<equiv> 3"
abbreviation (input) WGM3 :: nat where "WGM3 \<equiv> 4"
abbreviation (input) COM1A1 :: nat where "COM1A1 \<equiv> 7"
abbreviation (input) COM1B1 :: nat where "COM1B1 \<equiv> 5"
abbreviation (input) REFS0 :: nat where "REFS0 \<equiv> 6"
abbreviation (input) ADEN :: nat where "ADEN \<equiv> 7"
abbreviation (input) ADSC :: nat where "ADSC \<equiv> 6"
abbreviation (input) SPIE :: nat where "SPIE \<equiv> 7"
abbreviation (input) SPE :: nat where "SPE \<equiv> 6"

text \<open>A \<open>double\<close> stored to a 16 bit register; outside its range C leaves the result undefined.\<close>

definition to_reg16 :: "fp \<Rightarrow> u16 option" where
  "to_reg16 x = (case ftrunc x of None \<Rightarrow> None | Some k \<Rightarrow> if 0 \<le> k \<and> k < 65536 then Some (word_of_int k) else None)"

section \<open>The SPI slave\<close>

definition SPI_ENABLE_INT :: nat where "SPI_ENABLE_INT = 1"
definition SPI_DISABLE_INT :: nat where "SPI_DISABLE_INT = 0"

definition spi_init :: "nat \<Rightarrow> regs \<Rightarrow> regs" where
  "spi_init enable_interrupt r =
     (let r1 = r\<lparr>DDRB := DDRB r OR sbit 6\<rparr>;
          r2 = r1\<lparr>SPCR := SPCR r1 OR (push_bit SPIE (of_nat enable_interrupt) OR sbit SPE)\<rparr>
      in r2\<lparr>SPDR := 0\<rparr>)"

section \<open>The control module\<close>

definition ks_init :: "regs \<Rightarrow> regs option" where
  "ks_init r =
     (let r1 = r\<lparr>TIMSK3 := sbit OCIE3A\<rparr>;
          r2 = r1\<lparr>TCCR3A := 0\<rparr>;
          r3 = r2\<lparr>TCCR3B := sbit WGM2 OR sbit CS1 OR sbit CS0\<rparr>
      in map_option (\<lambda>top. r3\<lparr>OCR3A := top, TCNT3 := 0\<rparr>) (to_reg16 KS_TOP))"

definition pwm_init :: "regs \<Rightarrow> regs option" where
  "pwm_init r =
     (let r1 = r\<lparr>TCCR1A := TCCR1A r OR (sbit COM1A1 OR sbit COM1B1)\<rparr>;
          r2 = r1\<lparr>TCCR1B := TCCR1B r1 OR (sbit WGM3 OR sbit CS1)\<rparr>
      in map_option (\<lambda>top. r2\<lparr>ICR1 := top, DDRD := DDRD r2 OR (sbit 4 OR sbit 5)\<rparr>) (to_reg16 PWM_TOP))"

text \<open>\<open>main\<close> up to \<open>reset\<close>; the call of \<open>ks_init\<close> is commented out.\<close>

definition ctrl_boot :: "regs \<Rightarrow> regs option" where
  "ctrl_boot r = map_option (spi_init 0) (pwm_init r)"

section \<open>The sensor module\<close>

definition ADC_PRESCALER_128 :: u8 where "ADC_PRESCALER_128 = 0x07"
definition CHN_SENS_FRONT :: u8 where "CHN_SENS_FRONT = 0"
definition CHN_SENS_RIGHT :: u8 where "CHN_SENS_RIGHT = 1"

definition wheel_init :: "regs \<Rightarrow> regs" where
  "wheel_init r =
     (let r1 = r\<lparr>TIMSK1 := sbit OCIE1A\<rparr>;
          r2 = r1\<lparr>TCCR1B := sbit WGM2 OR push_bit CS2 0 OR sbit CS1 OR sbit CS0\<rparr>;
          r3 = r2\<lparr>TCCR1A := 0, TCNT1 := 0, OCR1A := ucast WT_TOP\<rparr>;
          r4 = r3\<lparr>EIMSK := sbit 0 OR sbit 1\<rparr>
      in r4\<lparr>EICRA := sbit 1 OR sbit 0 OR sbit 3 OR sbit 2\<rparr>)"

definition adc_init :: "regs \<Rightarrow> regs" where
  "adc_init r =
     (let r1 = r\<lparr>ADMUX := sbit REFS0\<rparr>;
          r2 = r1\<lparr>ADCSRA := ADCSRA r1 OR sbit ADEN\<rparr>
      in r2\<lparr>ADCSRA := ADCSRA r2 OR ADC_PRESCALER_128\<rparr>)"

text \<open>
  The wait for the converter: \<open>n\<close> is how many more times the loop finds the conversion
  running before the hardware clears the bit.
\<close>

fun adc_wait :: "nat \<Rightarrow> regs \<Rightarrow> regs" where
  "adc_wait 0 r = r\<lparr>ADCSRA := ADCSRA r AND NOT (sbit ADSC)\<rparr>"
| "adc_wait (Suc n) r = (if ADCSRA r AND sbit ADSC \<noteq> 0 then adc_wait n r else r)"

text \<open>\<open>conv\<close> is what the converter measures, by the selection in \<open>ADMUX\<close>.\<close>

definition adc_read :: "(u8 \<Rightarrow> u16) \<Rightarrow> nat \<Rightarrow> u8 \<Rightarrow> regs \<Rightarrow> u16 \<times> regs" where
  "adc_read conv n channel r =
     (let r1 = r\<lparr>ADMUX := (ADMUX r AND 0xF8) OR channel\<rparr>;
          r2 = r1\<lparr>ADCSRA := ADCSRA r1 OR sbit ADSC\<rparr>;
          r3 = adc_wait n r2
      in (conv (ADMUX r3), r3))"

text \<open>\<open>main\<close> up to \<open>reset\<close>, and what the build with \<open>DEBUG\<close> adds for the display's port.\<close>

definition sens_boot :: "regs \<Rightarrow> regs" where
  "sens_boot r = (adc_init (wheel_init (spi_init SPI_ENABLE_INT r)))\<lparr>DDRA := 0xFC\<rparr>"

section \<open>The device files of the communication module\<close>

datatype spi_request = SPI_IOC_WR_MODE int | SPI_IOC_WR_BITS_PER_WORD int | SPI_IOC_WR_MAX_SPEED_HZ int

datatype sys_call = Sys_open string | Sys_ioctl int spi_request | Sys_close int

text \<open>The descriptor \<open>open\<close> returns is an argument; -1 if it fails. The results of \<open>ioctl\<close> are not looked at.\<close>

definition SPI_MODE_0 :: int where "SPI_MODE_0 = 0"
definition F_SPI :: int where "F_SPI = 1000000"

definition spi_create :: "string \<Rightarrow> int \<Rightarrow> int \<Rightarrow> int \<times> sys_call list" where
  "spi_create dev freq opened =
     (let fd = opened; mode = SPI_MODE_0; bpw = 8
      in (fd, [Sys_open dev, Sys_ioctl fd (SPI_IOC_WR_MODE mode), Sys_ioctl fd (SPI_IOC_WR_BITS_PER_WORD bpw),
               Sys_ioctl fd (SPI_IOC_WR_MAX_SPEED_HZ freq)]))"

definition spi_destroy :: "int \<Rightarrow> sys_call list" where
  "spi_destroy fd = (if 0 \<le> fd then [Sys_close fd] else [])"

definition SPI_DEVICE :: string where "SPI_DEVICE = ''/dev/spidev0.''"

text \<open>What \<open>bus_create\<close> and \<open>bus_destroy\<close> do with \<open>fds\<close>.\<close>

definition bus_open :: "int \<Rightarrow> int \<times> int \<Rightarrow> (int \<times> int) \<times> sys_call list" where
  "bus_open freq opened =
     (let (fd0, c0) = spi_create (SPI_DEVICE @ ''0'') freq (fst opened);
          (fd1, c1) = spi_create (SPI_DEVICE @ ''1'') freq (snd opened)
      in ((fd0, fd1), c0 @ c1))"

definition bus_close :: "int \<times> int \<Rightarrow> sys_call list" where
  "bus_close fds = spi_destroy (fst fds) @ spi_destroy (snd fds)"

section \<open>The data sheet\<close>

text \<open>
  Mode and clock of a 16 bit timer, from its control registers A and B; \<open>None\<close> for a stopped or
  externally clocked one.
\<close>

datatype timer_mode = Normal | Ctc_OCR | Pwm_ICR_dual_slope | Other_mode

definition timer_mode :: "u8 \<Rightarrow> u8 \<Rightarrow> timer_mode" where
  "timer_mode a b =
     (if \<not> bit a 0 \<and> \<not> bit a 1 then
        (if bit b 4 then (if bit b 3 then Other_mode else Pwm_ICR_dual_slope)
         else if bit b 3 then Ctc_OCR else Normal)
      else Other_mode)"

definition timer_prescaler :: "u8 \<Rightarrow> nat option" where
  "timer_prescaler b =
     (case (bit b 2, bit b 1, bit b 0) of
        (False, False, True) \<Rightarrow> Some 1
      | (False, True, False) \<Rightarrow> Some 8
      | (False, True, True) \<Rightarrow> Some 64
      | (True, False, False) \<Rightarrow> Some 256
      | (True, False, True) \<Rightarrow> Some 1024
      | _ \<Rightarrow> None)"

text \<open>
  A dual slope PWM counts from zero to \<open>ICR1\<close> and back; the output is high while the counter is below
  the compare value. In microseconds, at \<open>hz\<close> clock cycles per second.
\<close>

definition period_us :: "rat \<Rightarrow> regs \<Rightarrow> rat option" where
  "period_us hz r = map_option (\<lambda>p. 2 * of_nat p * of_int (uint (ICR1 r)) * 1000000 / hz) (timer_prescaler (TCCR1B r))"

definition pulse_us :: "rat \<Rightarrow> regs \<Rightarrow> int \<Rightarrow> rat option" where
  "pulse_us hz r ocr = map_option (\<lambda>p. 2 * of_nat p * of_int ocr * 1000000 / hz) (timer_prescaler (TCCR1B r))"

text \<open>The interrupts that are enabled, and those with a service routine.\<close>

datatype irq = Irq_INT0 | Irq_INT1 | Irq_TIMER1_COMPA | Irq_TIMER3_COMPA | Irq_SPI_STC | Irq_ADC

definition enabled :: "regs \<Rightarrow> irq list" where
  "enabled r =
     (if bit (EIMSK r) 0 then [Irq_INT0] else []) @ (if bit (EIMSK r) 1 then [Irq_INT1] else [])
     @ (if bit (TIMSK1 r) OCIE1A then [Irq_TIMER1_COMPA] else []) @ (if bit (TIMSK3 r) OCIE3A then [Irq_TIMER3_COMPA] else [])
     @ (if bit (SPCR r) SPIE \<and> bit (SPCR r) SPE then [Irq_SPI_STC] else []) @ (if bit (ADCSRA r) 3 then [Irq_ADC] else [])"

definition ctrl_vectors :: "irq list" where
  "ctrl_vectors = [Irq_TIMER3_COMPA]"

definition sens_vectors :: "irq list" where
  "sens_vectors = [Irq_TIMER1_COMPA, Irq_INT0, Irq_INT1, Irq_SPI_STC]"

text \<open>The SPI mode of a slave: clock polarity and phase; the most significant bit first.\<close>

definition slave_mode :: "regs \<Rightarrow> int option" where
  "slave_mode r =
     (if bit (SPCR r) SPE \<and> \<not> bit (SPCR r) 4 \<and> \<not> bit (SPCR r) 5 \<and> bit (DDRB r) 6
      then Some ((if bit (SPCR r) 3 then 2 else 0) + (if bit (SPCR r) 2 then 1 else 0)) else None)"

section \<open>Properties\<close>

lemma tops: "to_reg16 PWM_TOP = Some 20000" "to_reg16 KS_TOP = Some 50000"
  by code_simp+

lemma ctrl_boot_zero:
  "ctrl_boot regs_zero = Some (regs_zero\<lparr>TCCR1A := 0xA0, TCCR1B := 0x12, ICR1 := 20000, DDRD := 0x30,
     DDRB := 0x40, SPCR := 0x40\<rparr>)"
  by (simp add: ctrl_boot_def pwm_init_def tops spi_init_def regs_zero_def Let_def)

lemma sens_boot_zero:
  "sens_boot regs_zero = regs_zero\<lparr>DDRB := 0x40, SPCR := 0xC0, TIMSK1 := 2, TCCR1B := 0x0B, OCR1A := 65535,
     EIMSK := 3, EICRA := 0x0F, ADMUX := 0x40, ADCSRA := 0x87, DDRA := 0xFC\<rparr>"
  by (simp add: sens_boot_def spi_init_def wheel_init_def adc_init_def regs_zero_def Let_def SPI_ENABLE_INT_def
      WT_TOP_def ADC_PRESCALER_128_def)

text \<open>C25. The signals that leave the control module are servo signals: after the configuration and
  after any commands the period is 20 ms, the motor's pulse is between 1.4 and 1.6 ms and the
  steering servo's between 1.0 and 2.0 ms, on pins that are outputs.\<close>

theorem servo_signals:
  "\<exists>r. ctrl_boot regs_zero = Some r
    \<and> timer_mode (TCCR1A r) (TCCR1B r) = Pwm_ICR_dual_slope \<and> period_us 16000000 r = Some 20000
    \<and> bit (TCCR1A r) COM1A1 \<and> bit (TCCR1A r) COM1B1 \<and> bit (DDRD r) 4 \<and> bit (DDRD r) 5
    \<and> (let s = ctrl_run cs ctrl_init
       in (\<exists>t \<in> {1400..1600}. pulse_us 16000000 r (OCR_VEL s) = Some t)
        \<and> (\<exists>t \<in> {1000..2000}. pulse_us 16000000 r (OCR_ROT s) = Some t))"
proof -
  have s: "ctrl_ok (ctrl_run cs ctrl_init)" by (rule ctrl_ok_run [OF ctrl_ok_init])
  have p: "timer_prescaler 0x12 = Some 8" by (simp add: timer_prescaler_def)
  have "2 * 8 * of_int k * 1000000 / 16000000 = (of_int k :: rat)" for k by simp
  with s p show ?thesis
    unfolding ctrl_boot_zero
    by (auto simp: regs_zero_def timer_mode_def period_us_def pulse_us_def Let_def ctrl_ok_def)
qed

text \<open>The configuration of the sensor module fits the code that relies on it: exactly the
  interrupts with a service routine are enabled, the left wheel's timer counts the clock
  divided by \<open>WT_PSC\<close> and starts again at \<open>WT_TOP\<close>, and reading a channel selects it, keeps the
  reference and the prescaler, and returns what was converted.\<close>

theorem sens_configured:
  assumes "channel \<in> {CHN_SENS_FRONT, CHN_SENS_RIGHT}"
  shows "let r = sens_boot regs_zero; (v, r') = adc_read conv n channel r
    in set (enabled r) = set sens_vectors
      \<and> timer_mode (TCCR1A r) (TCCR1B r) = Ctc_OCR
      \<and> map_option (\<lambda>p. f32 (of_nat p)) (timer_prescaler (TCCR1B r)) = Some WT_PSC \<and> ucast (OCR1A r) = WT_TOP
      \<and> v = conv (0x40 OR channel) \<and> ADMUX r' AND 0x1F = channel \<and> bit (ADMUX r') REFS0
      \<and> ADCSRA r' = ADCSRA r \<and> slave_mode r = Some SPI_MODE_0"
proof -
  have wait: "ADCSRA (adc_wait n q) = ADCSRA q AND NOT (sbit ADSC) \<and> ADMUX (adc_wait n q) = ADMUX q"
    if "bit (ADCSRA q) ADSC" for q
    using that by (induction n q rule: adc_wait.induct) (auto simp: bit_eq_iff bit_simps)
  show ?thesis
    using assms wait [of "regs_zero\<lparr>DDRB := 0x40, SPCR := 0xC0, TIMSK1 := 2, TCCR1B := 0x0B, OCR1A := 65535,
     EIMSK := 3, EICRA := 0x0F, ADMUX := 0x40 OR channel, ADCSRA := 0xC7, DDRA := 0xFC\<rparr>"]
    unfolding sens_boot_zero
    by (auto simp: regs_zero_def adc_read_def Let_def timer_mode_def timer_prescaler_def WT_PSC_def WT_TOP_def
        enabled_def sens_vectors_def slave_mode_def SPI_MODE_0_def CHN_SENS_FRONT_def CHN_SENS_RIGHT_def
        split: prod.splits)
qed

text \<open>The killswitch is not armed: after the configuration no interrupt of the control module is
  enabled, so nothing resets it when orders stop to arrive. \<open>ks_init\<close>, whose call is commented
  out, would arm it as intended: its routine would run after 50000 counts of the clock
  divided by \<open>KS_PSC\<close>, which is 0.2 s.\<close>

theorem killswitch_disarmed:
  "\<exists>r k. ctrl_boot regs_zero = Some r \<and> enabled r = [] \<and> ks_init r = Some k
    \<and> enabled k = [Irq_TIMER3_COMPA] \<and> set (enabled k) \<subseteq> set ctrl_vectors
    \<and> timer_mode (TCCR3A k) (TCCR3B k) = Ctc_OCR
    \<and> map_option (\<lambda>p. f32 (of_nat p)) (timer_prescaler (TCCR3B k)) = Some KS_PSC
    \<and> map_option (\<lambda>p. of_nat p * of_int (uint (OCR3A k)) / 16000000) (timer_prescaler (TCCR3B k)) = Some (2 / 10 :: rat)
    \<and> (TCCR1A k, TCCR1B k, ICR1 k) = (TCCR1A r, TCCR1B r, ICR1 r)"
  unfolding ctrl_boot_zero
  by (auto simp: regs_zero_def ks_init_def tops Let_def enabled_def ctrl_vectors_def timer_mode_def timer_prescaler_def KS_PSC_def)

text \<open>Both sides of the bus agree on its mode: the device files are set to the mode the slaves are
  configured for, with 8 bits to a word, before the first transfer; and the files that were
  opened are closed again, each once, and no others.\<close>

theorem bus_files:
  assumes "bus_open freq opened = (fds, calls)" "ctrl_boot regs_zero = Some c"
  shows "fds = opened
    \<and> bus_close fds = map Sys_close (filter (\<lambda>fd. 0 \<le> fd) [fst opened, snd opened])
    \<and> (\<forall>fd \<in> {fst opened, snd opened}. \<exists>m. Sys_ioctl fd (SPI_IOC_WR_MODE m) \<in> set calls
        \<and> slave_mode c = Some m \<and> slave_mode (sens_boot regs_zero) = Some m
        \<and> Sys_ioctl fd (SPI_IOC_WR_BITS_PER_WORD 8) \<in> set calls \<and> Sys_ioctl fd (SPI_IOC_WR_MAX_SPEED_HZ freq) \<in> set calls)"
proof -
  have "slave_mode c = Some SPI_MODE_0" "slave_mode (sens_boot regs_zero) = Some SPI_MODE_0"
    using assms(2) unfolding ctrl_boot_zero sens_boot_zero by (auto simp: regs_zero_def slave_mode_def SPI_MODE_0_def)
  with assms(1) show ?thesis
    by (auto simp: bus_open_def spi_create_def bus_close_def spi_destroy_def Let_def)
qed

text \<open>The right wheel's timer is never started, so its counter stays at zero: the period the right
  wheel's interrupt stores is always zero.\<close>

theorem right_period_unmeasured:
  assumes "sens_reach pow s"
  shows "timer_prescaler (TCCR3B (sens_boot regs_zero)) = None \<and> WR_TCNT s = 0 \<and> wheel_right_period s \<in> {WT_TOP, 0}"
proof -
  have "WR_TCNT s = 0 \<and> wheel_right_period s \<in> {WT_TOP, 0}"
    using assms
  proof (induction rule: sens_reach.induct)
    case (spi s m w t spdr r c s')
    then show ?case using SPI_STC_exch [OF spi.hyps(2)] by (auto simp: sens_reset_def)
  qed (auto simp: sens_init_def step_defs split: option.split)
  then show ?thesis unfolding sens_boot_zero by (simp add: regs_zero_def timer_prescaler_def)
qed

section \<open>Witnesses\<close>

theorem sens_configured_witness:
  "fst (adc_read (\<lambda>m. ucast m) 3 1 (sens_boot regs_zero)) = 0x41"
  using sens_configured [of 1 "\<lambda>m. ucast m" 3] by (simp add: CHN_SENS_FRONT_def CHN_SENS_RIGHT_def split_beta Let_def)

theorem bus_files_witness:
  "bus_close (fst (bus_open F_SPI (3, - 1))) = [Sys_close 3]"
proof -
  have "bus_close (fst (bus_open F_SPI (3, - 1))) = map Sys_close (filter (\<lambda>fd. 0 \<le> fd) [fst (3, - 1 :: int), snd (3 :: int, - 1)])"
    using bus_files [of F_SPI "(3, - 1)", OF prod.collapse [symmetric] ctrl_boot_zero] by blast
  then show ?thesis by simp
qed

theorem right_period_unmeasured_witness: "wheel_right_period (INT1 sens_init) \<in> {WT_TOP, 0}"
  using right_period_unmeasured [OF sens_reach.right [OF sens_reach.init]] by blast

end
