(* ===== verification/Sens_Display.thy ===== *)
theory Sens_Display
  imports Sens Lcd Cstdlib
begin

text \<open>
  What the sensor module shows on its display at the end of an iteration, the part of \<open>main\<close> of
  \<^verbatim>\<open>src/avr/sens.c\<close> under \<open>DEBUG\<close>, which the Makefile always defines: \<open>dtostrf\<close> into a buffer of 16
  characters, and the strings on the two rows of \<^verbatim>\<open>src/avr/lcd.c\<close>.
\<close>

section \<open>Printing a number\<close>

text \<open>\<open>dtostrf\<close> of the AVR's C library, for widths that are not negative.\<close>

definition dtostrf :: "nat \<Rightarrow> nat \<Rightarrow> fp \<Rightarrow> string" where
  "dtostrf width prec x = (let s = print_fixed prec x in replicate (width - length s) (CHR '' '') @ s)"

text \<open>The string and its end in a buffer of a size; \<open>None\<close> is a write behind it.\<close>

definition dtostrf_buf :: "nat \<Rightarrow> nat \<Rightarrow> nat \<Rightarrow> fp \<Rightarrow> string option" where
  "dtostrf_buf n width prec x = (let s = dtostrf width prec x in if length s < n then Some s else None)"

definition chars :: "string \<Rightarrow> u8 list" where
  "chars s = List.map of_char s"

section \<open>The two rows\<close>

definition show_values :: "sens_data \<Rightarrow> port \<Rightarrow> port option" where
  "show_values sens_local s0 =
     (let s1 = lcd_set_ddram 0 s0;
          s2 = lcd_send_string (chars ''F:'') s1
      in case dtostrf_buf 16 5 2 (dist_front sens_local) of None \<Rightarrow> None | Some buf1 \<Rightarrow>
         (let s3 = lcd_send_string (chars buf1) s2
          in case dtostrf_buf 16 5 2 (dist_right sens_local) of None \<Rightarrow> None | Some buf2 \<Rightarrow>
             (let s4 = lcd_send_string (chars '' R:'') s3;
                  s5 = lcd_send_string (chars buf2) s4;
                  s6 = lcd_set_ddram ROW2ADR s5;
                  s7 = lcd_send_string (chars ''D:'') s6
              in case dtostrf_buf 16 5 2 (distance sens_local) of None \<Rightarrow> None | Some buf3 \<Rightarrow>
                 (let s8 = lcd_send_string (chars buf3) s7;
                      s9 = lcd_send_string (chars '' V:'') s8
                  in case dtostrf_buf 16 5 2 (velocity sens_local) of None \<Rightarrow> None | Some buf4 \<Rightarrow>
                     Some (lcd_send_string (chars buf4) s9)))))"

definition row1 :: "sens_data \<Rightarrow> string" where
  "row1 d = ''F:'' @ dtostrf 5 2 (dist_front d) @ '' R:'' @ dtostrf 5 2 (dist_right d)"

definition row2 :: "sens_data \<Rightarrow> string" where
  "row2 d = ''D:'' @ dtostrf 5 2 (distance d) @ '' V:'' @ dtostrf 5 2 (velocity d)"

text \<open>\<open>main\<close> before its loop: the display is initialised and cleared.\<close>

definition display_boot :: "port \<Rightarrow> port" where
  "display_boot s = lcd_clear (lcd_init s)"

section \<open>Lengths\<close>

text \<open>A number between zero and a bound takes no more characters than the bound's digits.\<close>

lemma dtostrf_le:
  assumes "between (Fin 0) x (Fin h)" "h * 100 \<le> of_int m" "m < 10 ^ (k + 3)" "width \<le> k + 4" "1 \<le> k"
  shows "length (dtostrf width 2 x) \<le> k + 4"
proof -
  have x: "is_fin x" "0 \<le> fval x" "fval x \<le> h" using assms(1) by (auto simp: between_def)
  let ?n = "roundne (\<bar>fval x\<bar> * 10 ^ 2)"
  have "\<bar>fval x\<bar> * 10 ^ 2 \<le> of_int m" using x assms(2) by simp
  then have "?n \<le> m" by (rule roundne_le_int)
  moreover have "0 \<le> ?n" using roundne_ge_int [of 0 "\<bar>fval x\<bar> * 10 ^ 2"] by simp
  ultimately have "length (fixed_digits 2 ?n) \<le> Suc k + 1 + 2"
    using assms(3) by (intro fixed_length_le) (simp_all add: eval_nat_numeral)
  moreover have "print_fixed 2 x = (if is_neg x then ''-'' else []) @ fixed_digits 2 ?n"
    using x(1) by (cases x) (simp_all add: print_fixed_def)
  moreover have "dec 0 = ''0''" by code_simp
  moreover have "roundne 0 = 0" using roundne_of_int [of 0] by simp
  ultimately have "length (print_fixed 2 x) \<le> k + 4"
    using x(1,2) assms(5) by (cases x) (auto simp: fixed_digits_def pad_def)
  with assms(4) show ?thesis by (simp add: dtostrf_def Let_def)
qed

section \<open>A string within a row\<close>

text \<open>The display after data bytes.\<close>

definition typed :: "u8 list \<Rightarrow> display \<Rightarrow> display" where
  "typed cs d = foldl display_byte d (map Data cs)"

lemma typed_simps [simp]: "typed [] d = d" "typed (c # cs) d = typed cs (display_byte d (Data c))"
  "typed (xs @ ys) d = typed ys (typed xs d)"
  by (simp_all add: typed_def)

lemma typed_ac [simp]: "ac (typed cs d) = ac d + length cs"
  by (induction cs arbitrary: d) auto

lemma typed_ddram:
  "ddram (typed cs d) a = (if ac d \<le> a \<and> a < ac d + length cs then Some (cs ! (a - ac d)) else ddram d a)"
  by (induction cs arbitrary: d) (auto simp: nth_Cons')

lemma send_from_short:
  assumes "i + length cs \<le> 15" "even (length (pulses s))"
  shows "displayed d (send_from i row cs s) = typed cs (displayed d s) \<and> even (length (pulses (send_from i row cs s)))
    \<and> length (pulses (send_from i row cs s)) = length (pulses s) + 2 * length cs"
  using assms
proof (induction cs arbitrary: i s)
  case (Cons c cs)
  have "i mod 16 \<noteq> 15" using Cons.prems(1) by simp
  moreover obtain u l where "pulses (lcd_send_data c s) = pulses s @ [u, l]" using data_pulses by blast
  ultimately show ?case
    using Cons.IH [of "i + 1" "lcd_send_data c s"] Cons.prems sent_bytes(2) [OF Cons.prems(2)]
    by (simp add: displayed_sent(1) [OF Cons.prems(2)])
qed simp

lemma send_short:
  assumes "length cs \<le> 15" "even (length (pulses s))"
  shows "displayed d (lcd_send_string cs s) = typed cs (displayed d s)" "even (length (pulses (lcd_send_string cs s)))"
    "length (pulses (lcd_send_string cs s)) = length (pulses s) + 2 * length cs"
  using send_from_short [of 0 cs s d 0] assms by (simp_all add: lcd_send_string_def)

lemma chars_simps [simp]: "length (chars s) = length s" "chars (s @ t) = chars s @ chars t" "chars [] = []"
  by (simp_all add: chars_def)

lemma set_ddram_pulses: "length (pulses (lcd_set_ddram a s)) = length (pulses s) + 2"
  using instruction_pulses [of "a OR push_bit D7 1" s] by (auto simp: lcd_set_ddram_def)

lemma displayed_clear:
  assumes "even (length (pulses s))"
  shows "displayed d (lcd_clear s) = \<lparr>ac = 0, ddram = (\<lambda>a. None)\<rparr>" "even (length (pulses (lcd_clear s)))"
  using sent_bytes(3,4) [OF assms, of 1] by (simp_all add: lcd_clear_def displayed_def)

section \<open>A display for texts\<close>

text \<open>The display after a text on a cleared one.\<close>

definition shows_only :: "string \<Rightarrow> display \<Rightarrow> bool" where
  "shows_only str d \<longleftrightarrow> (\<forall>a. ddram d a = (if a < length str then Some (of_char (str ! a)) else None))"

lemma typed_only:
  assumes "length str \<le> 64"
  shows "shows_only str (typed (chars str) \<lparr>ac = 0, ddram = (\<lambda>a. None)\<rparr>)"
  by (simp add: shows_only_def typed_ddram) (simp add: chars_def)

text \<open>
  What the programs rely on in a driver. Both drivers provide it, the one of the sensor module
  and the older one, whatever state each keeps.
\<close>

locale text_display =
  fixes shown :: "display \<Rightarrow> 's \<Rightarrow> display"
    and ready :: "'s \<Rightarrow> bool"
    and wipe :: "'s \<Rightarrow> 's"
    and go_to :: "u8 \<Rightarrow> 's \<Rightarrow> 's"
    and write_text :: "string \<Rightarrow> 's \<Rightarrow> 's"
  assumes wipe: "ready s \<Longrightarrow> ready (wipe s) \<and> shown d (wipe s) = \<lparr>ac = 0, ddram = (\<lambda>a. None)\<rparr>"
    and go_to: "ready s \<Longrightarrow> ready (go_to a s) \<and> shown d (go_to a s) = (shown d s)\<lparr>ac := unat ((a OR push_bit D7 1) AND 0x7F)\<rparr>"
    and write_text: "ready s \<Longrightarrow> length str \<le> 15 \<Longrightarrow>
      ready (write_text str s) \<and> shown d (write_text str s) = typed (chars str) (shown d s)"
begin

lemma two_texts:
  assumes "ready s" "length a \<le> 15" "length b \<le> 15"
  shows "ready (write_text b (write_text a s))"
    "shown d (write_text b (write_text a s)) = typed (chars (a @ b)) (shown d s)"
  using write_text [OF assms(1,2), of d] write_text [of "write_text a s" b d] assms(3) by simp_all

text \<open>A row that is put together from four texts.\<close>

lemma row_of_four:
  assumes "ready s" "\<forall>t \<in> {t1, t2, t3, t4}. length t \<le> 15"
  shows "ready (write_text t4 (write_text t3 (write_text t2 (write_text t1 (go_to a s)))))"
    "shown d (write_text t4 (write_text t3 (write_text t2 (write_text t1 (go_to a s)))))
      = typed (chars (t1 @ t2 @ t3 @ t4)) ((shown d s)\<lparr>ac := unat ((a OR push_bit D7 1) AND 0x7F)\<rparr>)"
proof -
  note g = go_to [OF assms(1), of a d]
  have t: "length t1 \<le> 15" "length t2 \<le> 15" "length t3 \<le> 15" "length t4 \<le> 15" using assms(2) by simp_all
  note h = two_texts [OF conjunct1 [OF go_to [OF assms(1), of a d]] t(1,2)]
  from two_texts(1) [OF h(1) t(3,4)] two_texts(2) [OF h(1) t(3,4), of d] h(2) [of d] conjunct2 [OF g]
  show "ready (write_text t4 (write_text t3 (write_text t2 (write_text t1 (go_to a s)))))"
    "shown d (write_text t4 (write_text t3 (write_text t2 (write_text t1 (go_to a s)))))
      = typed (chars (t1 @ t2 @ t3 @ t4)) ((shown d s)\<lparr>ac := unat ((a OR push_bit D7 1) AND 0x7F)\<rparr>)"
    by simp_all
qed

text \<open>Two texts on a cleared display are all it shows.\<close>

lemma fresh_texts:
  assumes "ready s" "length a \<le> 15" "length b \<le> 15"
  shows "shows_only (a @ b) (shown d (write_text b (write_text a (wipe s))))"
  using two_texts(2) [of "wipe s" a b d] wipe [OF assms(1), of d] assms(2,3) typed_only [of "a @ b"] by simp

end

interpretation lcd: text_display displayed "\<lambda>s. even (length (pulses s))" lcd_clear lcd_set_ddram "\<lambda>str. lcd_send_string (chars str)"
  by unfold_locales (simp_all add: displayed_clear displayed_sent send_short)

text \<open>The whole: what is on the display, and how often the enable line was pulsed.\<close>

lemma show_values_run:
  assumes "even (length (pulses s))" "\<forall>x \<in> {dist_front d, dist_right d, distance d, velocity d}. length (dtostrf 5 2 x) \<le> 15"
  shows "\<exists>s'. show_values d s = Some s' \<and> even (length (pulses s'))
    \<and> displayed e s' = typed (chars (row2 d)) ((typed (chars (row1 d)) ((displayed e s)\<lparr>ac := 0\<rparr>))\<lparr>ac := 0x40\<rparr>)
    \<and> length (pulses s') = length (pulses s) + 2 * (2 + length (row1 d) + length (row2 d))"
proof -
  have b: "dtostrf_buf 16 5 2 x = Some (dtostrf 5 2 x)" if "length (dtostrf 5 2 x) \<le> 15" for x
    using that by (simp add: dtostrf_buf_def Let_def)
  let ?row = "\<lambda>a t1 x t2 y s. lcd_send_string (chars (dtostrf 5 2 y)) (lcd_send_string (chars t2)
      (lcd_send_string (chars (dtostrf 5 2 x)) (lcd_send_string (chars t1) (lcd_set_ddram a s))))"
  let ?s1 = "?row 0 ''F:'' (dist_front d) '' R:'' (dist_right d) s"
  let ?s2 = "?row ROW2ADR ''D:'' (distance d) '' V:'' (velocity d) ?s1"
  have "show_values d s = Some ?s2" using assms(2) by (simp add: show_values_def Let_def b)
  moreover have f: "\<forall>t \<in> {''F:'', dtostrf 5 2 (dist_front d), '' R:'', dtostrf 5 2 (dist_right d)}. length t \<le> 15"
    and g: "\<forall>t \<in> {''D:'', dtostrf 5 2 (distance d), '' V:'', dtostrf 5 2 (velocity d)}. length t \<le> 15"
    using assms(2) by simp_all
  note l1 = lcd.row_of_four [OF assms(1) f, where a = 0]
  note l2 = lcd.row_of_four [OF l1(1) g, where a = ROW2ADR]
  have z: "unat ((0 OR push_bit D7 1) AND 127 :: u8) = 0" "unat ((ROW2ADR OR push_bit D7 1) AND 127) = 0x40"
    by (simp_all add: port_defs)
  have "even (length (pulses ?s2))" by (rule l2(1))
  moreover have "displayed e ?s2
      = typed (chars (row2 d)) ((typed (chars (row1 d)) ((displayed e s)\<lparr>ac := 0\<rparr>))\<lparr>ac := 0x40\<rparr>)"
    unfolding row1_def row2_def using l1(2) [of e] l2(2) [of e] z by simp
  moreover have "length (pulses ?s2) = length (pulses s) + 2 * (2 + length (row1 d) + length (row2 d))"
    using assms by (simp add: send_short displayed_sent set_ddram_pulses row1_def row2_def)
  ultimately show ?thesis by blast
qed

section \<open>What the sensors' values look like\<close>

text \<open>The documented range of \<open>pow\<close> for the readings and the negative exponents of the code.\<close>

definition pow_ok :: "(fp \<Rightarrow> fp \<Rightarrow> fp) \<Rightarrow> bool" where
  "pow_ok pow \<longleftrightarrow> (\<forall>a :: u16. \<forall>e \<in> {fneg CNV_FRONT_EXP, fneg CNV_RIGHT_EXP}.
     pow (f32 (of_int (uint a))) e = Inf False \<or> between (Fin 0) (pow (f32 (of_int (uint a))) e) (Fin 1))"

lemma dtostrf_inf: "length (dtostrf 5 2 (Inf False)) = 5"
  by (simp add: dtostrf_def print_fixed_def Let_def)

lemma scaled_length:
  assumes "x = Inf False \<or> between (Fin 0) x (Fin 1)" "is_fin c" "0 \<le> fval c"
    and "mul32 c (Inf False) = Inf False" "mul32 c (Fin 0) = Fin 0" "mul32 c (Fin 1) = Fin h"
    and "h * 100 \<le> of_int m" "m < 10 ^ (k + 3)" "1 \<le> k"
  shows "length (dtostrf 5 2 (mul32 c x)) \<le> k + 4"
  using assms(1)
proof
  assume x: "between (Fin 0) x (Fin 1)"
  have "between (mul32 c (Fin 0)) (mul32 c x) (mul32 c (Fin 1))"
    using between_fmono [OF x fmono_mul_left [OF assms(2,3), of 24 127]] assms(5,6) by simp
  then show ?thesis using assms by (intro dtostrf_le [where h = h and m = m]) simp_all
qed (use assms dtostrf_inf in simp)

lemma multiplier_values:
  "is_fin CNV_FRONT_MUL" "0 \<le> fval CNV_FRONT_MUL" "mul32 CNV_FRONT_MUL (Inf False) = Inf False"
  "mul32 CNV_FRONT_MUL (Fin 0) = Fin 0" "mul32 CNV_FRONT_MUL (Fin 1) = Fin (11397366 / 65536)"
  "is_fin CNV_RIGHT_MUL" "0 \<le> fval CNV_RIGHT_MUL" "mul32 CNV_RIGHT_MUL (Inf False) = Inf False"
  "mul32 CNV_RIGHT_MUL (Fin 0) = Fin 0" "mul32 CNV_RIGHT_MUL (Fin 1) = Fin (14050918 / 524288)"
  by code_simp+

lemma velocity_range: "velocity_of p = Inf False \<or> between (Fin 0) (velocity_of p) (Fin 6625)"
  using velocity_bounds [of p] velocity_zero_period
  by (cases "p = 0"; cases "p < WT_TOP") (auto simp: velocity_of_def word_neq_0_conv between_def)

lemma zero_between: "between (Fin 0) (Fin 0) (Fin 1)"
  by (simp add: between_def)

definition short :: "sens_data \<Rightarrow> bool" where
  "short d \<longleftrightarrow> length (dtostrf 5 2 (dist_front d)) \<le> 6 \<and> length (dtostrf 5 2 (dist_right d)) \<le> 5
     \<and> length (dtostrf 5 2 (distance d)) \<le> 6 \<and> length (dtostrf 5 2 (velocity d)) \<le> 7"

lemma short_measured:
  assumes "pow_ok pow"
  shows "short (measure_sens pow a b w)"
proof -
  have f: "length (dtostrf 5 2 (mul32 CNV_FRONT_MUL (pow (f32 (of_int (uint a))) (fneg CNV_FRONT_EXP)))) \<le> 2 + 4"
    using assms by (intro scaled_length [OF _ multiplier_values(1-5), where m = 17392]) (simp_all add: pow_ok_def)
  have r: "length (dtostrf 5 2 (mul32 CNV_RIGHT_MUL (pow (f32 (of_int (uint b))) (fneg CNV_RIGHT_EXP)))) \<le> 1 + 4"
    using assms by (intro scaled_length [OF _ multiplier_values(6-10), where m = 2681]) (simp_all add: pow_ok_def)
  have "length (dtostrf 5 2 (distance_of (fst w))) \<le> 2 + 4"
    by (rule dtostrf_le [OF distance_bounds, of 86836]) simp_all
  moreover have "length (dtostrf 5 2 (velocity_of (snd w))) \<le> 3 + 4"
    using velocity_range [of "snd w"]
  proof
    assume "between (Fin 0) (velocity_of (snd w)) (Fin 6625)"
    then show ?thesis by (rule dtostrf_le [of _ _ 662500]) simp_all
  qed (use dtostrf_inf in simp)
  ultimately show ?thesis using f r by (simp add: short_def measure_sens_def)
qed

lemma short_empty: "short SENS_EMPTY"
  using dtostrf_le [OF zero_between, of 100 1 5] by (simp add: short_def SENS_EMPTY_def)

lemma short_reach: "sens_reach pow s \<Longrightarrow> pow_ok pow \<Longrightarrow> short (sensors s)"
  using published [of pow s] short_measured short_empty by metis

lemma short_run:
  assumes "short d" "even (length (pulses s))"
  shows "\<exists>s'. show_values d s = Some s' \<and> even (length (pulses s'))
    \<and> displayed e s' = typed (chars (row2 d)) ((typed (chars (row1 d)) ((displayed e s)\<lparr>ac := 0\<rparr>))\<lparr>ac := 0x40\<rparr>)
    \<and> length (pulses s') = length (pulses s) + 2 * (2 + length (row1 d) + length (row2 d))
    \<and> length (row1 d) \<le> 16 \<and> length (row2 d) \<le> 18"
proof -
  have "\<forall>x \<in> {dist_front d, dist_right d, distance d, velocity d}. length (dtostrf 5 2 x) \<le> 15"
    using assms(1) by (auto simp: short_def)
  moreover have "length (row1 d) \<le> 16" "length (row2 d) \<le> 18"
    using assms(1) by (simp_all add: short_def row1_def row2_def)
  ultimately show ?thesis using show_values_run [OF assms(2), of d e] by blast
qed

section \<open>Properties\<close>

text \<open>C34. Whatever the sensor module has published, showing it is memory safe, and the display then
  reads as intended: the distances in the first row, which they fit, and odometer and speed in
  the second.\<close>

theorem values_shown:
  assumes "sens_reach pow st" "pow_ok pow" "even (length (pulses s))"
  shows "\<exists>s'. show_values (sensors st) s = Some s'
    \<and> length (row1 (sensors st)) \<le> 16
    \<and> (\<forall>j < length (row1 (sensors st)). ddram (displayed e s') j = Some (of_char (row1 (sensors st) ! j)))
    \<and> (\<forall>j < length (row2 (sensors st)). ddram (displayed e s') (0x40 + j) = Some (of_char (row2 (sensors st) ! j)))"
proof -
  from short_run [OF short_reach [OF assms(1,2)] assms(3), of e] obtain s' where
    "show_values (sensors st) s = Some s'" "length (row1 (sensors st)) \<le> 16" "length (row2 (sensors st)) \<le> 18"
    "displayed e s' = typed (chars (row2 (sensors st))) ((typed (chars (row1 (sensors st))) ((displayed e s)\<lparr>ac := 0\<rparr>))\<lparr>ac := 0x40\<rparr>)"
    by blast
  then show ?thesis by (auto simp: typed_ddram chars_def)
qed

text \<open>The rows are not cleared between iterations: what is behind the new text stays. A distance
  that has become one digit shorter leaves the last digit of the old row behind the new one.\<close>

theorem stale_digits:
  assumes "short d" "even (length (pulses s))" "length (row1 d) \<le> j" "j < 0x40"
  shows "\<exists>s'. show_values d s = Some s' \<and> ddram (displayed e s') j = ddram (displayed e s) j"
  using short_run [OF assms(1,2), of e] assms(3,4) by (auto simp: typed_ddram)

text \<open>The display makes an iteration slow: at least 64 times the enable line is pulsed, for 4 ms
  each, so new sensor values come at most four times a second.\<close>

theorem display_slow:
  assumes "short d" "even (length (pulses s))" "show_values d s = Some s'"
  shows "256 \<le> 4 * (length (pulses s') - length (pulses s))"
proof -
  have w: "5 \<le> length (dtostrf 5 2 x)" for x by (simp add: dtostrf_def Let_def)
  have "15 \<le> length (row1 d)" "15 \<le> length (row2 d)"
    using w [of "dist_front d"] w [of "dist_right d"] w [of "distance d"] w [of "velocity d"]
    by (simp_all add: row1_def row2_def)
  then show ?thesis using short_run [OF assms(1,2), of undefined] assms(3) by auto
qed

section \<open>Witnesses\<close>

definition half_pow :: "fp \<Rightarrow> fp \<Rightarrow> fp" where
  "half_pow x y = (if x = Fin 0 then Inf False else Fin (1 / 2))"

lemma pow_ok_half: "pow_ok half_pow"
  by (simp add: pow_ok_def half_pow_def between_def)

lemma boot_even: "even (length (pulses (display_boot port_zero)))"
proof -
  from lcd_init_sequence [of port_zero] have "even (length (pulses (lcd_init port_zero)))"
    by (simp add: lcd_init_def lcd_reset_def lcd_busy_wait_def lcd_set_4bit_interface_def lcd_send_instruction_def
      lcd_send_pulse_def Let_def port_zero_def)
  from sent_bytes(4) [OF this] show ?thesis by (simp add: display_boot_def lcd_clear_def)
qed

theorem values_shown_witness:
  "\<exists>s'. show_values SENS_EMPTY (display_boot port_zero) = Some s'
    \<and> ddram (displayed \<lparr>ac = 0, ddram = (\<lambda>a. None)\<rparr> s') 0x40 = Some (of_char (CHR ''D''))"
proof -
  from values_shown [OF sens_reach.init pow_ok_half boot_even, of "\<lparr>ac = 0, ddram = (\<lambda>a. None)\<rparr>"] obtain s' where
    "show_values SENS_EMPTY (display_boot port_zero) = Some s'"
    "\<forall>j < length (row2 SENS_EMPTY). ddram (displayed \<lparr>ac = 0, ddram = (\<lambda>a. None)\<rparr> s') (0x40 + j) = Some (of_char (row2 SENS_EMPTY ! j))"
    by (auto simp: sens_init_def)
  then show ?thesis by (intro exI [of _ s']) (auto simp: row2_def dest: spec [of _ 0])
qed

text \<open>A distance of 120, then of 95: the row reads \<open>F:95.00 R:10.000\<close>.\<close>

definition near_values :: "fp \<Rightarrow> sens_data" where
  "near_values x = \<lparr>dist_front = x, dist_right = Fin 10, distance = Fin 0, velocity = Fin 0\<rparr>"

lemma near_rows:
  "row1 (near_values (Fin 120)) = ''F:120.00 R:10.00''" "row1 (near_values (Fin 95)) = ''F:95.00 R:10.00''"
  "short (near_values (Fin 120))" "short (near_values (Fin 95))"
  by code_simp+

theorem stale_digits_witness:
  "\<exists>s1 s2. show_values (near_values (Fin 120)) (display_boot port_zero) = Some s1 \<and> show_values (near_values (Fin 95)) s1 = Some s2
    \<and> ddram (displayed \<lparr>ac = 0, ddram = (\<lambda>a. None)\<rparr> s2) 15 = Some (of_char (CHR ''0''))"
proof -
  let ?e = "\<lparr>ac = 0, ddram = (\<lambda>a. None)\<rparr>"
  from short_run [OF near_rows(3) boot_even, of ?e] obtain s1 where s1:
    "show_values (near_values (Fin 120)) (display_boot port_zero) = Some s1" "even (length (pulses s1))"
    "ddram (displayed ?e s1) 15 = Some (of_char (CHR ''0''))"
    by (auto simp: typed_ddram near_rows chars_def)
  from stale_digits [OF near_rows(4) s1(2), of 15 ?e] s1 show ?thesis by (auto simp: near_rows)
qed

theorem display_slow_witness:
  "256 \<le> 4 * (length (pulses (the (show_values (near_values (Fin 95)) port_zero))) - length (pulses port_zero))"
proof -
  have e: "even (length (pulses port_zero))" by (simp add: port_zero_def)
  from short_run [OF near_rows(4) e, of undefined] obtain s' where "show_values (near_values (Fin 95)) port_zero = Some s'" by blast
  with display_slow [OF near_rows(4) e this] show ?thesis by simp
qed

end
