(* ===== verification/Steering.thy ===== *)
theory Steering
  imports Link Main_Loop Img
begin

text \<open>
  From the camera to the steering servo: the lane error of a frame goes through the objective, the main
  loop and a transaction to the regulator of the control module, which steers to the side the lane
  is on.
\<close>

section \<open>The sign of the regulated value\<close>

lemma mul_range:
  assumes "is_fin a" "is_fin b" "l \<le> fval a * fval b" "fval a * fval b \<le> h" "f32 l = Fin l" "f32 h = Fin h"
  shows "between (Fin l) (mul32 a b) (Fin h)"
  using assms rnd_mono [of l "fval a * fval b" 24 127] rnd_mono [of "fval a * fval b" h 24 127]
  by (intro betweenI) (simp_all add: fle_fmul_fin)

lemma add_range:
  assumes "is_fin a" "is_fin b" "l \<le> fval a + fval b" "fval a + fval b \<le> h" "f32 l = Fin l" "f32 h = Fin h"
  shows "between (Fin l) (add32 a b) (Fin h)"
  using assms rnd_mono [of l "fval a + fval b" 24 127] rnd_mono [of "fval a + fval b" h 24 127]
  by (intro betweenI) (simp_all add: fle_fadd_fin)

lemma gain_values: "is_fin ROT_KP_DEF" "is_fin ROT_KD_DEF" "fval ROT_KP_DEF = 5 / 2" "0 \<le> fval ROT_KD_DEF" "fval ROT_KD_DEF \<le> 2"
  by code_simp+

lemma product_range:
  fixes x :: rat
  assumes "0 \<le> k" "k \<le> m" "l \<le> 0" "0 \<le> h" "l \<le> x" "x \<le> h"
  shows "l * m \<le> x * k \<and> x * k \<le> h * m"
proof
  have "l * m \<le> l * k" using assms by (intro mult_left_mono_neg)
  also have "\<dots> \<le> x * k" using assms by (intro mult_right_mono)
  finally show "l * m \<le> x * k" .
  have "x * k \<le> h * k" using assms by (intro mult_right_mono)
  also have "\<dots> \<le> h * m" using assms by (intro mult_left_mono)
  finally show "x * k \<le> h * m" .
qed

text \<open>With the default gains an error on one side that has not come closer gives a value on this side.\<close>

lemma pd_range:
  assumes "(lo, hi) = (0, 1) \<or> (lo, hi) = (- 1, 0)" "is_fin (err v)" "lo \<le> fval (err v)" "fval (err v) \<le> hi"
    and "is_fin (err_prev v)" "2 * lo \<le> fval (err v) - fval (err_prev v)" "fval (err v) - fval (err_prev v) \<le> 2 * hi"
    and "kp v = ROT_KP_DEF" "kd v = ROT_KD_DEF" "ki v = Fin 0" "is_fin (err_sum v)"
  shows "between (Fin (8 * lo)) (pd_ctrl v) (Fin (8 * hi))"
proof -
  have c: "f32 (k * lo) = Fin (k * lo) \<and> f32 (k * hi) = Fin (k * hi)" if "k \<in> {2, 3, 4, 8}" for k
  proof -
    have "\<forall>k \<in> {2, 3, 4, 8 :: rat}. f32 k = Fin k \<and> f32 (- k) = Fin (- k)" by code_simp
    with that assms(1) show ?thesis by auto
  qed
  have lh: "lo \<le> 0" "0 \<le> hi" using assms(1) by auto
  let ?P = "mul32 (err v) (kp v)" and ?I = "mul32 (err_sum v) (ki v)" and ?S = "sub32 (err v) (err_prev v)"
  let ?D = "mul32 ?S (kd v)"
  have P: "between (Fin (3 * lo)) ?P (Fin (3 * hi))"
  proof -
    have "lo * 3 \<le> fval (err v) * fval (kp v) \<and> fval (err v) * fval (kp v) \<le> hi * 3"
      using assms lh gain_values by (intro product_range) auto
    with assms gain_values c [of 3] show ?thesis by (intro mul_range) (auto simp: mult.commute)
  qed
  have z: "f32 0 = Fin 0" by code_simp
  have I: "between (Fin 0) ?I (Fin 0)" using assms z by (intro mul_range) auto
  have "is_fin (fneg (err_prev v))" "fval (fneg (err_prev v)) = - fval (err_prev v)"
    using assms(5) by (cases "err_prev v"; simp add: fneg_def)+
  then have S: "between (Fin (2 * lo)) ?S (Fin (2 * hi))"
    using assms c [of 2] unfolding fsub_def by (intro add_range) auto
  have D: "between (Fin (4 * lo)) ?D (Fin (4 * hi))"
  proof (rule mul_range)
    show "is_fin ?S" "is_fin (kd v)" "f32 (4 * lo) = Fin (4 * lo)" "f32 (4 * hi) = Fin (4 * hi)"
      using S assms(9) gain_values c [of 4] by (auto simp: between_def)
    have "2 * lo * 2 \<le> fval ?S * fval (kd v) \<and> fval ?S * fval (kd v) \<le> 2 * hi * 2"
      using S assms(9) gain_values lh by (intro product_range) (auto simp: between_def)
    then show "4 * lo \<le> fval ?S * fval (kd v)" "fval ?S * fval (kd v) \<le> 4 * hi" by simp_all
  qed
  have "between (Fin (3 * lo)) (add32 ?P ?I) (Fin (3 * hi))"
    using P I c [of 3] by (intro add_range) (auto simp: between_def)
  then show ?thesis
    unfolding pd_ctrl_def Let_def using D c [of 8] lh by (intro add_range) (auto simp: between_def)
qed

lemma clamp_side:
  "fle (Fin 0) x \<Longrightarrow> between (Fin 0) (clamp ROT_MIN ROT_MAX x) ROT_MAX"
  "fle x (Fin 0) \<Longrightarrow> between ROT_MIN (clamp ROT_MIN ROT_MAX x) (Fin 0)"
  unfolding const_values
  by (cases x; auto simp: clamp_def C_MIN_def C_MAX_def between_def flt_def fle_def)+

lemma servo_side:
  "fle (Fin 0) x \<Longrightarrow> \<not> flag c BF_VEL_ROT \<Longrightarrow> OCR_ROT (drive c x s) \<in> {1500..2000}"
  "fle x (Fin 0) \<Longrightarrow> \<not> flag c BF_VEL_ROT \<Longrightarrow> OCR_ROT (drive c x s) \<in> {1000..1500}"
  using between_ftrunc [OF pwm_between [OF clamp_side(1) pwm_ends(5,4)] pwm_end_values(5,4), of x]
    between_ftrunc [OF pwm_between [OF clamp_side(2) pwm_ends(3,5)] pwm_end_values(3,5), of x]
  by (auto simp: drive_def store16_def Let_def)

definition regulator_ready :: "ctrl_state \<Rightarrow> fp \<Rightarrow> bool" where
  "regulator_ready s e \<longleftrightarrow> kp (rot s) = ROT_KP_DEF \<and> kd (rot s) = ROT_KD_DEF \<and> ki (rot s) = Fin 0
     \<and> fle (Fin (- 1)) (err (rot s)) \<and> fle (err (rot s)) (Fin 1) \<and> is_fin (add32 (err_sum (rot s)) e)"

lemma regulator_steers:
  assumes "regulator_ready s e" "fle (Fin (- 1)) e" "fle e (Fin 1)"
  shows "fle (Fin 0) e \<Longrightarrow> fle (err (rot s)) e \<Longrightarrow> OCR_ROT (ctrl_step BBC_ROT_ERR e s) \<in> {1500..2000}"
    and "fle e (Fin 0) \<Longrightarrow> fle e (err (rot s)) \<Longrightarrow> OCR_ROT (ctrl_step BBC_ROT_ERR e s) \<in> {1000..1500}"
proof -
  have e: "is_fin e" "- 1 \<le> fval e" "fval e \<le> 1" using fle_between_fin [OF assms(2,3)] by simp_all
  have p: "is_fin (err (rot s))" "- 1 \<le> fval (err (rot s))" "fval (err (rot s)) \<le> 1"
    using fle_between_fin [of "- 1" "err (rot s)" 1] assms(1) by (simp_all add: regulator_ready_def)
  let ?v = "(rot s)\<lparr>err_prev := err (rot s), err := e, err_sum := add32 (err_sum (rot s)) e\<rparr>"
  have step: "OCR_ROT (ctrl_step BBC_ROT_ERR e s)
      = OCR_ROT (drive BBC_ROT_ERR (pd_ctrl ?v) (put_pdv BBC_ROT_ERR ?v (s\<lparr>KS_TCNT := 0, sei := True\<rparr>)))"
    by (simp add: ctrl_step_def regulate_def get_pdv_def Let_def)
  show "OCR_ROT (ctrl_step BBC_ROT_ERR e s) \<in> {1500..2000}" if "fle (Fin 0) e" "fle (err (rot s)) e"
  proof -
    have "0 \<le> fval e" "fval (err (rot s)) \<le> fval e" using that e p by (simp_all add: fle_fin)
    then have "between (Fin (8 * 0)) (pd_ctrl ?v) (Fin (8 * 1))"
      using assms(1) e p by (intro pd_range) (auto simp: regulator_ready_def)
    then show ?thesis unfolding step by (intro servo_side) (auto simp: between_def fle_fin)
  qed
  show "OCR_ROT (ctrl_step BBC_ROT_ERR e s) \<in> {1000..1500}" if "fle e (Fin 0)" "fle e (err (rot s))"
  proof -
    have "fval e \<le> 0" "fval e \<le> fval (err (rot s))" using that e p by (simp_all add: fle_fin)
    then have "between (Fin (8 * - 1)) (pd_ctrl ?v) (Fin (8 * 0))"
      using assms(1) e p by (intro pd_range) (auto simp: regulator_ready_def)
    then show ?thesis unfolding step by (intro servo_side) (auto simp: between_def fle_fin)
  qed
qed

section \<open>The side of the lane\<close>

lemma offset_side:
  assumes "0 < e" "e \<le> 2 ^ 24" "- e \<le> x" "x \<le> e"
  shows "0 \<le> x \<Longrightarrow> fle (Fin 0) (div32 (f32 (of_int x)) (f32 (of_int e)))"
    and "x \<le> 0 \<Longrightarrow> fle (div32 (f32 (of_int x)) (f32 (of_int e))) (Fin 0)"
proof -
  let ?x = "f32 (of_int x)" and ?e = "f32 (of_int e)"
  note m = f32_whole [OF assms(1,2)]
  have z: "f32 0 = Fin 0" by code_simp
  have "fle ?x ?e" "fle (f32 (of_int (- e))) ?x" using assms by (intro rnd_mono; simp)+
  moreover have "f32 (of_int (- e)) = fneg ?e" using rnd_neg [of "of_int e" 24 127] assms(1) by simp
  ultimately have x: "is_fin ?x" using m by (auto simp: fle_def)
  have n: "fval ?e \<noteq> 0" using m by simp
  have d: "0 \<le> fval ?x / fval ?e" if "0 \<le> fval ?x" using that m by simp
  have d': "fval ?x / fval ?e \<le> 0" if "fval ?x \<le> 0" using that m by (simp add: divide_le_eq)
  show "fle (Fin 0) (div32 ?x ?e)" if "0 \<le> x"
  proof -
    have "fle (f32 0) ?x" using that by (intro rnd_mono) simp_all
    then have "0 \<le> fval ?x" using x z by (simp add: fle_fin)
    from rnd_mono [OF d [OF this], of 24 127] show ?thesis using x m n by (simp add: fle_fdiv_fin z)
  qed
  show "fle (div32 ?x ?e) (Fin 0)" if "x \<le> 0"
  proof -
    have "fle ?x (f32 0)" using that by (intro rnd_mono) simp_all
    then have "fval ?x \<le> 0" using x z by (simp add: fle_fin)
    from rnd_mono [OF d' [OF this], of 24 127] show ?thesis using x m n by (simp add: fle_fdiv_fin z)
  qed
qed

section \<open>Properties\<close>


section \<open>Witness\<close>

text \<open>A blind turn: no line is seen and the left side is ignored, so the lane is assumed at the right.\<close>

definition blind_p :: ip where
  "blind_p = demo_p\<lparr>opt := \<lparr>ignore_right = False, ignore_left = True, ignore_stop = False\<rparr>\<rparr>"

definition driving :: app where
  "driving = (main_init (0, 0))\<lparr>mpc := M_Execute demo_sens\<rparr>"


end
