(* ===== verification/Overlay.thy ===== *)
theory Overlay
  imports Img Cstdlib
begin

text \<open>
  The rest of \<^verbatim>\<open>src/comm/ip/img_proc.cpp\<close>: the filters in front of the Hough transform, the objects
  that \<open>ip_init\<close> creates and \<open>ip_destroy\<close> deletes, and what the builds with \<open>PLOT\<close> and \<open>VISUAL\<close>
  draw on a frame. OpenCV's operations are arguments; a drawing is the list of the calls.
\<close>

section \<open>From the frame to the lines\<close>

record 'm cv =
  gaussian_blur :: "'m \<Rightarrow> int \<times> int \<Rightarrow> 'm"
  rgb2gray :: "'m \<Rightarrow> 'm"
  cv_threshold :: "'m \<Rightarrow> int \<Rightarrow> int \<Rightarrow> int \<Rightarrow> 'm"
  canny :: "'m \<Rightarrow> int \<Rightarrow> int \<Rightarrow> int \<Rightarrow> 'm"
  zeros_like :: "'m \<Rightarrow> 'm"
  fill_convex_poly :: "'m \<Rightarrow> point list \<Rightarrow> int \<times> int \<times> int \<Rightarrow> 'm"
  bitwise_and :: "'m \<Rightarrow> 'm \<Rightarrow> 'm"
  hough_lines_p :: "'m \<Rightarrow> fp \<Rightarrow> fp \<Rightarrow> int \<Rightarrow> int \<Rightarrow> int \<Rightarrow> line list"

text \<open>The numbers of OpenCV's \<open>THRESH_\<close> constants, in the order of the table.\<close>

definition THR_TYPES :: "int list" where
  "THR_TYPES = [0, 1, 2, 3, 4, 7, 8]"

definition TRACK_MAX :: int where "TRACK_MAX = 255"
definition TRACK_MAX_THRESH :: int where "TRACK_MAX_THRESH = int (length THR_TYPES)"

text \<open>\<open>None\<close> is a read outside the table.\<close>

definition threshold :: "'m cv \<Rightarrow> globals \<Rightarrow> 'm \<Rightarrow> 'm option" where
  "threshold C g img =
     (let edge_img = rgb2gray C (gaussian_blur C img (3, 3))
      in if 0 \<le> thresh_type g \<and> thresh_type g < int (length THR_TYPES)
         then Some (cv_threshold C edge_img (thresh_value g) 255 (THR_TYPES ! nat (thresh_type g))) else None)"

definition img_edge_detector :: "'m cv \<Rightarrow> 'm \<Rightarrow> 'm" where
  "img_edge_detector C img = canny C img 100 150 3"

definition mask_image :: "'m cv \<Rightarrow> 'm \<Rightarrow> point list \<Rightarrow> 'm" where
  "mask_image C img mask_poly =
     (let mask = fill_convex_poly C (zeros_like C img) mask_poly (255, 0, 0) in bitwise_and C img mask)"

definition find_lines :: "'m cv \<Rightarrow> globals \<Rightarrow> 'm \<Rightarrow> line list option" where
  "find_lines C g frame =
     map_option
       (\<lambda>thres_img.
          let edges_image = img_edge_detector C thres_img;
              masked_image = mask_image C edges_image (create_mask g)
          in hough_lines_p C masked_image (Fin 1) (div64 CV_PI (fint 180)) (hough_threshold g) (line_min_length g) (line_max_gap g))
       (threshold C g frame)"

text \<open>\<open>ip_process\<close> from the frame; \<open>None\<close> instead of one is the empty frame.\<close>

definition ip_process_frame ::
  "'m cv \<Rightarrow> lib \<Rightarrow> globals \<Rightarrow> ip_res \<Rightarrow> int \<Rightarrow> 'm option \<Rightarrow> ip \<Rightarrow> (ip \<times> ip_res) option" where
  "ip_process_frame C L g res junk frame p =
     (case frame of
        None \<Rightarrow> ip_process L g res junk None p
      | Some f \<Rightarrow> Option.bind (find_lines C g f) (\<lambda>ls. ip_process L g res junk (Some ls) p))"

text \<open>The pixels OpenCV documents for the operations of \<open>mask_image\<close>.\<close>

definition masks_ok :: "'m cv \<Rightarrow> ('m \<Rightarrow> point \<Rightarrow> int) \<Rightarrow> (point list \<Rightarrow> point \<Rightarrow> bool) \<Rightarrow> bool" where
  "masks_ok C pixel inside \<longleftrightarrow>
     (\<forall>a q. pixel (zeros_like C a) q = 0)
     \<and> (\<forall>a poly c q. pixel (fill_convex_poly C a poly (c, 0, 0)) q = (if inside poly q then c else pixel a q))
     \<and> (\<forall>a b q. pixel (bitwise_and C a b) q = pixel a q AND pixel b q)"

section \<open>The objects\<close>

record build =
  VISUAL :: bool
  RECORD :: bool

datatype cv_obj = Ip_obj | Cap | Frame | Writer_or | Writer_cv

datatype cv_call = New cv_obj | Release cv_obj | Delete cv_obj | Named_window string | Destroy_all_windows

text \<open>The pointers of \<open>struct ip\<close>: which of them are set.\<close>

type_synonym ip_objs = "cv_obj list"

text \<open>\<open>delete\<close> of a null pointer does nothing; a method called on one is \<open>None\<close>.\<close>

definition ip_destroy :: "build \<Rightarrow> ip_objs option \<Rightarrow> cv_call list option" where
  "ip_destroy b ip =
     (let c0 = (if VISUAL b then [Destroy_all_windows] else [])
      in case ip of
           None \<Rightarrow> Some c0
         | Some ob \<Rightarrow>
             Option.bind
               (if RECORD b
                then if Writer_or \<in> set ob \<and> Writer_cv \<in> set ob
                     then Some [Release Writer_or, Release Writer_cv, Delete Writer_or, Delete Writer_cv] else None
                else Some [])
               (\<lambda>c1. if Cap \<in> set ob
                     then Some (c0 @ c1 @ [Release Cap, Delete Cap]
                       @ (if Frame \<in> set ob then [Delete Frame] else []) @ [Delete Ip_obj]) else None))"

text \<open>The calls of \<open>ip_init\<close>, by whether the camera opens, and the pointers it leaves.\<close>

definition ip_init_objs :: "build \<Rightarrow> bool \<Rightarrow> (ip_objs option \<times> cv_call list) option" where
  "ip_init_objs b opened =
     (let c0 = [New Ip_obj, New Cap]
      in if \<not> opened then map_option (\<lambda>c. (None, c0 @ c)) (ip_destroy b (Some [Cap]))
         else (let c1 = c0 @ [New Frame];
                   c2 = (if VISUAL b then c1 @ [Named_window ''Lane'', Named_window ''''] else c1)
               in if RECORD b then Some (Some [Cap, Frame, Writer_or, Writer_cv], c2 @ [New Writer_or, New Writer_cv])
                  else Some (Some [Cap, Frame], c2)))"

text \<open>What a list of calls creates and deletes.\<close>

definition created :: "cv_call list \<Rightarrow> cv_obj list" where
  "created cs = List.concat (List.map (\<lambda>c. case c of New x \<Rightarrow> [x] | _ \<Rightarrow> []) cs)"

definition deleted :: "cv_call list \<Rightarrow> cv_obj list" where
  "deleted cs = List.concat (List.map (\<lambda>c. case c of Delete x \<Rightarrow> [x] | _ \<Rightarrow> []) cs)"

section \<open>The drawing\<close>

type_synonym colour = "int \<times> int \<times> int"

datatype draw =
    Put_text string point colour int
  | Draw_line point point colour int
  | Polylines "point list" bool colour
  | Blend_poly "point list" colour
  | Circle point int colour

definition osd_text :: "string \<Rightarrow> int \<Rightarrow> int \<Rightarrow> draw list" where
  "osd_text str x y = [Put_text str (x, y) (0, 0, 0) 2, Put_text str (x, y) (255, 255, 255) 1]"

text \<open>What \<open>obj_execute\<close> hands over under \<open>PLOT\<close>.\<close>

record ip_osd =
  osd_cmd :: string
  osd_pos :: int
  osd_postime :: fp
  osd_posdist :: fp

definition osd_of :: "sens_val \<Rightarrow> obj \<Rightarrow> ip_osd" where
  "osd_of sv ob =
     \<lparr>osd_cmd = (case current ob of Some c \<Rightarrow> cmd_name c | None \<Rightarrow> ''none''), osd_pos = pos ob,
      osd_postime = sub64 (s_time sv) (passtime ob), osd_posdist = sub64 (s_distance sv) (passdist ob)\<rparr>"

text \<open>\<open>%d\<close>, and \<open>sprintf\<close> into a buffer.\<close>

definition print_int :: "int \<Rightarrow> string" where
  "print_int n = (if n < 0 then CHR ''-'' # dec (- n) else dec n)"

definition sprintf_buf :: "nat \<Rightarrow> string \<Rightarrow> string option" where
  "sprintf_buf n s = (if length s < n then Some s else None)"

text \<open>\<open>ticks\<close> is the time since the last frame in nanoseconds.\<close>

definition frame_rate :: "int \<Rightarrow> int option" where
  "frame_rate ticks = (let period = div64 (fint ticks) (f64 1000000000) in to_int (div64 (Fin 1) period))"

definition texts :: "globals \<Rightarrow> int \<Rightarrow> ip_res \<Rightarrow> ip_osd option \<Rightarrow> draw list option" where
  "texts g ticks res osd =
     Option.bind (frame_rate ticks) (\<lambda>fps.
     Option.bind (sprintf_buf 10 (print_fixed 2 (lane_offset res))) (\<lambda>errstr.
     (let d0 = osd_text (print_int fps) 0 13 @ osd_text errstr 0 (13 * 2)
      in case osd of
           None \<Rightarrow> Some d0
         | Some os \<Rightarrow>
             Option.bind (sprintf_buf 64 (osd_cmd os @ '':'' @ print_int (osd_pos os))) (\<lambda>osdstr1.
             Option.bind (sprintf_buf 64 (''t:'' @ print_fixed 2 (osd_postime os))) (\<lambda>osdstr2.
             Option.bind (sprintf_buf 64 (''d:'' @ print_fixed 2 (osd_posdist os))) (\<lambda>osdstr3.
               Some (d0 @ osd_text osdstr1 (WIDTH g - 13 * 5) 13 @ osd_text osdstr2 (WIDTH g - 13 * 5) (13 * 2)
                 @ osd_text osdstr3 (WIDTH g - 13 * 5) (13 * 3))))))))"

definition draw_lines :: "colour \<Rightarrow> line list \<Rightarrow> draw list" where
  "draw_lines c ls = List.map (\<lambda>l. Draw_line (line_start l) (line_end l) c 1) ls"

text \<open>The squares are sums of \<open>int\<close>s, undefined where they overflow.\<close>

definition unit :: "point \<Rightarrow> (fp \<times> fp) option" where
  "unit p =
     (let n = fst p * fst p + snd p * snd p
      in if 2 ^ 31 \<le> n then None
         else (let len = sqrt64 (fint n) in Some (div64 (fint (fst p)) len, div64 (fint (snd p)) len)))"

text \<open>The extent of the region where stop lines are accepted, along the lane.\<close>

definition stop_extent :: "globals \<Rightarrow> point \<Rightarrow> point option" where
  "stop_extent g dir =
     Option.bind (unit dir) (\<lambda>u.
     Option.bind (to_int (mul64 (fst u) (fint (max_stop_diff g)))) (\<lambda>dx.
     map_option (\<lambda>dy. (dx, dy)) (to_int (mul64 (snd u) (fint (max_stop_diff g))))))"

definition pt_scale :: "int \<Rightarrow> point \<Rightarrow> point" where
  "pt_scale k p = (k * fst p, k * snd p)"

definition stop_poly :: "ip \<Rightarrow> point \<Rightarrow> point list" where
  "stop_poly p d =
     [pt_sub (pt_sub (stop p) (pt_scale 5 (stop_dir p))) d, pt_add (pt_sub (stop p) (pt_scale 5 (stop_dir p))) d,
      pt_add (pt_add (stop p) (pt_scale 5 (stop_dir p))) d, pt_sub (pt_add (stop p) (pt_scale 5 (stop_dir p))) d]"

text \<open>The lines and marks of a frame, after its text.\<close>

definition marks :: "globals \<Rightarrow> classes \<Rightarrow> int \<Rightarrow> int \<Rightarrow> bool \<Rightarrow> point \<Rightarrow> ip \<Rightarrow> draw list" where
  "marks g cl right_x left_x passed d p =
     draw_lines (100, 100, 100) (rem_lines cl)
     @ draw_lines (if ignore_right (opt p) then 150 else 255, 0, 0) (right_lines cl)
     @ draw_lines (0, if ignore_left (opt p) then 150 else 255, 0) (left_lines cl)
     @ draw_lines (0, 0, 255) (stop_lines cl)
     @ [Polylines (create_mask g) True (50, 50, 50),
        Draw_line (fst (lane p) - lane_width p sdiv 2, snd (lane p)) (fst (lane p) + lane_width p sdiv 2, snd (lane p)) (255, 255, 0) 1,
        Draw_line (lane p) (pt_add (lane p) (lane_dir p)) (0, 255, 255) 3]
     @ replicate 2 (Draw_line (pt_sub (stop p) (stop_dir p)) (pt_add (stop p) (stop_dir p)) (255, 0, 255) (if stop_valid p then 2 else 1))
     @ [Blend_poly (stop_poly p d) (255, 0, 255),
        Circle (left_x, snd (lane p)) 3 (0, 255, 0), Circle (right_x, snd (lane p)) 3 (255, 0, 0),
        Circle (lane_center g, snd (lane p)) 2 (0, 0, 0), Circle (lane p) 2 (255, 0, 255),
        Circle (lane_center g + max_lane_error g, snd (lane p)) 2 (0, 0, 0),
        Circle (lane_center g - max_lane_error g, snd (lane p)) 2 (0, 0, 0)]
     @ (if passed then [Circle (WIDTH g sdiv 2, HEIGHT g sdiv 2) (WIDTH g sdiv 2) (255, 0, 255)] else [])"

text \<open>\<open>ip_process\<close> in a build with \<open>PLOT\<close>: the result and the drawing on the frame.\<close>

definition ip_plot ::
  "lib \<Rightarrow> globals \<Rightarrow> ip_res \<Rightarrow> int \<Rightarrow> line list \<Rightarrow> int \<Rightarrow> ip_osd option \<Rightarrow> ip \<Rightarrow> (ip \<times> ip_res \<times> draw list) option" where
  "ip_plot L g res junk hough_lines ticks osd p =
     (let cl = classify_lines L g p hough_lines no_lines
      in Option.bind (line_pos_x L (right_lines cl) (snd (lane p))) (\<lambda>right_x.
         Option.bind (line_pos_x L (left_lines cl) (snd (lane p))) (\<lambda>left_x.
         Option.bind (ip_process L g res junk (Some hough_lines) p) (\<lambda>(p', r).
         Option.bind (texts g ticks r osd) (\<lambda>tx.
         Option.bind (stop_extent g (lane_dir p')) (\<lambda>d.
           Some (p', r, tx @ marks g cl right_x left_x (stopline_passed r) d p')))))))"

section \<open>The sliders\<close>

text \<open>Name, greatest position and variable of the sliders of the window.\<close>

definition trackbars :: "globals \<Rightarrow> (string \<times> int \<times> (int \<Rightarrow> globals)) list" where
  "trackbars g =
     [(''b,bi,tr,z,zi,msk,otsu,tri'', TRACK_MAX_THRESH, \<lambda>v. g\<lparr>thresh_type := v\<rparr>),
      (''thresval'', TRACK_MAX, \<lambda>v. g\<lparr>thresh_value := v\<rparr>),
      (''hougthres'', TRACK_MAX, \<lambda>v. g\<lparr>hough_threshold := v\<rparr>),
      (''houghmin'', TRACK_MAX, \<lambda>v. g\<lparr>line_min_length := v\<rparr>),
      (''houghgap'', TRACK_MAX, \<lambda>v. g\<lparr>line_max_gap := v\<rparr>),
      (''mask_width_top'', WIDTH g, \<lambda>v. g\<lparr>mask_width_top := v\<rparr>),
      (''mask_start_y'', HEIGHT g, \<lambda>v. g\<lparr>mask_start_y := v\<rparr>),
      (''mask_end_y'', HEIGHT g, \<lambda>v. g\<lparr>mask_end_y := v\<rparr>)]"

text \<open>A slider is moved; OpenCV keeps it between zero and its greatest position.\<close>

definition slide :: "nat \<Rightarrow> int \<Rightarrow> globals \<Rightarrow> globals" where
  "slide i v g = (if i < length (trackbars g)
     then let (name, mx, var) = trackbars g ! i in var (min (max 0 v) mx) else g)"

text \<open>The key after a frame: escape destroys everything and leaves the program.\<close>

definition visual_key :: "build \<Rightarrow> ip_objs \<Rightarrow> int \<Rightarrow> cv_call list option \<times> bool" where
  "visual_key b ob k = (if k = 27 then (ip_destroy b (Some ob), True) else (Some [], False))"

section \<open>The root of a sum of squares\<close>

lemma isqrt_spec: "0 \<le> n \<Longrightarrow> 0 \<le> isqrt n \<and> isqrt n * isqrt n \<le> n \<and> n < (isqrt n + 1) * (isqrt n + 1)"
proof (induction n rule: isqrt.induct)
  case (1 n)
  show ?case
  proof (cases "n \<le> 0")
    case True
    with 1 show ?thesis by (subst (1 2 3 4 5) isqrt.simps) simp
  next
    case False
    let ?s = "isqrt (n div 4)"
    have s: "0 \<le> ?s" "?s * ?s \<le> n div 4" "n div 4 < (?s + 1) * (?s + 1)" using 1 False by simp_all
    have "4 * (n div 4) \<le> n" "n < 4 * (n div 4) + 4" by presburger+
    with s(2,3) have b: "4 * (?s * ?s) \<le> n" "n < 4 * ((?s + 1) * (?s + 1))" by linarith+
    have "isqrt n = (if (2 * ?s + 1) * (2 * ?s + 1) \<le> n then 2 * ?s + 1 else 2 * ?s)"
      using False by (subst isqrt.simps) (simp add: Let_def)
    with s(1) b show ?thesis by (auto simp: algebra_simps)
  qed
qed

lemma self_le_square: "0 \<le> (a :: int) \<Longrightarrow> a \<le> a * a"
  using self_le_power [of a 2] by (cases "a = 0") (auto simp: power2_eq_square)

lemma isqrt_ge:
  assumes "0 \<le> m" "m * m \<le> n"
  shows "m \<le> isqrt n"
proof (rule ccontr)
  assume "\<not> m \<le> isqrt n"
  then have le: "isqrt n + 1 \<le> m" by simp
  have "0 \<le> n" using assms(2) zero_le_square [of m] by (rule order_trans [rotated])
  note q = isqrt_spec [OF this]
  have "(isqrt n + 1) * (isqrt n + 1) \<le> m * m" using le q by (intro mult_mono) auto
  with q assms(2) show False by linarith
qed

text \<open>The rounded root of a whole number is finite and not below any whole number whose square is not above it.\<close>

text \<open>The root of a number scaled by an even power of two.\<close>

lemma isqrt_scaled:
  assumes "0 \<le> m" "m * m \<le> n" "n < 2 ^ 32" "e \<le> 54"
  shows "m * 2 ^ e \<le> isqrt (n * 2 ^ (2 * e))" "0 \<le> isqrt (n * 2 ^ (2 * e))" "isqrt (n * 2 ^ (2 * e)) \<le> 2 ^ 140"
proof -
  have n: "0 \<le> n" using assms(2) zero_le_square [of m] by linarith
  have "(2 :: int) ^ (2 * e) = 2 ^ e * 2 ^ e" by (simp add: mult_2 power_add)
  then have "m * 2 ^ e * (m * 2 ^ e) \<le> n * 2 ^ (2 * e)"
    using assms(2) mult_right_mono [of "m * m" n "2 ^ (2 * e)"] by (simp add: ac_simps)
  then show "m * 2 ^ e \<le> isqrt (n * 2 ^ (2 * e))" using assms(1) n by (intro isqrt_ge) simp_all
  have spec: "0 \<le> isqrt (n * 2 ^ (2 * e))" "isqrt (n * 2 ^ (2 * e)) * isqrt (n * 2 ^ (2 * e)) \<le> n * 2 ^ (2 * e)"
    using isqrt_spec [of "n * 2 ^ (2 * e)"] n by simp_all
  then show "0 \<le> isqrt (n * 2 ^ (2 * e))" by simp
  have "isqrt (n * 2 ^ (2 * e)) \<le> n * 2 ^ (2 * e)" using spec self_le_square [of "isqrt (n * 2 ^ (2 * e))"] by linarith
  also have "n * 2 ^ (2 * e) \<le> 2 ^ 32 * 2 ^ (2 * e)" using assms(3) by (intro mult_right_mono) simp_all
  also have "\<dots> = 2 ^ (32 + 2 * e)" by (simp add: power_add)
  also have "\<dots> \<le> 2 ^ 140" using assms(4) by (intro power_increasing) simp_all
  finally show "isqrt (n * 2 ^ (2 * e)) \<le> 2 ^ 140" .
qed

lemma sqrt64_sum:
  assumes "0 \<le> m" "m * m \<le> n" "0 < n" "n < 2 ^ 32"
  shows "is_fin (sqrt64 (fint n))" "of_int m \<le> fval (sqrt64 (fint n))"
proof -
  let ?x = "of_int n :: rat"
  have x: "fint n = Fin ?x" using assms(3,4) by (intro fint_exact) simp
  have xb: "0 < ?x" "1 \<le> ?x" "?x < 2 ^ 32" 
  proof -
    have "of_int n < (of_int (2 ^ 32) :: rat)" using assms(4) by (simp only: of_int_less_iff)
    then show "?x < 2 ^ 32" by simp
  qed (use assms(3) in simp_all)
  define k where "k = 54 - ilog2 ?x div 2"
  have "ilog2 ?x < 32" using xb pow2_nat [of 32] by (intro ilog2_less) simp_all
  moreover have "0 \<le> ilog2 ?x" using xb by (intro ilog2_ge) (simp_all add: pow2_def)
  ultimately have k: "0 \<le> k" "k \<le> 54" by (simp_all add: k_def)
  define e where "e = nat k"
  have e: "k = int e" "e \<le> 54" using k by (simp_all add: e_def)
  have p: "pow2 (2 * k) = 2 ^ (2 * e)" "pow2 (- k) = 1 / 2 ^ e"
    using pow2_nat [of "2 * e"] by (simp_all add: e pow2_powi power_int_minus divide_inverse)
  let ?y = "?x * 2 ^ (2 * e)"
  let ?r = "if of_int (isqrt \<lfloor>?y\<rfloor>) * of_int (isqrt \<lfloor>?y\<rfloor>) = ?y then 0 else 1 / 2 :: rat"
  let ?v = "(of_int (isqrt \<lfloor>?y\<rfloor>) + ?r) * (1 / 2 ^ e)"
  have s: "sqrt64 (fint n) = f64 ?v"
    unfolding x using xb(1) by (simp add: sqrt64_def p Let_def flip: k_def)
  have y: "?y = of_int (n * 2 ^ (2 * e))" by simp
  then have fl: "\<lfloor>?y\<rfloor> = n * 2 ^ (2 * e)" by (simp only: floor_of_int)
  note r = isqrt_scaled [OF assms(1,2,4) e(2), folded fl]
  have "of_int (m * 2 ^ e) \<le> (of_int (isqrt \<lfloor>?y\<rfloor>) :: rat)" using r(1) by (simp only: of_int_le_iff)
  then have "of_int m * 2 ^ e \<le> (of_int (isqrt \<lfloor>?y\<rfloor>) + ?r :: rat)" by simp
  then have lo: "of_int m \<le> ?v" by (simp add: field_simps)
  have "of_int (isqrt \<lfloor>?y\<rfloor>) \<le> (of_int (2 ^ 140) :: rat)" using r(3) by (simp only: of_int_le_iff)
  moreover have "0 \<le> (of_int (isqrt \<lfloor>?y\<rfloor>) :: rat)" using r(2) by simp
  ultimately have "of_int (isqrt \<lfloor>?y\<rfloor>) + ?r \<le> 2 ^ 141" "0 \<le> of_int (isqrt \<lfloor>?y\<rfloor>) + ?r" by auto
  then have "?v \<le> 2 ^ 141" "0 \<le> ?v"
    using mult_mono [of "of_int (isqrt \<lfloor>?y\<rfloor>) + ?r" "2 ^ 141" "1 / 2 ^ e" 1] by simp_all
  then have "bnd 141 (f64 ?v)" by (intro bnd_rnd) simp_all
  then show f: "is_fin (sqrt64 (fint n))" by (simp add: s bnd_def)
  have "m \<le> m * m" using assms(1) by (rule self_le_square)
  with assms(2,4) have "\<bar>m\<bar> \<le> 2 ^ 53" using assms(1) by simp
  then have "f64 (of_int m) = Fin (of_int m)" using fint_exact by (simp add: fint_def)
  from fle_rnd_exact(2) [OF this lo] f show "of_int m \<le> fval (sqrt64 (fint n))"
    unfolding s by (simp add: fle_fin)
qed

section \<open>Defined drawings\<close>

lemma to_int_within:
  assumes "is_fin a" "\<bar>fval a\<bar> \<le> of_int m" "m < 2 ^ 31"
  shows "\<exists>k. to_int a = Some k \<and> \<bar>k\<bar> \<le> m"
proof -
  have tr: "\<lfloor>x\<rfloor> \<le> m \<and> 0 \<le> \<lfloor>x\<rfloor>" if "0 \<le> x" "x \<le> of_int m" for x :: rat
    using that floor_mono [of x "of_int m"] by simp
  have "\<exists>k. ftrunc a = Some k \<and> \<bar>k\<bar> \<le> m"
    using assms tr [of "fval a"] tr [of "- fval a"] by (cases "fval a < 0") (auto simp: ftrunc_def)
  with assms(3) show ?thesis by (auto simp: to_int_def abs_le_iff)
qed

text \<open>A coordinate divided by the length is at most one.\<close>

lemma unit_coordinate:
  assumes "x * x \<le> n" "0 < n" "n < 2 ^ 31" "0 \<le> m" "m \<le> 2 ^ 30"
  shows "\<exists>k. to_int (mul64 (div64 (fint x) (sqrt64 (fint n))) (fint m)) = Some k \<and> \<bar>k\<bar> \<le> m"
proof -
  let ?l = "sqrt64 (fint n)" and ?u = "div64 (fint x) (sqrt64 (fint n))"
  have l: "is_fin ?l" "1 \<le> fval ?l" "of_int \<bar>x\<bar> \<le> fval ?l"
    using sqrt64_sum [of 1 n] sqrt64_sum [of "\<bar>x\<bar>" n] assms by simp_all
  have "\<bar>x\<bar> \<le> \<bar>x\<bar> * \<bar>x\<bar>" by (rule self_le_square) simp
  with assms have "\<bar>x\<bar> \<le> 2 ^ 53" by simp
  then have x: "fint x = Fin (of_int x)" by (rule fint_exact)
  have m: "fint m = Fin (of_int m)" "f64 (of_int m) = Fin (of_int m)" "f64 (- of_int m) = Fin (- of_int m)"
    using fint_exact [of m] fint_exact [of "- m"] assms(4,5) by (simp_all add: fint_def)
  have one: "f64 1 = Fin 1" "f64 (- 1) = Fin (- 1)" by code_simp+
  have "of_int x / fval ?l \<le> 1" "- 1 \<le> of_int x / fval ?l"
    using l by (simp_all add: divide_le_eq le_divide_eq)
  then have "fle ?u (Fin 1)" "fle (Fin (- 1)) ?u"
    using l fle_rnd_exact [OF one(1)] fle_rnd_exact [OF one(2)] by (simp_all add: fle_fdiv_fin x)
  from fle_between_fin [OF this(2,1)] have u: "is_fin ?u" "- 1 \<le> fval ?u" "fval ?u \<le> 1" by simp_all
  have "fval ?u * of_int m \<le> 1 * of_int m" "- 1 * of_int m \<le> fval ?u * of_int m"
    using u assms(4) by (intro mult_right_mono; simp)+
  then have "fle (mul64 ?u (fint m)) (Fin (of_int m))" "fle (Fin (- of_int m)) (mul64 ?u (fint m))"
    using u fle_rnd_exact [OF m(2)] fle_rnd_exact [OF m(3)] by (simp_all add: fle_fmul_fin m(1))
  from fle_between_fin [OF this(2,1)] assms(5) show ?thesis by (intro to_int_within) (auto simp: abs_le_iff)
qed

lemma stop_extent_defined:
  assumes "dir \<noteq> (0, 0)" "fst dir * fst dir + snd dir * snd dir < 2 ^ 31" "0 \<le> max_stop_diff g" "max_stop_diff g \<le> 2 ^ 30"
  shows "\<exists>d. stop_extent g dir = Some d \<and> \<bar>fst d\<bar> \<le> max_stop_diff g \<and> \<bar>snd d\<bar> \<le> max_stop_diff g"
proof -
  let ?n = "fst dir * fst dir + snd dir * snd dir"
  have "0 < ?n" using assms(1) by (cases dir) (auto simp: sum_squares_gt_zero_iff)
  with unit_coordinate [of "fst dir" ?n "max_stop_diff g"] unit_coordinate [of "snd dir" ?n "max_stop_diff g"] assms
  obtain dx dy where "to_int (mul64 (div64 (fint (fst dir)) (sqrt64 (fint ?n))) (fint (max_stop_diff g))) = Some dx"
    "\<bar>dx\<bar> \<le> max_stop_diff g" "to_int (mul64 (div64 (fint (snd dir)) (sqrt64 (fint ?n))) (fint (max_stop_diff g))) = Some dy"
    "\<bar>dy\<bar> \<le> max_stop_diff g" by auto
  with assms(2) show ?thesis by (auto simp: stop_extent_def unit_def Let_def)
qed

lemma frame_rate_defined:
  assumes "1 \<le> ticks" "ticks \<le> 2 ^ 53"
  shows "\<exists>fps. frame_rate ticks = Some fps \<and> \<bar>fps\<bar> \<le> 2 ^ 30"
proof -
  let ?b = "f64 1000000000" and ?q = "of_int ticks / 1000000000 :: rat"
  have b: "?b = Fin 1000000000" using fint_exact [of 1000000000] by (simp add: fint_def)
  have t: "fint ticks = Fin (of_int ticks)" using assms by (intro fint_exact) simp
  have t1: "(1 :: rat) \<le> of_int ticks" using assms(1) by simp
  have p: "div64 (fint ticks) ?b = f64 ?q" unfolding t b using t1 by (simp add: fdiv_def Let_def)
  have "bnd 53 (fint ticks)" using assms by (intro bnd_fint) simp_all
  then have "bnd (53 + 0) (div64 (fint ticks) ?b)" by (rule bnd_div) (simp_all add: b)
  then have f: "is_fin (f64 ?q)" unfolding p by (simp add: bnd_def)
  have "1 / 2 ^ 30 \<le> \<bar>?q\<bar>" using t1 by simp
  then have "1 / 2 ^ 30 \<le> \<bar>fval (f64 ?q)\<bar>" using f by (intro rnd_not_small) simp_all
  moreover have "bnd 0 (Fin 1)" by (simp add: bnd_def)
  ultimately have "bnd (0 + 30) (div64 (Fin 1) (f64 ?q))" using f by (intro bnd_div) simp_all
  then show ?thesis using to_int_bnd [of 30] unfolding frame_rate_def Let_def p by simp
qed

lemma print_int_le: "\<bar>n\<bar> < 10 ^ 10 \<Longrightarrow> length (print_int n) \<le> 11"
  using dec_length_le [of "\<bar>n\<bar>" 9] by (auto simp: print_int_def abs_if split: if_splits)

lemma texts_defined:
  assumes "1 \<le> ticks" "ticks \<le> 2 ^ 53" "fle (Fin (- 1)) (lane_offset r)" "fle (lane_offset r) (Fin 1)"
    and "\<bar>pos ob\<bar> < 2 ^ 31" "\<forall>x \<in> {sub64 (s_time sv) (passtime ob), sub64 (s_distance sv) (passdist ob)}. is_fin x \<longrightarrow> \<bar>fval x\<bar> \<le> 2 ^ 129"
  shows "\<exists>tx. texts g ticks r (Some (osd_of sv ob)) = Some tx"
proof -
  obtain fps where fps: "frame_rate ticks = Some fps" using frame_rate_defined [OF assms(1,2)] by blast
  have "length (print_fixed 2 (lane_offset r)) \<le> 0 + 2 + 3"
    using fle_between_fin [OF assms(3,4)] by (intro print_fixed_le [of _ _ 100]) (auto simp: abs_le_iff)
  moreover have "length (osd_cmd (osd_of sv ob)) = 4"
    unfolding osd_of_def by (cases "current ob") (simp, cases "the (current ob)", simp_all)
  moreover have "length (print_int (osd_pos (osd_of sv ob))) \<le> 11"
    using assms(5) by (intro print_int_le) (simp add: osd_of_def)
  moreover have "length (print_fixed 2 x) \<le> 38 + 2 + 3" if "is_fin x \<longrightarrow> \<bar>fval x\<bar> \<le> 2 ^ 129" for x
    using that by (intro print_fixed_le [of _ _ "2 ^ 129 * 100"]) simp_all
  then have "length (print_fixed 2 (osd_postime (osd_of sv ob))) \<le> 43" "length (print_fixed 2 (osd_posdist (osd_of sv ob))) \<le> 43"
    using assms(6) by (simp_all add: osd_of_def)
  ultimately show ?thesis by (simp add: texts_def fps sprintf_buf_def)
qed

section \<open>Properties\<close>


text \<open>Without those bounds it is not: two frames at the same time make the frame rate infinite, and 108
  side lines over the height of the default frame make the squares overflow.\<close>

theorem overlay_undefined:
  "frame_rate 0 = None
    \<and> (let p = find_dir demo_g \<lparr>right_lines = replicate 108 (200, 144, 200, 0), left_lines = [], stop_lines = [], rem_lines = []\<rparr> demo_p
       in unit (lane_dir p) = None)"
  unfolding Let_def by (rule conjI; code_simp)

text \<open>Every object \<open>ip_init\<close> creates is deleted once by \<open>ip_destroy\<close>, also when the camera is not
  found; but in a build with \<open>RECORD\<close> that failure calls a method of a writer that does not
  exist yet.\<close>

theorem ip_objects:
  "(\<exists>ob c d. ip_init_objs b True = Some (Some ob, c) \<and> ip_destroy b (Some ob) = Some d
      \<and> distinct (created c) \<and> mset (deleted d) = mset (created c))
    \<and> (if RECORD b then ip_init_objs b False = None
       else \<exists>c. ip_init_objs b False = Some (None, c) \<and> distinct (created c) \<and> mset (deleted c) = mset (created c))"
  by (cases "RECORD b"; cases "VISUAL b")
     (auto simp: ip_init_objs_def ip_destroy_def created_def deleted_def Let_def)

text \<open>The sliders of the window reach one position too far: the last one of the first slider is behind the
  table of threshold types. It is the only one that makes the thresholding undefined.\<close>

theorem last_slider_position:
  assumes "threshold C g f \<noteq> None"
  shows "threshold C (slide i v g) f = None \<longleftrightarrow> i = 0 \<and> 7 \<le> v"
proof (cases "i < 8")
  case True
  then have "i = 0 \<or> i = 1 \<or> i = 2 \<or> i = 3 \<or> i = 4 \<or> i = 5 \<or> i = 6 \<or> i = 7" by arith
  with assms show ?thesis
    by (elim disjE) (auto simp: threshold_def slide_def trackbars_def THR_TYPES_def TRACK_MAX_THRESH_def TRACK_MAX_def
        Let_def split: if_splits)
qed (use assms in \<open>simp add: slide_def trackbars_def\<close>)

text \<open>Only the region of interest reaches the Hough transform: the masked picture is the picture inside
  the polygon and zero outside.\<close>

theorem region_of_interest:
  assumes "masks_ok C pixel inside" "0 \<le> pixel img q" "pixel img q < 256"
  shows "pixel (mask_image C img poly) q = (if inside poly q then pixel img q else 0)"
proof -
  have "(255 :: int) = mask 8" by (simp add: mask_eq_exp_minus_1)
  then have "pixel img q AND 255 = pixel img q"
    using assms(2,3) by (simp only: take_bit_eq_mask [symmetric]) (simp add: take_bit_eq_mod)
  moreover from assms(1) have "pixel (zeros_like C a) q = 0"
    "pixel (fill_convex_poly C a poly (c, 0, 0)) q = (if inside poly q then c else pixel a q)"
    "pixel (bitwise_and C a b) q = pixel a q AND pixel b q" for a b c
    unfolding masks_ok_def by blast+
  ultimately show ?thesis by (simp add: mask_image_def)
qed

section \<open>Witnesses\<close>


text \<open>Pictures as functions, with the polygon's bounding box for the polygon.\<close>

definition demo_cv :: "(point \<Rightarrow> int) cv" where
  "demo_cv = \<lparr>gaussian_blur = (\<lambda>a s. a), rgb2gray = id, cv_threshold = (\<lambda>a t m k q. if t < a q then m else 0),
     canny = (\<lambda>a l h n. a), zeros_like = (\<lambda>a q. 0),
     fill_convex_poly = (\<lambda>a poly (c, c2, c3) q. if list_ex (\<lambda>v. fst q \<le> fst v) poly \<and> list_ex (\<lambda>v. fst v \<le> fst q) poly
        \<and> list_ex (\<lambda>v. snd q \<le> snd v) poly \<and> list_ex (\<lambda>v. snd v \<le> snd q) poly then c else a q),
     bitwise_and = (\<lambda>a b q. a q AND b q), hough_lines_p = (\<lambda>a r t h l m. [])\<rparr>"

theorem last_slider_position_witness:
  "threshold demo_cv (slide 0 7 demo_g) (\<lambda>q. 0) = None \<and> threshold demo_cv (slide 1 7 demo_g) (\<lambda>q. 0) \<noteq> None"
proof -
  have "threshold demo_cv demo_g (\<lambda>q. 0) \<noteq> None" by (simp add: threshold_def demo_g_def THR_TYPES_def)
  from last_slider_position [OF this, of 0 7] last_slider_position [OF this, of 1 7] show ?thesis by simp
qed

theorem region_of_interest_witness: "mask_image demo_cv (\<lambda>q. 200) (create_mask demo_g) (10, 20) = 0"
proof -
  let ?in = "\<lambda>poly q. list_ex (\<lambda>v. fst q \<le> fst v) poly \<and> list_ex (\<lambda>v. fst v \<le> fst q) poly
        \<and> list_ex (\<lambda>v. snd q \<le> snd v) poly \<and> list_ex (\<lambda>v. snd v \<le> snd q) (poly :: point list)"
  have "masks_ok demo_cv (\<lambda>a. a) ?in" by (simp add: masks_ok_def demo_cv_def)
  moreover have "\<not> ?in (create_mask demo_g) (10, 20)" by code_simp
  ultimately show ?thesis using region_of_interest [of demo_cv "\<lambda>a. a" ?in "\<lambda>q. 200" "(10, 20)" "create_mask demo_g"] by simp
qed

end
