(* ===== verification/Lcd_Demo.thy ===== *)
theory Lcd_Demo
  imports Sens_Display Avr_Setup
begin

text \<open>
  The program that tries out the display, \<^verbatim>\<open>src/dbg/lcd/lcd_lcd/lcd_lcd/lcd_lcd.c\<close>: an older copy
  of the driver, here with its delays, and a \<open>main\<close> that shows some texts and then the reading of a
  sensor once a second. Erasing the time gives the driver of \<^verbatim>\<open>Lcd\<close>.
\<close>

section \<open>The driver\<close>

text \<open>
  \<open>waveform\<close> is history: the value of the port in every delay, with its milliseconds. The delays
  make up all the time; the instructions between them take microseconds.
\<close>

record board =
  B_PORTA :: u8
  hw :: regs
  waveform :: "(u8 \<times> nat) list"

definition delay_ms :: "nat \<Rightarrow> board \<Rightarrow> board" where
  "delay_ms ms s = s\<lparr>waveform := waveform s @ [(B_PORTA s, ms)]\<rparr>"

definition old_send_pulse :: "board \<Rightarrow> board" where
  "old_send_pulse s =
     (let s1 = delay_ms 2 (s\<lparr>B_PORTA := B_PORTA s OR push_bit EN 1\<rparr>)
      in delay_ms 2 (s1\<lparr>B_PORTA := B_PORTA s1 AND NOT (push_bit EN 1)\<rparr>))"

definition old_send_instruction :: "u8 \<Rightarrow> board \<Rightarrow> board" where
  "old_send_instruction instr s =
     (let upper = (instr AND 0xF0) AND NOT (push_bit RS 1);
          s1 = old_send_pulse (s\<lparr>B_PORTA := upper\<rparr>);
          lower = push_bit 4 instr AND NOT (push_bit RS 1)
      in old_send_pulse (s1\<lparr>B_PORTA := lower\<rparr>))"

definition old_set_4bit_interface :: "board \<Rightarrow> board" where
  "old_set_4bit_interface s =
     (let s1 = s\<lparr>B_PORTA := 0x20\<rparr> in old_send_pulse (s1\<lparr>B_PORTA := B_PORTA s1 AND NOT (push_bit RS 1)\<rparr>))"

definition old_send_data :: "u8 \<Rightarrow> board \<Rightarrow> board" where
  "old_send_data data s =
     (let upper = (data AND 0xF0) OR push_bit RS 1;
          s1 = old_send_pulse (s\<lparr>B_PORTA := upper\<rparr>);
          lower = push_bit 4 data OR push_bit RS 1
      in old_send_pulse (s1\<lparr>B_PORTA := lower\<rparr>))"

definition old_busy_wait :: "board \<Rightarrow> board" where
  "old_busy_wait s =
     (let s1 = s\<lparr>B_PORTA := 0\<rparr>;
          s2 = s1\<lparr>B_PORTA := B_PORTA s1 OR (push_bit D5 1 OR push_bit D4 1)\<rparr>
      in old_send_pulse (s2\<lparr>B_PORTA := B_PORTA s2 AND NOT (push_bit RS 1)\<rparr>))"

definition old_reset :: "board \<Rightarrow> board" where
  "old_reset s =
     (let s1 = old_busy_wait (delay_ms 20 s);
          s2 = old_busy_wait (delay_ms 5 s1);
          s3 = old_busy_wait (delay_ms 1 s2)
      in delay_ms 1 s3)"

definition old_init :: "board \<Rightarrow> board" where
  "old_init s =
     (let s1 = old_set_4bit_interface (old_reset s);
          s2 = old_send_instruction 0x28 s1;
          s3 = old_send_instruction 0x80 s2;
          s4 = old_send_instruction 0x01 s3;
          s5 = old_send_instruction 0x06 s4
      in old_send_instruction 0x0F s5)"

definition old_clear :: "board \<Rightarrow> board" where
  "old_clear s = delay_ms 3 (old_send_instruction 0x01 s)"

definition old_display_on :: "board \<Rightarrow> board" where
  "old_display_on s = delay_ms 300 (old_send_instruction 0x0F s)"

definition old_shift_right :: "board \<Rightarrow> board" where
  "old_shift_right s = old_send_instruction 0x14 s"

definition old_set_ddram :: "u8 \<Rightarrow> board \<Rightarrow> board" where
  "old_set_ddram c s = old_send_instruction (c OR push_bit D7 1) s"

definition old_return_cursor_home :: "board \<Rightarrow> board" where
  "old_return_cursor_home s = delay_ms 2 (old_send_instruction 0x02 s)"

fun old_send_from :: "nat \<Rightarrow> u8 \<Rightarrow> u8 list \<Rightarrow> board \<Rightarrow> board" where
  "old_send_from i row [] s = s"
| "old_send_from i row (c # cs) s =
     (if i mod 16 = 15 then
        (let row' = NOT row; s1 = old_send_data c s
         in old_send_from (i + 1) row' cs (old_set_ddram (if row' = 0 then ROW1ADR else ROW2ADR) s1))
      else old_send_from (i + 1) row cs (old_send_data c s))"

definition old_send_string :: "string \<Rightarrow> board \<Rightarrow> board" where
  "old_send_string str s = old_send_from 0 0 (chars str) s"

section \<open>The converter\<close>

abbreviation (input) ADIE :: nat where "ADIE \<equiv> 3"

definition old_adc_init :: "regs \<Rightarrow> regs" where
  "old_adc_init r =
     (let r1 = r\<lparr>ADMUX := sbit REFS0\<rparr>;
          r2 = r1\<lparr>ADCSRA := ADCSRA r1 OR sbit ADEN\<rparr>;
          r3 = r2\<lparr>ADCSRA := ADCSRA r2 OR ADC_PRESCALER_128\<rparr>
      in r3\<lparr>ADCSRA := ADCSRA r3 OR sbit ADIE\<rparr>)"

definition old_adc_read :: "(u8 \<Rightarrow> u16) \<Rightarrow> nat \<Rightarrow> u8 \<Rightarrow> regs \<Rightarrow> u16 \<times> regs" where
  "old_adc_read conv n channel r =
     (let r1 = r\<lparr>ADMUX := (ADMUX r AND 0xF8) OR channel\<rparr>;
          r2 = r1\<lparr>ADCSRA := ADCSRA r1 OR sbit ADSC\<rparr>;
          r3 = adc_wait n r2
      in (conv (ADMUX r3), r3))"

section \<open>The program\<close>

text \<open>\<open>itoa\<close> of the AVR's C library for bases other than ten, which take the value as unsigned.\<close>

function radix :: "int \<Rightarrow> int \<Rightarrow> string" where
  "radix b n =
     (if n < b \<or> b < 2 then [char_of (if n < 10 then 48 + n else 87 + n)]
      else radix b (n div b) @ [char_of (if n mod b < 10 then 48 + n mod b else 87 + n mod b)])"
  by pat_completeness auto

termination
proof (relation "measure (\<lambda>(b, n). nat n)")
  fix b n :: int
  assume "\<not> (n < b \<or> b < 2)"
  then have "n div b < n" by (intro int_div_less_self) auto
  with \<open>\<not> (n < b \<or> b < 2)\<close> show "((b, n div b), b, n) \<in> measure (\<lambda>(b, n). nat n)" by auto
qed simp

declare radix.simps [simp del]

definition itoa_buf :: "nat \<Rightarrow> u16 \<Rightarrow> int \<Rightarrow> string option" where
  "itoa_buf m v base = (let s = radix base (uint v) in if length s < m then Some s else None)"

definition OLD_RIGHT_EXP :: fp where
  "OLD_RIGHT_EXP = f32 (1018 / 1000)"

text \<open>\<open>main\<close> before its loop. \<open>None\<close> is a write behind the buffer.\<close>

definition demo_start :: "(fp \<Rightarrow> fp \<Rightarrow> fp) \<Rightarrow> board \<Rightarrow> board option" where
  "demo_start pow s =
     (let s1 = s\<lparr>hw := (hw s)\<lparr>DDRA := 0xFC\<rparr>\<rparr>;
          s2 = old_clear (delay_ms 5 (old_init s1));
          s3 = old_clear (delay_ms 500 (old_send_string ''Initializing m8'' s2));
          s4 = old_clear (delay_ms 750 (old_send_string ''0123456789abcdeffedcba9876543210'' s3));
          dist = mul32 OLD_RIGHT_EXP (pow (f32 10) (fneg OLD_RIGHT_EXP))
      in case dtostrf_buf 16 8 2 dist of None \<Rightarrow> None | Some buf \<Rightarrow>
         (let s5 = old_send_string buf (old_send_string ''R: '' (delay_ms 10 s4));
              s6 = old_send_string buf (old_send_string ''F: '' (old_set_ddram ROW2ADR s5));
              s7 = delay_ms 750 (old_send_string ''INIT ADC'' (old_clear s6))
          in Some (s7\<lparr>hw := old_adc_init (hw s7)\<rparr>)))"

text \<open>A round of the loop, until the reading is on the display, and whole.\<close>

definition demo_show :: "(u8 \<Rightarrow> u16) \<Rightarrow> nat \<Rightarrow> board \<Rightarrow> board option" where
  "demo_show conv n s =
     (let s1 = old_clear (delay_ms 1000 s);
          (adc_right, r) = old_adc_read conv n CHN_SENS_FRONT (hw s1);
          s2 = s1\<lparr>hw := r\<rparr>
      in case itoa_buf 16 adc_right 9 of None \<Rightarrow> None | Some buf \<Rightarrow>
         Some (old_send_string buf (old_send_string ''R: '' s2)))"

definition demo_round :: "(u8 \<Rightarrow> u16) \<Rightarrow> nat \<Rightarrow> board \<Rightarrow> board option" where
  "demo_round conv n s = map_option (\<lambda>s1. old_clear (delay_ms 500 s1)) (demo_show conv n s)"

text \<open>The program with a number of rounds.\<close>

fun demo_run :: "(fp \<Rightarrow> fp \<Rightarrow> fp) \<Rightarrow> (u8 \<Rightarrow> u16) \<Rightarrow> nat \<Rightarrow> nat \<Rightarrow> board \<Rightarrow> board option" where
  "demo_run pow conv n 0 s = demo_start pow s"
| "demo_run pow conv n (Suc k) s = Option.bind (demo_run pow conv n k s) (demo_round conv n)"

section \<open>Erasing the time\<close>

definition erase :: "board \<Rightarrow> port" where
  "erase s = \<lparr>PORTA = B_PORTA s, pulses = map fst (filter (\<lambda>(p, ms). bit p EN) (waveform s))\<rparr>"

definition quiet :: "board \<Rightarrow> bool" where
  "quiet s \<longleftrightarrow> \<not> bit (B_PORTA s) EN"

lemma erase_put [simp]: "erase (s\<lparr>B_PORTA := v\<rparr>) = (erase s)\<lparr>PORTA := v\<rparr>" "erase (s\<lparr>hw := r\<rparr>) = erase s"
  "PORTA (erase s) = B_PORTA s" "quiet (s\<lparr>hw := r\<rparr>) = quiet s"
  by (simp_all add: erase_def quiet_def)

lemma erase_delay: "quiet s \<Longrightarrow> erase (delay_ms n s) = erase s" "quiet (delay_ms n s) = quiet s"
  by (simp_all add: erase_def quiet_def delay_ms_def)

lemma erase_pulse: "erase (old_send_pulse s) = lcd_send_pulse (erase s)" "quiet (old_send_pulse s)"
proof -
  have "bit (p OR push_bit EN 1) EN" "\<not> bit ((p OR push_bit EN 1) AND NOT (push_bit EN 1)) EN" for p :: u8
    by (simp_all add: port_defs bit_simps)
  then show "erase (old_send_pulse s) = lcd_send_pulse (erase s)" "quiet (old_send_pulse s)"
    by (simp_all add: old_send_pulse_def lcd_send_pulse_def erase_def quiet_def delay_ms_def Let_def)
qed

lemma erase_ops:
  "erase (old_send_instruction i s) = lcd_send_instruction i (erase s)" "quiet (old_send_instruction i s)"
  "erase (old_send_data c s) = lcd_send_data c (erase s)" "quiet (old_send_data c s)"
  "erase (old_set_4bit_interface s) = lcd_set_4bit_interface (erase s)" "quiet (old_set_4bit_interface s)"
  "erase (old_busy_wait s) = lcd_busy_wait (erase s)" "quiet (old_busy_wait s)"
  by (simp_all add: old_send_instruction_def lcd_send_instruction_def old_send_data_def lcd_send_data_def
      old_set_4bit_interface_def lcd_set_4bit_interface_def old_busy_wait_def lcd_busy_wait_def erase_pulse Let_def)

lemma erase_send_from:
  "quiet s \<Longrightarrow> erase (old_send_from i row cs s) = send_from i row cs (erase s) \<and> quiet (old_send_from i row cs s)"
  by (induction i row cs s rule: old_send_from.induct)
     (simp_all add: erase_ops old_set_ddram_def lcd_set_ddram_def Let_def)

lemma erase_driver:
  "erase (old_clear s) = lcd_clear (erase s)" "quiet (old_clear s)"
  "erase (old_set_ddram a s) = lcd_set_ddram a (erase s)" "quiet (old_set_ddram a s)"
  "quiet s \<Longrightarrow> erase (old_send_string str s) = lcd_send_string (chars str) (erase s)"
  "quiet s \<Longrightarrow> quiet (old_send_string str s)"
  "quiet s \<Longrightarrow> erase (old_init s) = lcd_init (erase s)" "quiet (old_init s)"
  by (simp_all add: old_clear_def lcd_clear_def erase_ops erase_delay old_set_ddram_def lcd_set_ddram_def erase_send_from
      old_send_string_def lcd_send_string_def old_init_def lcd_init_def old_reset_def lcd_reset_def Let_def)

section \<open>The pace of the pulses\<close>

text \<open>
  Every pulse is 2 ms long, and after it the line stays low for at least 2 ms. The display takes a
  half at the end of a pulse and needs up to 1.52 ms for an instruction.
\<close>

fun paced :: "(u8 \<times> nat) list \<Rightarrow> bool" where
  "paced [] = True"
| "paced ((p, ms) # w) =
     ((bit p EN \<longrightarrow> 2 \<le> ms \<and> w \<noteq> [] \<and> \<not> bit (fst (hd w)) EN \<and> 2 \<le> snd (hd w)) \<and> paced w)"

lemma paced_append: "paced u \<Longrightarrow> paced v \<Longrightarrow> paced (u @ v)"
  by (induction u rule: paced.induct) auto

definition extends :: "board \<Rightarrow> board \<Rightarrow> bool" where
  "extends s s' \<longleftrightarrow> (\<exists>w. waveform s' = waveform s @ w \<and> paced w)"

lemma extends_refl [simp]: "extends s s" "extends s (s\<lparr>hw := r\<rparr>)"
  by (simp_all add: extends_def)

lemma extends_trans: "extends s s1 \<Longrightarrow> extends s1 s2 \<Longrightarrow> extends s s2"
  unfolding extends_def by (metis append_assoc paced_append)

lemma extends_put [simp]: "extends (s\<lparr>B_PORTA := v\<rparr>) s' = extends s s'" "extends (s\<lparr>hw := r\<rparr>) s' = extends s s'"
  "extends s (s'\<lparr>hw := r\<rparr>) = extends s s'"
  by (simp_all add: extends_def)

lemma extends_delay: "quiet s \<Longrightarrow> extends s (delay_ms n s)"
  by (simp add: extends_def quiet_def delay_ms_def)

lemma extends_pulse: "extends s (old_send_pulse s)"
proof -
  have "bit (p OR push_bit EN 1) EN" "\<not> bit ((p OR push_bit EN 1) AND NOT (push_bit EN 1)) EN" for p :: u8
    by (simp_all add: port_defs bit_simps)
  then show ?thesis by (simp add: extends_def old_send_pulse_def delay_ms_def Let_def)
qed

lemma extends_onto: "extends s t \<Longrightarrow> waveform t' = waveform t \<Longrightarrow> extends s (old_send_pulse t')"
  using extends_pulse [of t'] extends_trans [of s t "old_send_pulse t'"] by (simp add: extends_def)

text \<open>Whatever came before, each operation extends it.\<close>

lemma extends_ops:
  assumes "extends s t"
  shows "extends s (old_send_instruction i t)" "extends s (old_send_data c t)" "extends s (old_set_4bit_interface t)"
    "extends s (old_busy_wait t)" "extends s (old_set_ddram a t)" "quiet t \<Longrightarrow> extends s (delay_ms n t)"
proof -
  have two: "extends s (old_send_pulse ((old_send_pulse (t\<lparr>B_PORTA := u\<rparr>))\<lparr>B_PORTA := v\<rparr>))" for u v
    by (rule extends_onto [OF extends_onto [OF assms]]) simp_all
  show "extends s (old_send_instruction i t)" for i unfolding old_send_instruction_def Let_def by (rule two)
  then show "extends s (old_set_ddram a t)" unfolding old_set_ddram_def .
  show "extends s (old_send_data c t)" unfolding old_send_data_def Let_def by (rule two)
  show "extends s (old_set_4bit_interface t)" "extends s (old_busy_wait t)"
    unfolding old_set_4bit_interface_def old_busy_wait_def Let_def by (rule extends_onto [OF assms], simp)+
  show "extends s (delay_ms n t)" if "quiet t" by (rule extends_trans [OF assms extends_delay [OF that]])
qed

lemma extends_send_from: "extends s t \<Longrightarrow> extends s (old_send_from i row cs t)"
  by (induction i row cs t rule: old_send_from.induct) (simp_all add: extends_ops Let_def)

lemma extends_driver:
  assumes "extends s t"
  shows "extends s (old_clear t)" "extends s (old_send_string str t)" "quiet t \<Longrightarrow> extends s (old_init t)"
  using assms
  by (simp_all add: old_clear_def old_send_string_def old_init_def old_reset_def Let_def extends_ops extends_send_from erase_ops
      erase_delay)

section \<open>What is displayed\<close>

lemma even_send_from: "even (length (pulses s)) \<Longrightarrow> even (length (pulses (send_from i row cs s)))"
  by (induction i row cs s rule: send_from.induct) (simp_all add: sent_bytes displayed_sent Let_def)

lemma even_driver: 
  "even (length (pulses s)) \<Longrightarrow> even (length (pulses (lcd_send_string cs s)))"
  "even (length (pulses s)) \<Longrightarrow> even (length (pulses (lcd_init s)))"
proof -
  show "even (length (pulses s)) \<Longrightarrow> even (length (pulses (lcd_send_string cs s)))"
    by (simp add: lcd_send_string_def even_send_from)
  assume "even (length (pulses s))"
  then show "even (length (pulses (lcd_init s)))"
    by (simp add: lcd_init_def lcd_reset_def lcd_busy_wait_def lcd_set_4bit_interface_def lcd_send_instruction_def
      lcd_send_pulse_def Let_def)
qed

text \<open>The older driver as a display for texts.\<close>

interpretation old: text_display "\<lambda>d s. displayed d (erase s)" "\<lambda>s. quiet s \<and> even (length (pulses (erase s)))"
  old_clear old_set_ddram old_send_string
  by unfold_locales (simp_all add: erase_driver displayed_clear displayed_sent send_short)

section \<open>Numbers in a base\<close>

definition digit_value :: "char \<Rightarrow> int" where
  "digit_value c = (let k = of_char c in if k < 58 then k - 48 else k - 87)"

definition number :: "int \<Rightarrow> string \<Rightarrow> int" where
  "number b s = foldl (\<lambda>v c. b * v + digit_value c) 0 s"

lemma digit_value_char:
  assumes "0 \<le> n" "n < 36"
  shows "digit_value (char_of (if n < 10 then 48 + n else 87 + n)) = n"
  using assms by (simp add: digit_value_def Let_def of_char_of)

lemma radix_number:
  assumes "2 \<le> b" "b \<le> 36" "0 \<le> n"
  shows "number b (radix b n) = n"
  using assms
proof (induction b n rule: radix.induct)
  case (1 b n)
  show ?case
  proof (cases "n < b")
    case True
    with 1 show ?thesis by (subst radix.simps) (simp add: number_def digit_value_char del: char_of_def)
  next
    case False
    with 1 have "number b (radix b (n div b)) = n div b" by (simp add: pos_imp_zdiv_nonneg_iff)
    moreover have "digit_value (char_of (if n mod b < 10 then 48 + n mod b else 87 + n mod b)) = n mod b"
      using 1 by (intro digit_value_char) (auto intro: less_le_trans [OF pos_mod_bound])
    ultimately show ?thesis using 1 False by (subst radix.simps) (simp add: number_def)
  qed
qed

lemma radix_length: "2 \<le> b \<Longrightarrow> 0 \<le> n \<Longrightarrow> n < b ^ Suc k \<Longrightarrow> length (radix b n) \<le> Suc k"
proof (induction k arbitrary: n)
  case 0
  then show ?case by (subst radix.simps) simp
next
  case (Suc k)
  show ?case
  proof (cases "n < b")
    case True
    then show ?thesis by (subst radix.simps) simp
  next
    case False
    have "n < b ^ Suc k * b" using Suc.prems by (simp add: mult.commute mult.left_commute)
    moreover have "n div b * b \<le> n" using Suc.prems(1) div_mult_mod_eq [of n b] pos_mod_sign [of b n] by linarith
    ultimately have "n div b * b < b ^ Suc k * b" by linarith
    then have "n div b < b ^ Suc k" using Suc.prems(1) by (simp only: mult_less_cancel_right)
    moreover have "0 \<le> n div b" using Suc.prems by (simp add: pos_imp_zdiv_nonneg_iff)
    ultimately have "length (radix b (n div b)) \<le> Suc k" using Suc.prems(1) by (intro Suc.IH)
    with False show ?thesis by (subst radix.simps) simp
  qed
qed

section \<open>The program\<close>

lemma adc_wait_ADMUX [simp]: "ADMUX (adc_wait n r) = ADMUX r"
  by (induction n r rule: adc_wait.induct) auto

lemma reading_fits: "itoa_buf 16 v 9 = Some (radix 9 (uint v))" "length (radix 9 (uint v)) \<le> 6"
proof -
  have "uint v < 2 ^ 16" using uint_lt2p [of v] by simp
  then have "uint v < 9 ^ Suc 5" by simp
  with radix_length [of 9 "uint v" 5] show l: "length (radix 9 (uint v)) \<le> 6" by simp
  then show "itoa_buf 16 v 9 = Some (radix 9 (uint v))" by (simp add: itoa_buf_def Let_def)
qed

text \<open>The state between the rounds.\<close>

definition between_rounds :: "board \<Rightarrow> board \<Rightarrow> bool" where
  "between_rounds s0 s \<longleftrightarrow> quiet s \<and> even (length (pulses (erase s))) \<and> ADMUX (hw s) = 0x40
     \<and> (\<exists>t. waveform t = waveform s0
          @ [(B_PORTA s0, 20), (0x34, 2), (0x30, 2), (0x30, 5), (0x34, 2), (0x30, 2), (0x30, 1), (0x34, 2), (0x30, 2)] \<and> extends t s)"

lemma show_run:
  assumes "between_rounds s0 s"
  shows "\<exists>s'. demo_show conv n s = Some s' \<and> between_rounds s0 s'
    \<and> shows_only (''R: '' @ radix 9 (uint (conv 0x40))) (displayed d (erase s'))"
proof -
  let ?buf = "radix 9 (uint (conv 0x40))"
  let ?s1 = "old_clear (delay_ms 1000 s)"
  let ?s2 = "?s1\<lparr>hw := snd (old_adc_read conv n CHN_SENS_FRONT (hw ?s1))\<rparr>"
  let ?s' = "old_send_string ?buf (old_send_string ''R: '' ?s2)"
  have q: "quiet s" "even (length (pulses (erase s)))" "ADMUX (hw s) = 0x40" using assms by (simp_all add: between_rounds_def)
  have hw: "hw (delay_ms m t) = hw t" "hw (old_send_pulse t) = hw t" "hw (old_clear t) = hw t" for m t
    by (simp_all add: delay_ms_def old_send_pulse_def old_clear_def old_send_instruction_def Let_def)
  have hws: "hw (old_send_string str t) = hw t" for str t
  proof -
    have "hw (old_send_from i row cs t) = hw t" for i row cs
      by (induction i row cs t rule: old_send_from.induct)
         (simp_all add: old_send_data_def old_set_ddram_def old_send_instruction_def hw Let_def)
    then show ?thesis by (simp add: old_send_string_def)
  qed
  have "fst (old_adc_read conv n CHN_SENS_FRONT (hw ?s1)) = conv 0x40"
    and mux: "ADMUX (hw ?s2) = 0x40"
    using q(3) by (simp_all add: old_adc_read_def CHN_SENS_FRONT_def hw Let_def)
  then have s: "demo_show conv n s = Some ?s'"
    by (simp add: demo_show_def Let_def split_beta reading_fits)
  have e: "erase ?s' = lcd_send_string (chars ?buf) (lcd_send_string (chars ''R: '') (lcd_clear (erase s)))"
    using q(1) by (simp add: erase_driver erase_delay)
  note c = displayed_clear [OF q(2)]
  have "shows_only (''R: '' @ ?buf) (displayed d (erase ?s'))"
    using old.fresh_texts [of "delay_ms 1000 s" "''R: ''" ?buf d] q(1,2) reading_fits(2) [of "conv 0x40"]
    by (simp add: e erase_driver erase_delay)
  moreover have "between_rounds s0 ?s'"
    using assms c mux unfolding between_rounds_def e
    by (auto simp: hws erase_driver even_driver extends_driver extends_ops erase_delay quiet_def [symmetric])
  ultimately show ?thesis using s by blast
qed

lemma start_run:
  assumes "quiet s0" "even (length (pulses (erase s0)))" "between (Fin 0) (pow (f32 10) (fneg OLD_RIGHT_EXP)) (Fin 1)"
  shows "\<exists>s. demo_start pow s0 = Some s \<and> between_rounds s0 s \<and> shows_only ''INIT ADC'' (displayed d (erase s))"
proof -
  let ?x = "mul32 OLD_RIGHT_EXP (pow (f32 10) (fneg OLD_RIGHT_EXP))"
  have m: "is_fin OLD_RIGHT_EXP" "0 \<le> fval OLD_RIGHT_EXP" "mul32 OLD_RIGHT_EXP (Fin 0) = Fin 0"
      "mul32 OLD_RIGHT_EXP (Fin 1) = OLD_RIGHT_EXP" "fval OLD_RIGHT_EXP \<le> 2"
    by code_simp+
  have "between (Fin 0) ?x (Fin 2)"
    using between_fmono [OF assms(3) fmono_mul_left [OF m(1,2), of 24 127]] m by (auto simp: between_def)
  then have "length (dtostrf 8 2 ?x) \<le> 4 + 4" by (rule dtostrf_le [of _ _ 200]) simp_all
  then obtain buf where b: "dtostrf_buf 16 8 2 ?x = Some buf" by (simp add: dtostrf_buf_def Let_def)
  let ?s1 = "s0\<lparr>hw := (hw s0)\<lparr>DDRA := 0xFC\<rparr>\<rparr>"
  let ?s2 = "old_clear (delay_ms 5 (old_init ?s1))"
  let ?s3 = "old_clear (delay_ms 500 (old_send_string ''Initializing m8'' ?s2))"
  let ?s4 = "old_clear (delay_ms 750 (old_send_string ''0123456789abcdeffedcba9876543210'' ?s3))"
  let ?s5 = "old_send_string buf (old_send_string ''R: '' (delay_ms 10 ?s4))"
  let ?s6 = "old_send_string buf (old_send_string ''F: '' (old_set_ddram ROW2ADR ?s5))"
  let ?s7 = "delay_ms 750 (old_send_string ''INIT ADC'' (old_clear ?s6))"
  let ?s = "?s7\<lparr>hw := old_adc_init (hw ?s7)\<rparr>"
  have s: "demo_start pow s0 = Some ?s" by (simp add: demo_start_def b Let_def)
  let ?w = "[(B_PORTA s0, 20), (0x34, 2), (0x30, 2), (0x30, 5), (0x34, 2), (0x30, 2), (0x30, 1), (0x34, 2), (0x30, 2)]"
  obtain t where t: "waveform t = waveform s0 @ ?w" "extends t (old_init ?s1)"
  proof
    let ?r = "old_busy_wait (delay_ms 1 (old_busy_wait (delay_ms 5 (old_busy_wait (delay_ms 20 ?s1)))))"
    show "waveform ?r = waveform s0 @ ?w"
      by (simp add: old_busy_wait_def old_send_pulse_def delay_ms_def Let_def port_defs)
    have "quiet ?r" by (rule erase_ops)
    then show "extends ?r (old_init ?s1)" by (simp add: old_init_def old_reset_def Let_def extends_ops)
  qed
  have q: "quiet ?s1" using assms(1) by simp
  have x: "extends t ?s2" "extends t ?s3" "extends t ?s4" "extends t ?s5" "extends t ?s6" "extends t ?s"
    using t(2) by (simp_all add: extends_driver extends_ops erase_driver erase_delay)
  have e6: "even (length (pulses (erase ?s6)))" "quiet ?s6"
    using q assms(2) by (simp_all add: erase_driver erase_delay even_driver displayed_clear displayed_sent)
  have "erase ?s = lcd_send_string (chars ''INIT ADC'') (lcd_clear (erase ?s6))"
    by (simp add: erase_driver erase_delay)
  moreover have "even (length (pulses (erase ?s)))" "quiet ?s"
    using e6 by (simp_all add: erase_driver erase_delay even_driver displayed_clear)
  moreover have "ADMUX (hw ?s) = 0x40" by (simp add: old_adc_init_def Let_def)
  moreover have "displayed d (lcd_send_string (chars ''INIT ADC'') (lcd_clear (erase ?s6)))
      = typed (chars ''INIT ADC'') \<lparr>ac = 0, ddram = (\<lambda>a. None)\<rparr>"
    using displayed_clear [OF e6(1)] by (simp add: send_short)
  ultimately show ?thesis
    using s x(6) t(1) typed_only [of "''INIT ADC''"] unfolding between_rounds_def by (intro exI [of _ ?s]) auto
qed

lemma run_between:
  assumes "quiet s0" "even (length (pulses (erase s0)))" "between (Fin 0) (pow (f32 10) (fneg OLD_RIGHT_EXP)) (Fin 1)"
  shows "\<exists>s. demo_run pow conv n k s0 = Some s \<and> between_rounds s0 s"
proof (induction k)
  case 0
  then show ?case using start_run [where pow = pow, OF assms] by fastforce
next
  case (Suc k)
  then obtain s where s: "demo_run pow conv n k s0 = Some s" "between_rounds s0 s" by blast
  from show_run [OF s(2), of conv n] obtain s1 where s1: "demo_show conv n s = Some s1" "between_rounds s0 s1" by blast
  have "hw (old_clear (delay_ms 500 s1)) = hw s1"
    by (simp add: delay_ms_def old_send_pulse_def old_clear_def old_send_instruction_def Let_def)
  then have "between_rounds s0 (old_clear (delay_ms 500 s1))"
    using s1(2) by (auto simp: between_rounds_def erase_driver erase_delay displayed_clear extends_driver extends_ops)
  with s s1 show ?case by (simp add: demo_round_def)
qed

section \<open>Properties\<close>

text \<open>C39. The older copy of the driver does what \<^verbatim>\<open>avr/lcd.c\<close> does: each operation is that of the
  other driver with the time it takes, whatever was sent before, once the enable line is low.\<close>

theorem old_driver_equivalent:
  assumes "quiet s"
  shows "erase (old_init s) = lcd_init (erase s) \<and> erase (old_clear s) = lcd_clear (erase s)
    \<and> erase (old_display_on s) = lcd_display_on (erase s) \<and> erase (old_shift_right s) = lcd_shift_right (erase s)
    \<and> erase (old_set_ddram a s) = lcd_set_ddram a (erase s)
    \<and> erase (old_return_cursor_home s) = lcd_return_cursor_home (erase s)
    \<and> erase (old_send_string str s) = lcd_send_string (chars str) (erase s)"
  using assms
  by (simp add: erase_driver old_display_on_def lcd_display_on_def old_shift_right_def lcd_shift_right_def
      old_return_cursor_home_def lcd_return_cursor_home_def erase_ops erase_delay)

text \<open>In every round the display shows, and shows only, the reading of the front sensor, commented
  as the right one: in base nine, whose digits denote the value that was converted.\<close>

theorem demo_shows_reading:
  assumes "demo_run pow conv n k s0 = Some s" "quiet s0" "even (length (pulses (erase s0)))"
    and "between (Fin 0) (pow (f32 10) (fneg OLD_RIGHT_EXP)) (Fin 1)"
  shows "\<exists>s' t. demo_show conv n s = Some s' \<and> shows_only (''R: '' @ t) (displayed d (erase s'))
    \<and> number 9 t = uint (conv 0x40)"
proof -
  have "between_rounds s0 s" using run_between [where pow = pow, OF assms(2-4), of conv n k] assms(1) by auto
  from show_run [OF this, of conv n d] obtain s' where
    "demo_show conv n s = Some s'" "shows_only (''R: '' @ radix 9 (uint (conv 0x40))) (displayed d (erase s'))" by blast
  moreover have "number 9 (radix 9 (uint (conv 0x40))) = uint (conv 0x40)" by (rule radix_number) simp_all
  ultimately show ?thesis by blast
qed

text \<open>The program keeps the times the display asks for, for any number of rounds: 20 ms after the
  start, 7 ms after the first and 3 ms after the second of the initial pulses, and from then on
  2 ms in and after each pulse.\<close>

theorem demo_keeps_pace:
  assumes "quiet s0" "waveform s0 = []" "between (Fin 0) (pow (f32 10) (fneg OLD_RIGHT_EXP)) (Fin 1)"
  shows "\<exists>s w. demo_run pow conv n k s0 = Some s \<and> paced w \<and> waveform s =
    [(B_PORTA s0, 20), (0x34, 2), (0x30, 2), (0x30, 5), (0x34, 2), (0x30, 2), (0x30, 1), (0x34, 2), (0x30, 2)] @ w"
proof -
  have "even (length (pulses (erase s0)))" by (simp add: erase_def assms(2))
  from run_between [where pow = pow, OF assms(1) this assms(3), of conv n k] assms(2) show ?thesis
    by (auto simp: between_rounds_def extends_def)
qed

section \<open>Witnesses\<close>

definition board_zero :: board where
  "board_zero = \<lparr>B_PORTA = 0, hw = regs_zero, waveform = []\<rparr>"

lemma board_zero_start: "quiet board_zero" "even (length (pulses (erase board_zero)))" "waveform board_zero = []"
  "between (Fin 0) (half_pow (f32 10) (fneg OLD_RIGHT_EXP)) (Fin 1)"
proof -
  have "f32 10 \<noteq> Fin 0" by code_simp
  then show "between (Fin 0) (half_pow (f32 10) (fneg OLD_RIGHT_EXP)) (Fin 1)" by (simp add: half_pow_def between_def)
qed (simp_all add: board_zero_def quiet_def erase_def)

theorem old_driver_equivalent_witness:
  "erase (old_send_string ''ok'' board_zero) = lcd_send_string (chars ''ok'') (erase board_zero)"
  using old_driver_equivalent [OF board_zero_start(1)] by blast

theorem demo_shows_reading_witness:
  "\<exists>s s' t. demo_run half_pow (\<lambda>m. 400) 3 2 board_zero = Some s \<and> demo_show (\<lambda>m. 400) 3 s = Some s'
    \<and> shows_only (''R: '' @ t) (displayed \<lparr>ac = 0, ddram = (\<lambda>a. None)\<rparr> (erase s')) \<and> number 9 t = 400"
proof -
  obtain s where s: "demo_run half_pow (\<lambda>m. 400) 3 2 board_zero = Some s"
    using run_between [where pow = half_pow, OF board_zero_start(1,2,4), of "\<lambda>m. 400" 3 2] by blast
  from demo_shows_reading [OF s board_zero_start(1,2,4), of "\<lparr>ac = 0, ddram = (\<lambda>a. None)\<rparr>"] s show ?thesis by simp
qed

theorem demo_keeps_pace_witness:
  "\<exists>s w. demo_run half_pow (\<lambda>m. 400) 3 2 board_zero = Some s \<and> paced w \<and> waveform s =
    [(0, 20), (0x34, 2), (0x30, 2), (0x30, 5), (0x34, 2), (0x30, 2), (0x30, 1), (0x34, 2), (0x30, 2)] @ w"
  using demo_keeps_pace [where pow = half_pow, OF board_zero_start(1,3,4), of "\<lambda>m. 400" 3 2] by (simp add: board_zero_def del: demo_run.simps)

end
