(* ===== verification/Packet_Loss.thy ===== *)
theory Packet_Loss
  imports Module Cstdlib Avr_Setup
begin

text \<open>
  The measurement of packet loss, \<^verbatim>\<open>src/dbg/packet_loss\<close>: a master that sends five packets and
  counts those that do not come back (\<^verbatim>\<open>comm.c\<close>), and two slaves that echo every byte with the next
  one, polling (\<^verbatim>\<open>avr.c\<close>) or in an interrupt (\<^verbatim>\<open>avr_int.c\<close>).
\<close>

section \<open>The slaves\<close>

definition tranceive :: "u8 \<Rightarrow> u8 proc" where
  "tranceive data = Xfer data (\<lambda>r. Ret r)"

text \<open>The same three transfers in both programs, after the command; the result is the last byte received.\<close>

definition echo :: "u8 \<Rightarrow> u8 proc" where
  "echo command = bind (tranceive command) (\<lambda>data0. bind (tranceive data0) (\<lambda>data1. tranceive data1))"

definition poll_body :: "unit \<Rightarrow> unit \<Rightarrow> u8 proc" where
  "poll_body e s =
     (let start = 0x9a
      in bind (tranceive start) (\<lambda>command. if command \<noteq> 0x01 then Ret command else echo command))"

text \<open>The interrupt: \<open>SPDR\<close> still holds the byte received last when the next one is exchanged.\<close>

definition int_body :: "unit \<Rightarrow> u8 \<Rightarrow> u8 proc" where
  "int_body e spdr = Xfer spdr (\<lambda>command. if command = 0x01 then echo command else Ret command)"

definition poll_fin :: "u8 \<Rightarrow> unit \<Rightarrow> unit" where
  "poll_fin r s = ()"

definition int_fin :: "u8 \<Rightarrow> u8 \<Rightarrow> u8" where
  "int_fin r s = r"

text \<open>Both programs before their loops.\<close>

definition poll_boot :: "regs \<Rightarrow> regs" where
  "poll_boot r =
     (let r1 = r\<lparr>DDRB := DDRB r OR sbit 6\<rparr>;
          r2 = r1\<lparr>SPCR := SPCR r1 OR (push_bit SPIE 0 OR sbit SPE)\<rparr>
      in r2\<lparr>SPDR := 0\<rparr>)"

definition int_boot :: "regs \<Rightarrow> regs" where
  "int_boot r =
     (let r1 = r\<lparr>DDRB := DDRB r OR sbit 6\<rparr>;
          r2 = r1\<lparr>SPCR := SPCR r1 OR (sbit SPIE OR sbit SPE)\<rparr>
      in r2\<lparr>SPDR := 0\<rparr>)"

section \<open>The master\<close>

definition hex_digit :: "int \<Rightarrow> char" where
  "hex_digit n = char_of (if n < 10 then 48 + n else 87 + n)"

definition hex02 :: "u8 \<Rightarrow> string" where
  "hex02 b = [hex_digit (uint b div 16), hex_digit (uint b mod 16)]"

text \<open>One line of the report, \<open>%02x | %02x %02x | %02x\<close>.\<close>

definition packet_line :: "u8 \<Rightarrow> u8 list \<Rightarrow> u8 \<Rightarrow> string" where
  "packet_line command data ack = hex02 command @ '' | '' @ hex02 (data ! 0) @ '' '' @ hex02 (data ! 1) @ '' | '' @ hex02 ack"

text \<open>A packet, exchanged in place: what the three variables hold afterwards.\<close>

definition packet :: "u8 \<Rightarrow> u8 list \<Rightarrow> u8 \<Rightarrow> (u8 \<times> u8 list \<times> u8) proc" where
  "packet command data ack =
     bind (master_tranceive (Some [command]) 1) (\<lambda>command'.
     bind (master_tranceive (Some data) 2) (\<lambda>data'.
     bind (master_tranceive (Some [ack]) 1) (\<lambda>ack'. Ret (command' ! 0, data', ack' ! 0))))"

definition lost :: "u8 list \<Rightarrow> u8 \<Rightarrow> bool" where
  "lost data ack \<longleftrightarrow> data ! 0 \<noteq> 0x01 \<or> data ! 1 \<noteq> 0x02 \<or> ack \<noteq> 0x3"

text \<open>The loop, with the counters and what has been printed.\<close>

fun measure_loss :: "nat \<Rightarrow> nat \<times> nat \<Rightarrow> string list \<Rightarrow> (nat \<times> nat \<times> string list) proc" where
  "measure_loss 0 (packets_sent, packets_lost) out = Ret (packets_sent, packets_lost, out)"
| "measure_loss (Suc n) (packets_sent, packets_lost) out =
     (let out1 = out @ [''-----------------------'', packet_line 0x01 [0x02, 0x03] 0x04]
      in bind (packet 0x01 [0x02, 0x03] 0x04) (\<lambda>(command, data, ack).
           if lost data ack
           then measure_loss n (packets_sent + 1, packets_lost + 1) (out1 @ [packet_line command data ack])
           else measure_loss n (packets_sent + 1, packets_lost) out1))"

definition report :: "nat \<times> nat \<times> string list \<Rightarrow> string list" where
  "report r =
     (case r of (packets_sent, packets_lost, out) \<Rightarrow>
        out @ [''packets lost: '' @ dec (int packets_lost),
               ''packetloss: '' @ print_fixed 1
                 (mul32 (div32 (f32 (of_nat packets_lost)) (f32 (of_nat packets_sent))) (f32 100)) @ ''%''])"

text \<open>The device file of the control module, opened and set up.\<close>

definition loss_open :: "int \<Rightarrow> int \<times> sys_call list" where
  "loss_open opened =
     (let fd = opened; freq = 1000000; mode = SPI_MODE_0; bpw = 8
      in (fd, [Sys_open ''/dev/spidev0.1'', Sys_ioctl fd (SPI_IOC_WR_MODE mode), Sys_ioctl fd (SPI_IOC_WR_BITS_PER_WORD bpw),
               Sys_ioctl fd (SPI_IOC_WR_MAX_SPEED_HZ freq)]))"

definition comm_main :: "string list proc" where
  "comm_main = bind (measure_loss 5 (0, 0) []) (\<lambda>r. Ret (report r))"

section \<open>Echoing slaves\<close>

text \<open>A slave in the middle of its three transfers.\<close>

definition mid :: "u8 proc option \<Rightarrow> bool" where
  "mid p \<longleftrightarrow> p = None \<or> (\<exists>x. p = Some (tranceive x) \<or> p = Some (bind (tranceive x) tranceive) \<or> p = Some (echo x))"

lemma packet_bytes:
  "packet c [d0, d1] a = Xfer c (\<lambda>r0. Xfer d0 (\<lambda>r1. Xfer d1 (\<lambda>r2. Xfer a (\<lambda>r3. Ret (r0, [r1, r2], r3)))))"
  by (simp add: packet_def master_tranceive_def numeral_2_eq_2)

lemma echo_bytes: "echo x = Xfer x (\<lambda>a. Xfer a (\<lambda>b. Xfer b Ret))"
  by (simp add: echo_def tranceive_def)

lemma small_bytes: "(0x02 :: u8) \<noteq> 0x01" "(0x03 :: u8) \<noteq> 0x01" "(0x04 :: u8) \<noteq> 0x01"
  by simp_all

text \<open>The contract both slaves meet, and what it gives the measurement.\<close>

locale echo_slave =
  fixes body :: "'e \<Rightarrow> 's \<Rightarrow> u8 proc" and fin :: "u8 \<Rightarrow> 's \<Rightarrow> 's"
  assumes echoes: "\<exists>b. body e s = Xfer b (\<lambda>command. if command = 0x01 then echo command else Ret command)"
begin

lemma packet_in_sync:
  "\<exists>b s'. serve body fin env (packet 0x01 [0x02, 0x03] 0x04) perfect t (None, s) = (Ret (b, [0x01, 0x02], 0x03), None, s')"
proof -
  obtain b where b: "body (env t) s = Xfer b (\<lambda>command. if command = 0x01 then echo command else Ret command)" using echoes by blast
  show ?thesis
    by (simp add: packet_bytes echo_bytes serve_start [of body env t, OF b] serve_on del: serve.simps(3))
qed

lemma packet_resync:
  assumes "mid p"
  shows "\<exists>r s'. serve body fin env (packet 0x01 [0x02, 0x03] 0x04) perfect t (p, s) = (Ret r, None, s')"
proof -
  let ?b = "\<lambda>u q. case body (env u) q of Xfer b g \<Rightarrow> b | _ \<Rightarrow> 0"
  have "body (env u) q = Xfer (?b u q) (\<lambda>command. if command = 0x01 then echo command else Ret command)" for u q
    using echoes [of "env u" q] by auto
  note start = serve_start [of body env, OF this]
  from assms consider "p = None" | x where "p = Some (tranceive x)" | x where "p = Some (bind (tranceive x) tranceive)"
    | x where "p = Some (echo x)" unfolding mid_def by blast
  then show ?thesis
  proof cases
    case 1
    then show ?thesis using packet_in_sync by blast
  next
    case 2
    then show ?thesis by (simp only: packet_bytes echo_bytes tranceive_def bind.simps)
          (simp add: start serve_on small_bytes del: serve.simps(3))
  next
    case 3
    then show ?thesis by (simp only: packet_bytes echo_bytes tranceive_def bind.simps)
          (simp add: start serve_on small_bytes del: serve.simps(3))
  next
    case 4
    then show ?thesis by (simp only: packet_bytes echo_bytes tranceive_def bind.simps)
          (simp add: start serve_on small_bytes del: serve.simps(3))
  qed
qed

lemma measure_in_sync:
  "\<exists>out' s'. serve body fin env (measure_loss n (i, j) out) perfect t (None, s) = (Ret (i + n, j, out'), None, s')"
proof (induction n arbitrary: i t s out)
  case (Suc n)
  from packet_in_sync [of env t s] obtain b s1 where
    p: "serve body fin env (packet 0x01 [0x02, 0x03] 0x04) perfect t (None, s) = (Ret (b, [0x01, 0x02], 0x03), None, s1)" by blast
  have ok: "\<not> lost [0x01, 0x02] 0x03" by (simp add: lost_def)
  from serve_bind [OF p, of "\<lambda>(command, data, ack). if lost data ack
           then measure_loss n (i + 1, j + 1) ((out @ [''-----------------------'', packet_line 0x01 [0x02, 0x03] 0x04]) @ [packet_line command data ack])
           else measure_loss n (i + 1, j) (out @ [''-----------------------'', packet_line 0x01 [0x02, 0x03] 0x04])"]
  obtain t' where "serve body fin env (measure_loss (Suc n) (i, j) out) perfect t (None, s)
      = serve body fin env (measure_loss n (i + 1, j) (out @ [''-----------------------'', packet_line 0x01 [0x02, 0x03] 0x04])) perfect t' (None, s1)"
    using ok by (auto simp: Let_def)
  with Suc.IH [of "i + 1" _ t' s1] show ?case by auto
qed simp

lemma measure_resync:
  assumes "mid p"
  shows "\<exists>k out' s'. k \<le> 1 \<and> serve body fin env (measure_loss n (i, j) out) perfect t (p, s) = (Ret (i + n, j + k, out'), (if n = 0 then p else None), s')"
proof (cases n)
  case (Suc m)
  from packet_resync [OF assms, of env t s] obtain r s1 where
    p: "serve body fin env (packet 0x01 [0x02, 0x03] 0x04) perfect t (p, s) = (Ret r, None, s1)" by blast
  obtain command data ack where r: "r = (command, data, ack)" by (cases r)
  let ?out = "out @ [''-----------------------'', packet_line 0x01 [0x02, 0x03] 0x04]"
  from serve_bind [OF p, of "\<lambda>(command, data, ack). if lost data ack
           then measure_loss m (i + 1, j + 1) (?out @ [packet_line command data ack]) else measure_loss m (i + 1, j) ?out"]
  obtain t' where step: "serve body fin env (measure_loss (Suc m) (i, j) out) perfect t (p, s)
      = serve body fin env (if lost data ack
           then measure_loss m (i + 1, j + 1) (?out @ [packet_line command data ack]) else measure_loss m (i + 1, j) ?out) perfect t' (None, s1)"
    by (auto simp: Let_def r)
  show ?thesis
  proof (cases "lost data ack")
    case True
    with measure_in_sync [of env m "i + 1" "j + 1" "?out @ [packet_line command data ack]" t' s1] step Suc show ?thesis
      by (intro exI [of _ 1]) auto
  next
    case False
    with measure_in_sync [of env m "i + 1" j ?out t' s1] step Suc show ?thesis
      by (intro exI [of _ 0]) auto
  qed
qed simp

end

sublocale echo_slave \<subseteq> loop: bus_module body fin "\<lambda>e. True" "\<lambda>s. True"
proof
  fix e s
  obtain b where b: "body e s = Xfer b (\<lambda>command. if command = 0x01 then echo command else Ret command)" using echoes by blast
  then show "\<exists>b g. body e s = Xfer b g" by blast
  show "leaves (\<lambda>r. True) (body e s)" by (simp add: b echo_bytes)
qed

interpretation poll: echo_slave poll_body poll_fin
  by unfold_locales (auto simp: poll_body_def tranceive_def Let_def fun_eq_iff)

interpretation isr: echo_slave int_body int_fin
  by unfold_locales (auto simp: int_body_def fun_eq_iff)

lemma leaves_measure:
  "leaves (\<lambda>(i', j', out'). i' = i + n \<and> j \<le> j' \<and> j' \<le> j + n) (measure_loss n (i, j) out)"
proof (induction n arbitrary: i j out)
  case (Suc n)
  have "leaves (\<lambda>r. True) (packet 0x01 [0x02, 0x03] 0x04)" by (simp add: packet_bytes)
  then show ?case
    unfolding measure_loss.simps Let_def
  proof (rule leaves_bind)
    fix r :: "u8 \<times> u8 list \<times> u8"
    obtain command data ack where r: "r = (command, data, ack)" by (cases r)
    let ?out = "out @ [''-----------------------'', packet_line 0x01 [0x02, 0x03] 0x04]"
    have "leaves (\<lambda>(i', j', out'). i' = i + Suc n \<and> j \<le> j' \<and> j' \<le> j + Suc n)
        (measure_loss n (i + 1, j + 1) (?out @ [packet_line command data ack]))"
      by (rule leaves_mono [OF Suc.IH [of "i + 1" "j + 1"]]) auto
    moreover have "leaves (\<lambda>(i', j', out'). i' = i + Suc n \<and> j \<le> j' \<and> j' \<le> j + Suc n) (measure_loss n (i + 1, j) ?out)"
      by (rule leaves_mono [OF Suc.IH [of "i + 1" j]]) auto
    ultimately show "leaves (\<lambda>(i', j', out'). i' = i + Suc n \<and> j \<le> j' \<and> j' \<le> j + Suc n)
        (case r of (command, data, ack) \<Rightarrow>
           if lost data ack then measure_loss n (i + 1, j + 1) (?out @ [packet_line command data ack])
           else measure_loss n (i + 1, j) ?out)"
      unfolding r prod.case by (simp del: measure_loss.simps)
  qed
qed simp

lemma nothing_lost: "report (5, 0, out) = out @ [''packets lost: 0'', ''packetloss: 0.0%'']"
proof -
  have "dec (int 0) = ''0''" "print_fixed 1 (mul32 (div32 (f32 (of_nat 0)) (f32 (of_nat 5))) (f32 100)) = ''0.0''"
    by code_simp+
  then show ?thesis by (simp add: report_def)
qed

text \<open>Master and slaves are set up as the taxi's are.\<close>

lemma loss_open_create: "loss_open opened = spi_create (SPI_DEVICE @ ''1'') F_SPI opened"
  by (simp add: loss_open_def spi_create_def SPI_DEVICE_def F_SPI_def Let_def)

lemma echo_slaves_configured:
  "enabled (poll_boot regs_zero) = [] \<and> slave_mode (poll_boot regs_zero) = Some SPI_MODE_0
    \<and> enabled (int_boot regs_zero) = [Irq_SPI_STC] \<and> slave_mode (int_boot regs_zero) = Some SPI_MODE_0"
  by (simp add: poll_boot_def int_boot_def regs_zero_def enabled_def slave_mode_def SPI_MODE_0_def Let_def)

section \<open>Properties\<close>

text \<open>On an undisturbed wire, with the slave at the start of its loop, no packet is lost and the
  report says so, for both slaves.\<close>

theorem no_packet_lost:
  "(\<exists>out. serve poll_body poll_fin env comm_main perfect t (None, ())
      = (Ret (out @ [''packets lost: 0'', ''packetloss: 0.0%'']), None, ()))
    \<and> (\<exists>out s'. serve int_body int_fin env comm_main perfect t (None, s)
      = (Ret (out @ [''packets lost: 0'', ''packetloss: 0.0%'']), None, s'))"
proof -
  from poll.measure_in_sync [of env 5 0 0 "[]" t "()"] obtain out1 where
    "serve poll_body poll_fin env (measure_loss 5 (0, 0) []) perfect t (None, ()) = (Ret (5, 0, out1), None, ())" by auto
  from serve_bind [OF this, of "\<lambda>r. Ret (report r)"]
  have 1: "serve poll_body poll_fin env comm_main perfect t (None, ()) = (Ret (report (5, 0, out1)), None, ())"
    by (auto simp: comm_main_def simp del: measure_loss.simps)
  from isr.measure_in_sync [of env 5 0 0 "[]" t s] obtain out2 s2 where
    "serve int_body int_fin env (measure_loss 5 (0, 0) []) perfect t (None, s) = (Ret (5, 0, out2), None, s2)" by auto
  from serve_bind [OF this, of "\<lambda>r. Ret (report r)"]
  have 2: "serve int_body int_fin env comm_main perfect t (None, s) = (Ret (report (5, 0, out2)), None, s2)"
    by (auto simp: comm_main_def simp del: measure_loss.simps)
  show ?thesis using 1 2 unfolding nothing_lost by blast
qed

text \<open>C36. Both slaves find back to the start of a packet by themselves: wherever they were when the
  measurement starts, at most one packet is lost.\<close>

theorem resynchronised_by_packet:
  assumes "mid p"
  shows "(\<exists>k out s'. serve poll_body poll_fin env (measure_loss 5 (0, 0) []) perfect t (p, ()) = (Ret (5, k, out), None, s') \<and> k \<le> 1)
    \<and> (\<exists>k out s'. serve int_body int_fin env (measure_loss 5 (0, 0) []) perfect t (p, s) = (Ret (5, k, out), None, s') \<and> k \<le> 1)"
  using poll.measure_resync [OF assms, of env 5 0 0 "[]" t "()"] isr.measure_resync [OF assms, of env 5 0 0 "[]" t s]
  by (auto simp del: measure_loss.simps)

text \<open>Whatever the wire does, the measurement ends with five packets sent and at most as many lost.\<close>

theorem measurement_ends:
  assumes "module_ok int_fin (\<lambda>s. True) c"
  shows "\<exists>k out c'. serve int_body int_fin env (measure_loss 5 (0, 0) []) w t c = (Ret (5, k, out), c') \<and> k \<le> 5"
  using isr.loop.serve_ok [OF leaves_measure [of 0 5 0 "[]"] assms, of env w t] by (auto simp del: measure_loss.simps)

theorem resynchronised_by_packet_witness:
  "\<exists>k out s'. serve int_body int_fin (\<lambda>t. ()) (measure_loss 5 (0, 0) []) perfect 0 (Some (tranceive 7), 9) = (Ret (5, k, out), None, s') \<and> k \<le> 1"
proof -
  have "mid (Some (tranceive 7))" by (auto simp: mid_def)
  from resynchronised_by_packet [OF this] show ?thesis by blast
qed

theorem measurement_ends_witness:
  "\<exists>k out c'. serve int_body int_fin (\<lambda>t. ()) (measure_loss 5 (0, 0) []) (\<lambda>t. (\<lambda>b. b XOR 1, id)) 0 (None, 0) = (Ret (5, k, out), c') \<and> k \<le> 5"
  by (rule measurement_ends) (simp add: module_ok_def)

end
