(* ===== verification/Dev_Programs.thy ===== *)
theory Dev_Programs
  imports Protocol
begin

text \<open>
  Programs around the modules: the test of the protocol, \<^verbatim>\<open>src/tests/proto.c\<close>, and the loop that
  simulates the control module's processor, \<^verbatim>\<open>src/dbg/sim/ctrl.c\<close>, whose simulator is an argument.
\<close>

section \<open>The test of the protocol\<close>

definition CTRL_CMDS :: "u8 list" where
  "CTRL_CMDS = [BB_INVALID, BBC_RST, BBC_SYN, BBC_ROT_KD, BBC_ROT_KP, BBC_ROT_VAL, BBC_ROT_ERR,
     BBC_VEL_KD, BBC_VEL_KP, BBC_VEL_VAL, BBC_VEL_ERR]"

definition SENS_CMDS :: "u8 list" where
  "SENS_CMDS = [BB_INVALID, BBS_RST, BBS_SYN, BBS_GET]"

text \<open>
  The values of the assertions, in order. The bytes of the variables are arguments: \<open>data1\<close> of a
  \<open>double\<close> and its copy, \<open>data2\<close> and \<open>cmd2\<close> uninitialised, \<open>data3\<close> of a pointer. The comparisons of
  the two equal strings are left out.
\<close>

definition proto_test :: "u8 list \<Rightarrow> u8 list \<Rightarrow> u8 \<Rightarrow> u8 list \<Rightarrow> bool option list" where
  "proto_test data1 data2 cmd2 data3 =
     (let cs1 = cs_create BBC_ROT_VAL data1 8;
          cs2 = cs_create cmd2 data2 100;
          cs3 = cs_create 0x33 data3 8
      in [Some (0 < length CTRL_CMDS), Some (0 < length SENS_CMDS)]
         @ map (\<lambda>command. Some (cmd (BCCS ! unat command) = command)) CTRL_CMDS
         @ map (\<lambda>command. Some (cmd (BCSS ! unat command) = command)) SENS_CMDS
         @ [Option.bind cs1 (\<lambda>cs. cs_check cs data1 8), Option.bind cs1 (\<lambda>cs. cs_check cs data1 8),
            map_option (\<lambda>cs. cs_cmd cs = BBC_ROT_VAL) cs1,
            Option.bind cs2 (\<lambda>cs. cs_check cs data2 100), map_option (\<lambda>cs. cs_cmd cs = cmd2) cs2,
            Option.bind cs3 (\<lambda>cs. cs_check cs data3 8)])"

section \<open>The simulation\<close>

text \<open>The states of the processor the loop tells apart, with those of the simulator it does not.\<close>

datatype cpu_state = cpu_Running | cpu_Done | cpu_Crashed | cpu_Other nat

text \<open>The signals recorded: the port whose pins are taken, the number of bits, the name.\<close>

definition vcd_signals :: "(char \<times> nat \<times> string) list" where
  "vcd_signals =
     [(CHR ''A'', 8, ''DDRD''), (CHR ''A'', 8, ''OCR1A''), (CHR ''A'', 8, ''OCR1B''), (CHR ''A'', 8, ''PORTD''),
      (CHR ''A'', 8, ''TCNT1H''), (CHR ''A'', 8, ''TCNT1L''), (CHR ''A'', 8, ''ICR1H''), (CHR ''A'', 8, ''ICR1L'')]"

text \<open>The loop, with the number of calls that are left; the calls made are returned.\<close>

fun sim_loop :: "('a \<Rightarrow> cpu_state \<times> 'a) \<Rightarrow> nat \<Rightarrow> cpu_state \<Rightarrow> 'a \<Rightarrow> nat \<times> cpu_state \<times> 'a" where
  "sim_loop avr_run 0 state avr = (0, state, avr)"
| "sim_loop avr_run (Suc left) state avr =
     (if state \<noteq> cpu_Done \<and> state \<noteq> cpu_Crashed
      then let (state', avr') = avr_run avr; (n, r) = sim_loop avr_run left state' avr' in (n + 1, r)
      else (0, state, avr))"

text \<open>\<open>main\<close>: the exit code, and the calls of \<open>avr_run\<close> with the state after them. \<open>mcu\<close> is the null
  pointer for a processor the simulator does not know.\<close>

definition sim_main :: "'a option \<Rightarrow> ('a \<Rightarrow> cpu_state \<times> 'a) \<Rightarrow> int \<times> (nat \<times> cpu_state \<times> 'a) option" where
  "sim_main mcu avr_run =
     (case mcu of
        None \<Rightarrow> (1, None)
      | Some avr \<Rightarrow> (let time = 2 in (0, Some (sim_loop avr_run (time * 16000000) cpu_Running avr))))"

section \<open>Facts\<close>

text \<open>The processor after a number of calls.\<close>

fun sim_after :: "('a \<Rightarrow> cpu_state \<times> 'a) \<Rightarrow> nat \<Rightarrow> cpu_state \<times> 'a \<Rightarrow> cpu_state \<times> 'a" where
  "sim_after run 0 s = s"
| "sim_after run (Suc n) s = sim_after run n (run (snd s))"

lemma sim_loop_after:
  "sim_loop run k st a = (n, r) \<Longrightarrow> n \<le> k \<and> r = sim_after run n (st, a)
     \<and> (n = k \<or> fst r \<in> {cpu_Done, cpu_Crashed}) \<and> (\<forall>m < n. fst (sim_after run m (st, a)) \<notin> {cpu_Done, cpu_Crashed})"
proof (induction k arbitrary: st a n r)
  case (Suc k)
  show ?case
  proof (cases "st \<noteq> cpu_Done \<and> st \<noteq> cpu_Crashed")
    case True
    obtain st' a' where r: "run a = (st', a')" by fastforce
    obtain n' r' where l: "sim_loop run k st' a' = (n', r')" by (rule prod.exhaust)
    have n: "n = Suc n'" "r = r'" using Suc.prems True by (simp_all add: r l)
    note ih = Suc.IH [OF l]
    have "\<forall>m < n. fst (sim_after run m (st, a)) \<notin> {cpu_Done, cpu_Crashed}"
    proof (intro allI impI)
      fix m assume "m < n"
      with ih True n show "fst (sim_after run m (st, a)) \<notin> {cpu_Done, cpu_Crashed}" by (cases m) (simp_all add: r)
    qed
    with ih n show ?thesis by (auto simp: r)
  qed (use Suc.prems in auto)
qed auto

section \<open>Properties\<close>

text \<open>The test of the protocol passes if and only if the uninitialised command fits the four bits of the
  command byte; the contents of the uninitialised array do not matter.\<close>

theorem proto_test_result:
  assumes "length data1 = 8" "length data2 = 100" "length data3 = 8"
  shows "list_all (\<lambda>a. a = Some True) (proto_test data1 data2 cmd2 data3) \<longleftrightarrow> unat cmd2 < 16"
proof -
  have c: "cs_create c data n = Some (cs_pack c c)" "cs_check cs data n = Some (cs_sum cs = cs_cmd cs)"
    if "even n" "n \<le> length data" for c cs data n
    using calc_sum_even [OF that] by (simp_all add: cs_create_def cs_check_def cs_pack_def cs_cmd_def)
  have "cmd2 AND 0x0F = cmd2 \<longleftrightarrow> unat cmd2 < 16" using unat_AND_15 [of cmd2] nibble_id [of cmd2] by auto
  then show ?thesis
    using assms by (simp add: proto_test_def c Let_def) (simp add: CTRL_CMDS_def SENS_CMDS_def proto_simps)
qed

text \<open>The simulation ends: it makes at most 32 million calls, stops at the first one after which the
  processor is done or has crashed, and otherwise makes all of them.\<close>

theorem simulation_ends:
  assumes "sim_main (Some avr) run = (code, Some (n, r))"
  shows "code = 0 \<and> n \<le> 32000000 \<and> r = sim_after run n (cpu_Running, avr)
    \<and> (n = 32000000 \<or> fst r \<in> {cpu_Done, cpu_Crashed})
    \<and> (\<forall>m < n. fst (sim_after run m (cpu_Running, avr)) \<notin> {cpu_Done, cpu_Crashed})"
proof -
  have l: "sim_loop run 32000000 cpu_Running avr = (n, r)" "code = 0"
    using assms by (simp_all add: sim_main_def)
  from sim_loop_after [OF l(1)] l(2) show ?thesis by blast
qed

text \<open>Whatever their names say, all signals are the pins of port A, which the control module never uses.\<close>

theorem signals_port_a: "list_all (\<lambda>s. fst s = CHR ''A'') vcd_signals \<and> distinct (map (snd \<circ> snd) vcd_signals)"
  by (simp add: vcd_signals_def)

section \<open>Witnesses\<close>

theorem proto_test_result_witness: "list_all (\<lambda>a. a = Some True) (proto_test (replicate 8 7) (replicate 100 9) 3 (replicate 8 1))"
  using proto_test_result [of "replicate 8 7" "replicate 100 9" "replicate 8 1" 3] by simp

theorem simulation_ends_witness:
  "sim_main (Some (0 :: nat)) (\<lambda>t. (if t < 2 then cpu_Running else cpu_Crashed, t + 1)) = (0, Some (3, cpu_Crashed, 3))"
proof -
  let ?run = "\<lambda>t :: nat. (if t < 2 then cpu_Running else cpu_Crashed, t + 1)"
  obtain code n r where e: "sim_main (Some 0) ?run = (code, Some (n, r))"
    by (cases "sim_loop ?run 32000000 cpu_Running 0") (auto simp: sim_main_def simp del: sim_loop.simps)
  note s = simulation_ends [OF e]
  have a: "sim_after ?run 3 (cpu_Running, 0) = (cpu_Crashed, 3)" "fst (sim_after ?run 0 (cpu_Running, 0)) = cpu_Running"
    "fst (sim_after ?run 1 (cpu_Running, 0)) = cpu_Running" "fst (sim_after ?run 2 (cpu_Running, 0)) = cpu_Running"
    by (simp_all add: eval_nat_numeral)
  have r: "fst r = fst (sim_after ?run n (cpu_Running, 0))" using s by simp
  have "\<not> 3 < n" using s a(1) by force
  moreover have "n \<noteq> m" if "fst (sim_after ?run m (cpu_Running, 0)) = cpu_Running" "m < 32000000" for m
    using s r that by auto
  from this [OF a(2)] this [OF a(3)] this [OF a(4)] have "n \<noteq> 0" "n \<noteq> 1" "n \<noteq> 2" by simp_all
  ultimately have "n = 3" by arith
  with s a(1) e show ?thesis by simp
qed

end
