(* ===== verification/Spec2Isabelle.thy ===== *)
theory Spec2Isabelle
  imports Link Bus Wakeup Sens Objective Server Main_Loop Img Frames Lcd Taxi Avr_Setup Sens_Display Steering Overlay Lcd_Demo Packet_Loss Dev_Programs
begin

text \<open>
  The software of an autonomous model taxi. A communication module, a Linux program in C and C++
  under \<^verbatim>\<open>src/src/comm\<close>, looks at the road through a camera, carries out missions and takes
  commands over the network. It is the master of an SPI bus to two AVR modules under
  \<^verbatim>\<open>src/src/avr\<close>: the control module drives motor and servo, the sensor module measures distances
  and speed. Both sides share the protocol under \<^verbatim>\<open>src/src/spi\<close>. Paths below are relative to
  \<^verbatim>\<open>src/src\<close>.

  \<^bold>\<open>How the parts interact.\<close> The camera's lines become a steering error and stop line events
  (\<^verbatim>\<open>comm/ip/img_proc.cpp\<close>, \<^verbatim>\<open>Img\<close>). With them and the sensor values the objective
  (\<^verbatim>\<open>comm/objective.c\<close>, \<^verbatim>\<open>Objective\<close>) steps through a mission and yields control values. The main
  loop (\<^verbatim>\<open>comm/main.c\<close>, \<^verbatim>\<open>Main_Loop\<close>) asks for sensor values, takes the objective's or the remote
  control's values, brakes in front of obstacles and schedules orders. The server thread
  (\<^verbatim>\<open>comm/server.c\<close>, \<^verbatim>\<open>Server\<close>) executes commands on the shared data. Orders wait in the linked list
  of the bus (\<^verbatim>\<open>comm/bus.c\<close>; \<^verbatim>\<open>Order_Queue\<close> for the list, \<^verbatim>\<open>Bus\<close> for the thread and its clients).
  A transaction goes over the wire to a module (\<^verbatim>\<open>comm/spi.c\<close>, \<^verbatim>\<open>avr/bus.c\<close>, \<^verbatim>\<open>spi/protocol.c\<close>;
  \<^verbatim>\<open>Protocol\<close> and \<^verbatim>\<open>Spi\<close>), where \<^verbatim>\<open>avr/ctrl.c\<close> (\<^verbatim>\<open>Ctrl\<close>) or \<^verbatim>\<open>avr/sens.c\<close> (\<^verbatim>\<open>Sens\<close>) acts on it. The sensor
  module shows its values on a display (\<^verbatim>\<open>avr/lcd.c\<close>; \<^verbatim>\<open>Lcd\<close> and \<^verbatim>\<open>Sens_Display\<close>). \<^verbatim>\<open>Taxi\<close> puts the main
  thread, the messages, the bus thread, the wires and both modules together into one step relation.

  \<^bold>\<open>The theories.\<close>
  \<^item> \<^verbatim>\<open>Prelude\<close>: machine types, collections of facts, generic lemmas.
  \<^item> \<^verbatim>\<open>Cfloat\<close>: \<open>float\<close> and \<open>double\<close> with rounding to nearest even, infinities, NaN and both zeros,
    executable, and their bytes. \<^verbatim>\<open>Fp_Bounds\<close>: exact values and magnitudes. \<^verbatim>\<open>Cstdlib\<close>: \<open>strtof\<close> and the
    printing of numbers.
  \<^item> \<^verbatim>\<open>Protocol\<close>: the tables \<open>BCSS\<close> and \<open>BCCS\<close>, the command byte and the checksum. It shows the round trip of
    the command byte and what the checksum really depends on.
  \<^item> \<^verbatim>\<open>Spi\<close>: both ends of a transaction as processes that exchange bytes; \<open>exch\<close> couples them over
    a wire that may change bytes. \<^verbatim>\<open>Link\<close>: transactions with the control module end to end, complete,
    corrupted, cut short.
  \<^item> \<^verbatim>\<open>Ctrl\<close>: regulators, command handler and PWM registers; bounds of the registers for all inputs.
  \<^item> \<^verbatim>\<open>Order_Queue\<close>: \<open>order_queue\<close> and \<open>order_pop\<close> on the list in memory, and the list of orders they
    implement; the interface \<open>pending\<close> of a queue. \<^verbatim>\<open>Bus\<close>: every critical section as a step, the
    abstract bus, the simulation between them, and what holds in every interleaving. \<^verbatim>\<open>Wakeup\<close> adds
    time, the delays of the thread and the signals that wake it: when one is lost, how long an
    order and the end can take. \<^verbatim>\<open>tests/bus.c\<close> is one of its runs.
  \<^item> \<^verbatim>\<open>Sens\<close>: interrupts, main loop and answers of the sensor module; bounds of the published
    values.
  \<^item> \<^verbatim>\<open>Objective\<close>: the six commands, the mission, a step, and the remaining mission as a string.
  \<^item> \<^verbatim>\<open>Img\<close>: from Hough lines to the result of a frame, with its invariant. \<^verbatim>\<open>Frames\<close>: no undefined
    behaviour in any run, with the pictures and numbers of lines this holds for.
  \<^item> \<^verbatim>\<open>Server\<close>: reception, parsing, execution; the parser equals a specification without buffers.
  \<^item> \<^verbatim>\<open>Main_Loop\<close>: the shared data and all threads' access to it as steps; what the program schedules.
  \<^item> \<^verbatim>\<open>Lcd\<close>: the port and the display behind it. \<^verbatim>\<open>Sens_Display\<close>: the values of the sensor module
    on it; the interface \<open>text_display\<close> of a driver, which the older driver provides as well.
  \<^item> \<^verbatim>\<open>Module\<close>: a slave as rounds of its loop or interrupt, served from wherever it was left; the
    interface \<open>bus_module\<close> of a slave that always ends its rounds. \<^verbatim>\<open>Taxi\<close>: both modules as instances,
    the whole taxi, and what holds in each of its reachable states.
  \<^item> \<^verbatim>\<open>Steering\<close>: from the lane error of a frame to the steering servo.
  \<^item> \<^verbatim>\<open>Avr_Setup\<close>: the registers both modules write at their start and the device files, against the
    data sheet: the signals are servo signals, both sides of the bus agree, the killswitch is off.
  \<^item> \<^verbatim>\<open>Overlay\<close>: the filters before and the drawing after a frame, the objects of OpenCV and the
    sliders of the debug window.
  \<^item> \<^verbatim>\<open>Lcd_Demo\<close>, \<^verbatim>\<open>Packet_Loss\<close>, \<^verbatim>\<open>Dev_Programs\<close>: programs under \<^verbatim>\<open>dbg\<close> and \<^verbatim>\<open>tests\<close>. The trial of the
    display with its delays, equal to the driver when they are erased; the measurement of packet
    loss, whose slaves are again a \<open>bus_module\<close>; the simulation and the test of the protocol.
  \<^item> This theory: properties that span components.

  \<^bold>\<open>How it is modelled.\<close> A function is a definition over the state it changes, a record with the
  fields of the code's. Undefined behaviour, such as a write outside a buffer, is \<open>None\<close>, so a
  result \<open>Some\<close> is also a statement of safety. Threads interleave at critical sections. Fields that a
  comment calls history exist for the statements only. Loops are structural recursions or have a
  measure, so there is no fuel: reception is measured by the bytes not yet read, tokens by the rest
  of the string. Retries of the bus are steps, and \<open>bus_no_starvation\<close> counts them. How often a loop
  finds the converter busy is an argument, and every result holds for each number of times.

  \<^bold>\<open>What is assumed.\<close> IEEE arithmetic, with \<open>double\<close> as \<open>float\<close> on the AVR; one NaN. Bit fields
  begin at the low bits. Calls of the SPI driver succeed, and a slave is ready for each byte.
  \<open>malloc\<close> succeeds and returns memory not in use. \<open>pow\<close>, \<open>acos\<close>, \<open>nth_element\<close> and the operations of
  OpenCV are arguments; where a result depends on them their documented behaviour is a
  hypothesis, such as \<open>nth_ok\<close>, \<open>pow_ok\<close> and \<open>masks_ok\<close>. \<open>dtostrf\<close> rounds as \<open>printf\<close> does. Registers and
  the display mean what their data sheets say. Coordinates are bounded where it matters
  (\<open>in_frame\<close>, \<open>camera\<close>, \<open>pictures\<close>).

  \<^bold>\<open>Not modelled.\<close> The camera, OpenCV's own algorithms, windows and video files. Delays, except those
  of the bus thread and of the display's trial program, and the time a transfer takes, for which \<^verbatim>\<open>Wakeup\<close>
  has a bound as a parameter. The recording of the simulator. The remote control
  client, a Python program of its own. \<^verbatim>\<open>avr/uart.c\<close> is an unfinished stub and \<^verbatim>\<open>dbg/ip.c\<close> calls a
  function with an argument missing; neither compiles. Nor does \<^verbatim>\<open>tests/obj.c\<close>, which
  leaves out an argument of \<open>obj_set_mission\<close>.
\<close>

section \<open>From the camera to the steering\<close>



section \<open>From the remote control to the motor\<close>



end
